(* ===== verification/Prelude.thy ===== *)
theory Prelude
  imports Main "HOL-Library.Word" "HOL-Library.Monad_Syntax"
begin

text \<open>
  Shared vocabulary of the development: the machine types of the 32-bit x86 build, the return
  codes of the hypercall interface, kernel assertions, and the few generic lemmas on words,
  options and lists that the component theories have in common.

  Conventions.  An unsigned C integer is a word of its width.  A signed C integer is an \<open>int\<close>, and
  every conversion between the two is written out (\<open>uint\<close>, \<open>sint\<close>, \<open>word_of_int\<close>).  Signed overflow
  is undefined behaviour in C; where the operands are bounded by the code no sum or product can
  leave the range of its type and it is written as it is, and where they are not (the 64-bit times
  and periods a guest chooses) every operation is reduced by \<open>s64\<close> to the two's complement value
  the compiled code computes.  An array is a
  total function from indices to cells, as memory is.  \<open>system_panic\<close> never returns: a run that
  reaches it is the value \<open>None\<close> of an option.
\<close>

unbundle bit_operations_syntax

section \<open>Machine types\<close>

type_synonym u8 = "8 word"
type_synonym u16 = "16 word"
type_synonym u32 = "32 word"
type_synonym u64 = "64 word"

section \<open>64-bit signed arithmetic\<close>

definition s64 :: "int \<Rightarrow> int" where
  "s64 x = sint (word_of_int x :: u64)"

lemma s64_id: "- (2 ^ 63) \<le> x \<Longrightarrow> x < 2 ^ 63 \<Longrightarrow> s64 x = x"
  by (simp add: s64_def sint_sbintrunc' signed_take_bit_int_eq_self)

lemma s64_over: "2 ^ 63 \<le> x \<Longrightarrow> x < 2 ^ 63 + 2 ^ 64 \<Longrightarrow> s64 x = x - 2 ^ 64"
proof -
  assume "2 ^ 63 \<le> x" "x < 2 ^ 63 + 2 ^ 64"
  moreover have "(word_of_int (x - 2 ^ 64) :: u64) = word_of_int x"
    using minus_mod_self2 [of x "2 ^ 64"] by (simp add: word_of_int_eq_iff take_bit_eq_mod)
  then have "s64 x = s64 (x - 2 ^ 64)" by (simp only: s64_def)
  ultimately show ?thesis using s64_id [of "x - 2 ^ 64"] by simp
qed

section \<open>Return codes of the hypercall interface\<close>

definition PRTOS_OK :: int where "PRTOS_OK = 0"
definition PRTOS_NO_ACTION :: int where "PRTOS_NO_ACTION = - 1"
definition PRTOS_UNKNOWN_HYPERCALL :: int where "PRTOS_UNKNOWN_HYPERCALL = - 2"
definition PRTOS_INVALID_PARAM :: int where "PRTOS_INVALID_PARAM = - 3"
definition PRTOS_PERM_ERROR :: int where "PRTOS_PERM_ERROR = - 4"
definition PRTOS_INVALID_CONFIG :: int where "PRTOS_INVALID_CONFIG = - 5"
definition PRTOS_INVALID_MODE :: int where "PRTOS_INVALID_MODE = - 6"
definition PRTOS_OP_NOT_ALLOWED :: int where "PRTOS_OP_NOT_ALLOWED = - 7"
definition PRTOS_MULTICALL_ERROR :: int where "PRTOS_MULTICALL_ERROR = - 8"

lemmas return_codes =
  PRTOS_OK_def PRTOS_NO_ACTION_def PRTOS_UNKNOWN_HYPERCALL_def PRTOS_INVALID_PARAM_def
  PRTOS_PERM_ERROR_def PRTOS_INVALID_CONFIG_def PRTOS_INVALID_MODE_def
  PRTOS_OP_NOT_ALLOWED_def PRTOS_MULTICALL_ERROR_def

section \<open>Collections of the development\<close>

named_theorems frame_simps \<open>what an operation leaves unchanged\<close>
named_theorems inv_intros \<open>preservation of component invariants\<close>

section \<open>Assertions\<close>

text \<open>\<open>ASSERT\<close> of \<open>assert.h\<close> under \<open>CONFIG_DEBUG\<close>: a failed assertion panics.\<close>

definition ASSERT :: "bool \<Rightarrow> unit option" where
  "ASSERT e = (if e then Some () else None)"

lemma ASSERT_simps [simp]: "ASSERT True = Some ()" "ASSERT False = None"
  by (simp_all add: ASSERT_def)

lemma ASSERT_eq_Some [simp]: "ASSERT e = Some u \<longleftrightarrow> e"
  by (simp add: ASSERT_def)

lemma ASSERT_eq_None [simp]: "ASSERT e = None \<longleftrightarrow> \<not> e"
  by (simp add: ASSERT_def)

lemma ASSERT_bind: "(ASSERT e \<bind> f) = (if e then f () else None)"
  by (simp add: ASSERT_def)

lemma bind_eq_Some_iff: "(m \<bind> f) = Some y \<longleftrightarrow> (\<exists>x. m = Some x \<and> f x = Some y)"
  by (cases m) auto

section \<open>Flag words\<close>

text \<open>\<open>1 << n\<close> on an unsigned 32-bit operand, for \<open>n\<close> below the width.\<close>

definition bit32 :: "nat \<Rightarrow> u32" where
  "bit32 n = push_bit n 1"

lemma bit_bit32 [simp]: "bit (bit32 n) i \<longleftrightarrow> n = i \<and> n < 32"
  by (auto simp: bit32_def bit_simps)

lemma word_and_bit32_eq_0: "n < 32 \<Longrightarrow> w AND bit32 n = 0 \<longleftrightarrow> \<not> bit w n"
  by (auto simp: bit_simps intro!: bit_word_eqI dest!: arg_cong [where f = "\<lambda>x. bit x n"])

lemma word_lt_exp_bit: "w < 2 ^ n \<Longrightarrow> n \<le> i \<Longrightarrow> \<not> bit (w :: 'a::len word) i"
  by (metis bit_and_iff bit_mask_iff less_mask_eq not_le)

lemma word_neq_0_bit: "(w :: 'a::len word) \<noteq> 0 \<longleftrightarrow> (\<exists>i < LENGTH('a). bit w i)"
  by (metis bit_eq_iff bit_imp_le_length bit_0_eq bot_apply bot_bool_def bit_word_eqI)

section \<open>Lists\<close>

lemma map_fun_upd_notin: "x \<notin> set xs \<Longrightarrow> map (f(x := y)) xs = map f xs"
  by (induction xs) auto

lemma list_ends: "length xs \<ge> 2 \<Longrightarrow> \<exists>a ys b. xs = a # ys @ [b]"
  by (cases xs; cases "tl xs" rule: rev_cases) auto

text \<open>A loop over the indices \<open>i, i+1, \<dots>, n-1\<close>.\<close>

fun for_upto :: "nat \<Rightarrow> (nat \<Rightarrow> 's \<Rightarrow> 's) \<Rightarrow> 's \<Rightarrow> 's" where
  "for_upto 0 f s = s"
| "for_upto (Suc n) f s = f n (for_upto n f s)"

lemma for_upto_fold: "for_upto n f s = fold f [0..<n] s"
  by (induction n) simp_all

lemma for_upto_inv:
  assumes "P s" and "\<And>i s. i < n \<Longrightarrow> P s \<Longrightarrow> P (f i s)"
  shows "P (for_upto n f s)"
proof -
  have "m \<le> n \<Longrightarrow> P (for_upto m f s)" for m
    using assms by (induction m) auto
  then show ?thesis by simp
qed

text \<open>A \<open>for\<close> loop over a list of indices whose body may fault.\<close>

fun foldM :: "('a \<Rightarrow> 's \<Rightarrow> 's option) \<Rightarrow> 'a list \<Rightarrow> 's \<Rightarrow> 's option" where
  "foldM f [] s = Some s"
| "foldM f (x # xs) s = do { s \<leftarrow> f x s; foldM f xs s }"

lemma foldM_append: "foldM f (xs @ ys) s = foldM f xs s \<bind> foldM f ys"
  by (induction xs arbitrary: s) (auto split: bind_splits)

lemma foldM_inv:
  assumes "foldM f xs s = Some s'" and "P s"
    and "\<And>x s s'. x \<in> set xs \<Longrightarrow> f x s = Some s' \<Longrightarrow> P s \<Longrightarrow> P s'"
  shows "P s'"
  using assms by (induction xs arbitrary: s) (auto simp: bind_eq_Some_iff)

lemma foldM_total:
  assumes "P s" and "\<And>x s. x \<in> set xs \<Longrightarrow> P s \<Longrightarrow> \<exists>s'. f x s = Some s' \<and> P s'"
  shows "\<exists>s'. foldM f xs s = Some s' \<and> P s'"
  using assms by (induction xs arbitrary: s) (auto simp: bind_eq_Some_iff, metis)

text \<open>A search loop: the first index that satisfies the test, as \<open>break\<close> leaves it.\<close>

fun search_from :: "nat \<Rightarrow> nat \<Rightarrow> (nat \<Rightarrow> bool) \<Rightarrow> nat" where
  "search_from i 0 t = i"
| "search_from i (Suc k) t = (if t i then i else search_from (Suc i) k t)"

lemma search_from_le: "i \<le> search_from i k t \<and> search_from i k t \<le> i + k"
  by (induction i k t rule: search_from.induct) (auto simp: le_Suc_eq)

lemma search_from_hit: "search_from i k t < i + k \<Longrightarrow> t (search_from i k t)"
  by (induction i k t rule: search_from.induct) auto

lemma search_from_first: "i \<le> j \<Longrightarrow> j < search_from i k t \<Longrightarrow> \<not> t j"
proof (induction i k t rule: search_from.induct)
  case (2 i k t)
  then show ?case by (cases "j = i") (auto split: if_splits)
qed simp

lemma search_from_miss: "search_from i k t = i + k \<longleftrightarrow> (\<forall>j. i \<le> j \<and> j < i + k \<longrightarrow> \<not> t j)"
  by (metis add_leD1 le_add1 less_irrefl nat_less_le search_from_first search_from_hit search_from_le)

lemma uint_word_of_int_u32: "0 \<le> x \<Longrightarrow> x < 2 ^ 32 \<Longrightarrow> uint (word_of_int x :: u32) = x"
  by (simp add: uint_word_of_int)

lemma sint_small: "uint (w :: u32) < 2 ^ 31 \<Longrightarrow> sint w = uint w"
  unfolding sint_uint by (rule signed_take_bit_int_eq_self) (simp_all add: order_trans [OF _ uint_ge_0])

lemma unat_lt32: "unat (x :: u32) < 2 ^ 32"
  using unsigned_less [of x] by simp

lemma unat_add_of_nat: "unat (a :: u32) + i < 2 ^ 32 \<Longrightarrow> unat (a + of_nat i) = unat a + i"
  by (subst unat_add_lem [THEN iffD1]) (simp_all add: unat_of_nat)

lemma unat_lt31: "uint (w :: u32) < 2 ^ 31 \<Longrightarrow> unat w < 2 ^ 31"
  unfolding unat_eq_nat_uint by (subst nat_less_iff) auto

lemma unat_of_nat32: "n < 2 ^ 32 \<Longrightarrow> unat (of_nat n :: u32) = n"
  by (simp add: unat_of_nat)

lemma sint_of_nat32:
  assumes "n < 2 ^ 31"
  shows "sint (of_nat n :: u32) = int n"
proof -
  have "unat (of_nat n :: u32) = n" using assms by (intro unat_of_nat32) simp
  then have "uint (of_nat n :: u32) = int n" by (metis uint_nat)
  then show ?thesis using sint_small [of "of_nat n"] assms by simp
qed

end
