(* ===== verification/DynList.thy ===== *)
theory DynList
  imports Prelude
begin

text \<open>
  \<open>core/include/list.h\<close>: circular doubly linked lists whose nodes are embedded in the objects
  they link.  The heap maps node addresses to nodes and list addresses to list heads, so that the
  pointer updates of the code are heap updates and aliasing (a list of one element points to
  itself) is kept.  A NULL dereference and a failed \<open>ASSERT\<close> are \<open>None\<close>.  \<open>dl_rep\<close> relates a
  heap to the sequence a list stands for, and each operation is shown to compute the sequence
  operation.  Two contracts are stated as locales, a FIFO and a deque, and interpreted on the code.
\<close>

section \<open>The heap\<close>

record ('l, 'n) dyn_list_node =
  dn_list :: "'l option"
  dn_prev :: "'n option"
  dn_next :: "'n option"

record 'n dyn_list =
  dl_head :: "'n option"
  dl_num :: int

record ('l, 'n) dheap =
  nodes :: "'n \<Rightarrow> ('l, 'n) dyn_list_node"
  dlists :: "'l \<Rightarrow> 'n dyn_list"

definition set_prev :: "'n \<Rightarrow> 'n option \<Rightarrow> ('l, 'n) dheap \<Rightarrow> ('l, 'n) dheap" where
  "set_prev e p h = h\<lparr>nodes := (nodes h)(e := (nodes h e)\<lparr>dn_prev := p\<rparr>)\<rparr>"

definition set_next :: "'n \<Rightarrow> 'n option \<Rightarrow> ('l, 'n) dheap \<Rightarrow> ('l, 'n) dheap" where
  "set_next e p h = h\<lparr>nodes := (nodes h)(e := (nodes h e)\<lparr>dn_next := p\<rparr>)\<rparr>"

definition set_list :: "'n \<Rightarrow> 'l option \<Rightarrow> ('l, 'n) dheap \<Rightarrow> ('l, 'n) dheap" where
  "set_list e l h = h\<lparr>nodes := (nodes h)(e := (nodes h e)\<lparr>dn_list := l\<rparr>)\<rparr>"

definition set_head :: "'l \<Rightarrow> 'n option \<Rightarrow> ('l, 'n) dheap \<Rightarrow> ('l, 'n) dheap" where
  "set_head l p h = h\<lparr>dlists := (dlists h)(l := (dlists h l)\<lparr>dl_head := p\<rparr>)\<rparr>"

definition set_num :: "'l \<Rightarrow> int \<Rightarrow> ('l, 'n) dheap \<Rightarrow> ('l, 'n) dheap" where
  "set_num l n h = h\<lparr>dlists := (dlists h)(l := (dlists h l)\<lparr>dl_num := n\<rparr>)\<rparr>"

lemmas heap_writes = set_prev_def set_next_def set_list_def set_head_def set_num_def

section \<open>The operations\<close>

definition dyn_list_init :: "'l \<Rightarrow> ('l, 'n) dheap \<Rightarrow> ('l, 'n) dheap" where
  "dyn_list_init l h = set_head l None (set_num l 0 h)"

definition dyn_list_insert_head ::
    "'l \<Rightarrow> 'n \<Rightarrow> ('l, 'n) dheap \<Rightarrow> (int \<times> ('l, 'n) dheap) option" where
  "dyn_list_insert_head l e h =
     (case dn_list (nodes h e) of
        Some l' \<Rightarrow> do { _ \<leftarrow> ASSERT (l' = l); Some (0, h) }
      | None \<Rightarrow> do {
          _ \<leftarrow> ASSERT (dn_next (nodes h e) = None \<and> dn_prev (nodes h e) = None);
          h \<leftarrow> (case dl_head (dlists h l) of
             Some hn \<Rightarrow> do {
               _ \<leftarrow> ASSERT (dl_num (dlists h l) > 0);
               let h = set_next e (Some hn) h;
               let h = set_prev e (dn_prev (nodes h hn)) h;
               p \<leftarrow> dn_prev (nodes h hn);
               let h = set_next p (Some e) h;
               Some (set_prev hn (Some e) h) }
           | None \<Rightarrow> do {
               _ \<leftarrow> ASSERT (dl_num (dlists h l) = 0);
               Some (set_prev e (Some e) (set_next e (Some e) h)) });
          let h = set_head l (Some e) h;
          let h = set_num l (dl_num (dlists h l) + 1) h;
          let h = set_list e (Some l) h;
          _ \<leftarrow> ASSERT (dl_num (dlists h l) \<ge> 0);
          Some (0, h) })"

definition dyn_list_insert_tail ::
    "'l \<Rightarrow> 'n \<Rightarrow> ('l, 'n) dheap \<Rightarrow> (int \<times> ('l, 'n) dheap) option" where
  "dyn_list_insert_tail l e h =
     (case dn_list (nodes h e) of
        Some l' \<Rightarrow> do { _ \<leftarrow> ASSERT (l' = l); Some (0, h) }
      | None \<Rightarrow> do {
          _ \<leftarrow> ASSERT (dn_next (nodes h e) = None \<and> dn_prev (nodes h e) = None);
          h \<leftarrow> (case dl_head (dlists h l) of
             Some hn \<Rightarrow> do {
               let h = set_next e (Some hn) h;
               let h = set_prev e (dn_prev (nodes h hn)) h;
               p \<leftarrow> dn_prev (nodes h hn);
               let h = set_next p (Some e) h;
               Some (set_prev hn (Some e) h) }
           | None \<Rightarrow> Some (set_head l (Some e) (set_prev e (Some e) (set_next e (Some e) h))));
          let h = set_num l (dl_num (dlists h l) + 1) h;
          let h = set_list e (Some l) h;
          _ \<leftarrow> ASSERT (dl_num (dlists h l) \<ge> 0);
          Some (0, h) })"

text \<open>The tail shared by the two removals: unlink \<open>e\<close>, clear its links, count down.\<close>

definition dyn_list_unlink :: "'n \<Rightarrow> ('l, 'n) dheap \<Rightarrow> ('l, 'n) dheap option" where
  "dyn_list_unlink e h = do {
     p \<leftarrow> dn_prev (nodes h e);
     let h = set_next p (dn_next (nodes h e)) h;
     n \<leftarrow> dn_next (nodes h e);
     Some (set_prev n (dn_prev (nodes h e)) h) }"

definition dyn_list_clear_count :: "'l \<Rightarrow> 'n \<Rightarrow> ('l, 'n) dheap \<Rightarrow> ('l, 'n) dheap" where
  "dyn_list_clear_count l e h =
     (let h = set_prev e None (set_next e None h);
          h = set_list e None h;
          h = set_num l (dl_num (dlists h l) - 1) h
      in if dl_num (dlists h l) = 0 then set_head l None h else h)"

definition dyn_list_remove_head ::
    "'l \<Rightarrow> ('l, 'n) dheap \<Rightarrow> ('n option \<times> ('l, 'n) dheap) option" where
  "dyn_list_remove_head l h =
     (case dl_head (dlists h l) of
        None \<Rightarrow> do { _ \<leftarrow> ASSERT (dl_num (dlists h l) \<ge> 0); Some (None, h) }
      | Some e \<Rightarrow> do {
          let h = set_head l (dn_next (nodes h e)) h;
          h \<leftarrow> dyn_list_unlink e h;
          let h = dyn_list_clear_count l e h;
          _ \<leftarrow> ASSERT (dl_num (dlists h l) \<ge> 0);
          Some (Some e, h) })"

definition dyn_list_remove_tail ::
    "'l \<Rightarrow> ('l, 'n) dheap \<Rightarrow> ('n option \<times> ('l, 'n) dheap) option" where
  "dyn_list_remove_tail l h =
     (case dl_head (dlists h l) of
        None \<Rightarrow> do { _ \<leftarrow> ASSERT (dl_num (dlists h l) \<ge> 0); Some (None, h) }
      | Some hn \<Rightarrow> do {
          e \<leftarrow> dn_prev (nodes h hn);
          h \<leftarrow> dyn_list_unlink e h;
          let h = dyn_list_clear_count l e h;
          _ \<leftarrow> ASSERT (dl_num (dlists h l) \<ge> 0);
          Some (Some e, h) })"

definition dyn_list_remove_element ::
    "'l \<Rightarrow> 'n \<Rightarrow> ('l, 'n) dheap \<Rightarrow> (int \<times> ('l, 'n) dheap) option" where
  "dyn_list_remove_element l e h = do {
     _ \<leftarrow> ASSERT (dn_list (nodes h e) = Some l);
     _ \<leftarrow> ASSERT (dn_prev (nodes h e) \<noteq> None \<and> dn_next (nodes h e) \<noteq> None);
     h \<leftarrow> dyn_list_unlink e h;
     let h = (if dl_head (dlists h l) = Some e then set_head l (dn_next (nodes h e)) h else h);
     let h = dyn_list_clear_count l e h;
     _ \<leftarrow> ASSERT (dl_num (dlists h l) \<ge> 0);
     Some (0, h) }"

text \<open>
  \<open>DYNLIST_FOR_EACH_ELEMENT_BEGIN/END\<close>: the elements the loop visits, \<open>num_of_elems\<close> of them,
  from the head along the \<open>next\<close> links.  The loops of the kernel do not change the list they walk.
\<close>

fun dyn_list_walk :: "nat \<Rightarrow> 'n option \<Rightarrow> ('l, 'n) dheap \<Rightarrow> 'n list option" where
  "dyn_list_walk 0 n h = Some []"
| "dyn_list_walk (Suc k) n h =
     do { e \<leftarrow> n; es \<leftarrow> dyn_list_walk k (dn_next (nodes h e)) h; Some (e # es) }"

definition dyn_list_for_each :: "'l \<Rightarrow> ('l, 'n) dheap \<Rightarrow> 'n list option" where
  "dyn_list_for_each l h = dyn_list_walk (nat (dl_num (dlists h l))) (dl_head (dlists h l)) h"

section \<open>Reading a heap after the writes\<close>

lemma set_fields [simp]:
  "dn_next (nodes (set_next e p h) y) = (if y = e then p else dn_next (nodes h y))"
  "dn_prev (nodes (set_next e p h) y) = dn_prev (nodes h y)"
  "dn_list (nodes (set_next e p h) y) = dn_list (nodes h y)"
  "dn_next (nodes (set_prev e p h) y) = dn_next (nodes h y)"
  "dn_prev (nodes (set_prev e p h) y) = (if y = e then p else dn_prev (nodes h y))"
  "dn_list (nodes (set_prev e p h) y) = dn_list (nodes h y)"
  "dn_next (nodes (set_list e k h) y) = dn_next (nodes h y)"
  "dn_prev (nodes (set_list e k h) y) = dn_prev (nodes h y)"
  "dn_list (nodes (set_list e k h) y) = (if y = e then k else dn_list (nodes h y))"
  "nodes (set_head l p h) = nodes h" "nodes (set_num l n h) = nodes h"
  "dlists (set_next e p h) = dlists h" "dlists (set_prev e p h) = dlists h"
  "dlists (set_list e k h) = dlists h"
  "dl_head (dlists (set_head l p h) m) = (if m = l then p else dl_head (dlists h m))"
  "dl_num (dlists (set_head l p h) m) = dl_num (dlists h m)"
  "dl_head (dlists (set_num l n h) m) = dl_head (dlists h m)"
  "dl_num (dlists (set_num l n h) m) = (if m = l then n else dl_num (dlists h m))"
  "m \<noteq> l \<Longrightarrow> dlists (set_head l p h) m = dlists h m"
  "m \<noteq> l \<Longrightarrow> dlists (set_num l n h) m = dlists h m"
  by (auto simp: heap_writes)

lemma dl_node_eqI:
  "dn_list a = dn_list b \<Longrightarrow> dn_prev a = dn_prev b \<Longrightarrow> dn_next a = dn_next b \<Longrightarrow> a = (b :: ('l, 'n) dyn_list_node)"
  by (cases a; cases b) auto

lemma dl_list_eqI: "dl_head a = dl_head b \<Longrightarrow> dl_num a = dl_num b \<Longrightarrow> a = (b :: 'n dyn_list)"
  by (cases a; cases b) auto

section \<open>What a heap stands for\<close>

fun dl_chain :: "('l, 'n) dheap \<Rightarrow> 'n list \<Rightarrow> bool" where
  "dl_chain h (x # y # xs) \<longleftrightarrow>
     dn_next (nodes h x) = Some y \<and> dn_prev (nodes h y) = Some x \<and> dl_chain h (y # xs)"
| "dl_chain h _ \<longleftrightarrow> True"

definition dl_cycle :: "('l, 'n) dheap \<Rightarrow> 'n list \<Rightarrow> bool" where
  "dl_cycle h xs \<longleftrightarrow> dl_chain h (xs @ take 1 xs)"

definition dl_rep :: "('l, 'n) dheap \<Rightarrow> 'l \<Rightarrow> 'n list \<Rightarrow> bool" where
  "dl_rep h l xs \<longleftrightarrow> distinct xs \<and> dl_cycle h xs \<and>
     dl_num (dlists h l) = int (length xs) \<and>
     dl_head (dlists h l) = (case xs of [] \<Rightarrow> None | x # _ \<Rightarrow> Some x) \<and>
     (\<forall>x. dn_list (nodes h x) = Some l \<longleftrightarrow> x \<in> set xs)"

definition dl_detached :: "('l, 'n) dheap \<Rightarrow> 'n \<Rightarrow> bool" where
  "dl_detached h e \<longleftrightarrow>
     dn_list (nodes h e) = None \<and> dn_prev (nodes h e) = None \<and> dn_next (nodes h e) = None"

text \<open>What an operation on the list \<open>l\<close> that touches only the nodes of \<open>S\<close> leaves alone.\<close>

definition dl_frame :: "'l \<Rightarrow> 'n set \<Rightarrow> ('l, 'n) dheap \<Rightarrow> ('l, 'n) dheap \<Rightarrow> bool" where
  "dl_frame l S h h' \<longleftrightarrow>
     (\<forall>x. x \<notin> S \<longrightarrow> nodes h' x = nodes h x) \<and> (\<forall>k. k \<noteq> l \<longrightarrow> dlists h' k = dlists h k)"

lemma dl_chain_append:
  "dl_chain h (xs @ y # ys) \<longleftrightarrow> dl_chain h (xs @ [y]) \<and> dl_chain h (y # ys)"
  by (induction h xs rule: dl_chain.induct) auto

lemma dl_chain_snoc:
  "xs \<noteq> [] \<Longrightarrow> dl_chain h (xs @ [y]) \<longleftrightarrow>
     dl_chain h xs \<and> dn_next (nodes h (last xs)) = Some y \<and> dn_prev (nodes h y) = Some (last xs)"
  by (cases xs rule: rev_cases) (auto simp: dl_chain_append [of _ _ _ "[_]"])

lemma dl_chain_frame:
  assumes "\<And>x. x \<in> set (butlast xs) \<Longrightarrow> dn_next (nodes h' x) = dn_next (nodes h x)"
    and "\<And>x. x \<in> set (tl xs) \<Longrightarrow> dn_prev (nodes h' x) = dn_prev (nodes h x)"
  shows "dl_chain h' xs \<longleftrightarrow> dl_chain h xs"
  using assms by (induction h xs rule: dl_chain.induct) auto

lemma dl_cycle_Cons:
  "dl_cycle h (x # xs) \<longleftrightarrow> dl_chain h (x # xs) \<and>
     dn_next (nodes h (last (x # xs))) = Some x \<and> dn_prev (nodes h x) = Some (last (x # xs))"
  by (simp add: dl_cycle_def dl_chain_snoc [of "x # xs", simplified])

lemma dl_cycle_rotate: "dl_cycle h (xs @ ys) \<Longrightarrow> dl_cycle h (ys @ xs)"
proof (cases xs)
  case (Cons x xs')
  then show "dl_cycle h (xs @ ys) \<Longrightarrow> dl_cycle h (ys @ xs)"
  proof (cases ys)
    case (Cons y ys')
    with \<open>xs = x # xs'\<close> show "dl_cycle h (xs @ ys) \<Longrightarrow> dl_cycle h (ys @ xs)"
      using dl_chain_append [of h "x # xs'" y "ys' @ [x]"] dl_chain_append [of h "y # ys'" x "xs' @ [y]"]
      by (simp add: dl_cycle_def)
  qed simp
qed simp

text \<open>Membership, so that an element outside a list is told apart from its nodes.\<close>

lemma dl_detached_notin: "dl_rep h l xs \<Longrightarrow> dl_detached h e \<Longrightarrow> e \<notin> set xs"
  by (metis dl_rep_def dl_detached_def option.distinct(1))

lemma dl_rep_disjoint: "dl_rep h l xs \<Longrightarrow> dl_rep h k ys \<Longrightarrow> k \<noteq> l \<Longrightarrow> set xs \<inter> set ys = {}"
  by (auto simp: dl_rep_def) (metis option.inject)

text \<open>The effect of the operations on the cycle of nodes.\<close>

lemma cycle_insert:
  assumes c: "dl_cycle h (x # xs)" and e: "e \<notin> set (x # xs)" and d: "distinct (x # xs)"
    and h': "dn_prev (nodes h' e) = Some (last (x # xs))" "dn_next (nodes h' e) = Some x"
    and n: "\<And>y. y \<noteq> e \<Longrightarrow> dn_next (nodes h' y) = (if y = last (x # xs) then Some e else dn_next (nodes h y))"
    and p: "\<And>y. y \<noteq> e \<Longrightarrow> dn_prev (nodes h' y) = (if y = x then Some e else dn_prev (nodes h y))"
  shows "dl_cycle h' (e # x # xs)"
proof -
  have "dl_chain h' (x # xs) \<longleftrightarrow> dl_chain h (x # xs)"
  proof (rule dl_chain_frame)
    fix y assume "y \<in> set (butlast (x # xs))"
    moreover from this d have "y \<noteq> last (x # xs)"
      by (metis append_butlast_last_id distinct_append disjoint_iff list.set_intros(1) list.distinct(1))
    ultimately show "dn_next (nodes h' y) = dn_next (nodes h y)"
      using e n [of y] by (metis in_set_butlastD)
  next
    fix y assume "y \<in> set (tl (x # xs))"
    then show "dn_prev (nodes h' y) = dn_prev (nodes h y)" using e d p [of y] by (metis distinct.simps(2) list.sel(3) list.set_intros(2))
  qed
  moreover have "last (x # xs) \<noteq> e" using e by (metis last_in_set list.distinct(1))
  ultimately show ?thesis using c e h' n [of "last (x # xs)"] p [of x]
    by (auto simp: dl_cycle_Cons split: if_splits)
qed

lemma cycle_unlink:
  assumes c: "dl_cycle h (e # x # xs)" and d: "distinct (e # x # xs)"
    and n: "\<And>y. y \<noteq> e \<Longrightarrow> dn_next (nodes h' y) = (if y = last (x # xs) then Some x else dn_next (nodes h y))"
    and p: "\<And>y. y \<noteq> e \<Longrightarrow> dn_prev (nodes h' y) = (if y = x then Some (last (x # xs)) else dn_prev (nodes h y))"
  shows "dl_cycle h' (x # xs)"
proof -
  have "dl_chain h' (x # xs) \<longleftrightarrow> dl_chain h (x # xs)"
  proof (rule dl_chain_frame)
    fix y assume "y \<in> set (butlast (x # xs))"
    moreover from this d have "y \<noteq> last (x # xs)"
      by (metis append_butlast_last_id distinct.simps(2) distinct_append disjoint_iff list.set_intros(1) list.distinct(1))
    ultimately show "dn_next (nodes h' y) = dn_next (nodes h y)"
      using d n [of y] by (metis in_set_butlastD distinct.simps(2))
  next
    fix y assume "y \<in> set (tl (x # xs))"
    then show "dn_prev (nodes h' y) = dn_prev (nodes h y)" using d p [of y] by (metis distinct.simps(2) list.sel(3) list.set_intros(2))
  qed
  moreover have "last (x # xs) \<noteq> e" using d by (metis distinct.simps(2) last_in_set list.distinct(1))
  ultimately show ?thesis using c d n [of "last (x # xs)"] p [of x]
    by (auto simp: dl_cycle_Cons split: if_splits)
qed

lemma dl_rep_Nil: "dl_rep h l [] \<longleftrightarrow>
    dl_head (dlists h l) = None \<and> dl_num (dlists h l) = 0 \<and> (\<forall>x. dn_list (nodes h x) \<noteq> Some l)"
  by (auto simp: dl_rep_def dl_cycle_def)

lemma dl_rep_Cons: "dl_rep h l (x # xs) \<longleftrightarrow>
    distinct (x # xs) \<and> dl_cycle h (x # xs) \<and>
    dl_head (dlists h l) = Some x \<and> dl_num (dlists h l) = int (length xs) + 1 \<and>
    (\<forall>y. dn_list (nodes h y) = Some l \<longleftrightarrow> y \<in> set (x # xs))"
  by (auto simp: dl_rep_def)



definition dl_link :: "'l \<Rightarrow> 'n \<Rightarrow> 'n \<Rightarrow> 'n \<Rightarrow> ('l, 'n) dheap \<Rightarrow> ('l, 'n) dheap" where
  "dl_link l e q x h = set_list e (Some l) (set_num l (dl_num (dlists h l) + 1)
     (set_prev x (Some e) (set_next q (Some e) (set_prev e (Some q) (set_next e (Some x) h)))))"

lemma dl_link_frame:
  "q \<in> S \<Longrightarrow> x \<in> S \<Longrightarrow> dl_frame l (insert e S) h (dl_link l e q x h)"
  by (auto simp: dl_frame_def dl_link_def intro!: dl_node_eqI dl_list_eqI)


lemma set_head_commute:
  "set_num l n (set_head l p h) = set_head l p (set_num l n h)"
  "set_list e k (set_head l p h) = set_head l p (set_list e k h)"
  "set_prev e q (set_head l p h) = set_head l p (set_prev e q h)"
  "set_next e q (set_head l p h) = set_head l p (set_next e q h)"
  "set_head l p' (set_head l p h) = set_head l p' h"
  by (cases h; cases "dlists h l"; simp add: heap_writes)+

lemma dl_frame_set_head: "dl_frame l S h (set_head l p h') \<longleftrightarrow> dl_frame l S h h'"
  by (auto simp: dl_frame_def intro!: dl_list_eqI)

lemma insert_head_eval:
  assumes "dl_rep h l (x # xs)" "dl_detached h e"
  shows "dyn_list_insert_head l e h = Some (0, set_head l (Some e) (dl_link l e (last (x # xs)) x h))"
  using assms
  by (auto simp: dl_rep_Cons dl_cycle_Cons dl_detached_def dyn_list_insert_head_def dl_link_def
      Let_def set_head_commute)

lemma insert_tail_eval:
  assumes "dl_rep h l (x # xs)" "dl_detached h e"
  shows "dyn_list_insert_tail l e h = Some (0, dl_link l e (last (x # xs)) x h)"
  using assms
  by (auto simp: dl_rep_Cons dl_cycle_Cons dl_detached_def dyn_list_insert_tail_def dl_link_def
      Let_def)

lemma link_cycle:
  assumes r: "dl_rep h l (x # xs)" and e: "dl_detached h e"
  shows "dl_cycle (dl_link l e (last (x # xs)) x h) (e # x # xs)"
proof (rule cycle_insert)
  show "dl_cycle h (x # xs)" "distinct (x # xs)" using r by (simp_all add: dl_rep_Cons)
  show "e \<notin> set (x # xs)" using dl_detached_notin [OF r e] .
  then have "e \<noteq> x" "e \<noteq> last (x # xs)" by (auto simp del: last.simps) (metis last_in_set list.distinct(1) set_ConsD)
  then show "dn_prev (nodes (dl_link l e (last (x # xs)) x h) e) = Some (last (x # xs))"
    "dn_next (nodes (dl_link l e (last (x # xs)) x h) e) = Some x"
    by (simp_all add: dl_link_def del: last.simps)
qed (simp_all add: dl_link_def del: last.simps)

lemma dl_cycle_set_head: "dl_cycle (set_head l p h) xs = dl_cycle h xs"
proof -
  have "dl_chain (set_head l p h) ys = dl_chain h ys" for ys by (rule dl_chain_frame) simp_all
  then show ?thesis by (simp add: dl_cycle_def)
qed

lemma insert_head_rep:
  assumes r: "dl_rep h l xs" and e: "dl_detached h e"
  shows "\<exists>h'. dyn_list_insert_head l e h = Some (0, h') \<and> dl_rep h' l (e # xs) \<and>
              dl_frame l (insert e (set xs)) h h'"
proof (cases xs)
  case Nil
  with assms show ?thesis
    by (auto simp: dl_rep_Nil dl_rep_Cons dl_cycle_def dl_detached_def dyn_list_insert_head_def
        dl_frame_def Let_def intro!: dl_node_eqI dl_list_eqI)
next
  case (Cons x ys)
  have "e \<notin> set (x # ys)" using dl_detached_notin r e Cons by metis
  then have "dl_rep (set_head l (Some e) (dl_link l e (last (x # ys)) x h)) l (e # x # ys)"
    using link_cycle [of h l x ys e] r e Cons
    by (auto simp: dl_rep_Cons dl_cycle_set_head dl_link_def simp del: last.simps)
  then show ?thesis using insert_head_eval [of h l x ys e] r e Cons
    by (auto simp: dl_frame_set_head intro!: dl_link_frame)
qed

lemma insert_tail_rep:
  assumes r: "dl_rep h l xs" and e: "dl_detached h e"
  shows "\<exists>h'. dyn_list_insert_tail l e h = Some (0, h') \<and> dl_rep h' l (xs @ [e]) \<and>
              dl_frame l (insert e (set xs)) h h'"
proof (cases xs)
  case Nil
  with assms show ?thesis
    by (auto simp: dl_rep_Nil dl_rep_Cons dl_cycle_def dl_detached_def dyn_list_insert_tail_def
        dl_frame_def Let_def intro!: dl_node_eqI dl_list_eqI)
next
  case (Cons x ys)
  have "e \<notin> set (x # ys)" using dl_detached_notin r e Cons by metis
  then have "dl_rep (dl_link l e (last (x # ys)) x h) l (x # ys @ [e])"
    using dl_cycle_rotate [of _ "[e]" "x # ys", simplified, OF link_cycle [of h l x ys e]] r e Cons
    by (auto simp: dl_rep_Cons dl_link_def simp del: last.simps)
  then show ?thesis using insert_tail_eval [of h l x ys e] r e Cons
    by (auto intro!: dl_link_frame)
qed

definition dl_unlinked :: "'l \<Rightarrow> 'n \<Rightarrow> 'n \<Rightarrow> 'n \<Rightarrow> ('l, 'n) dheap \<Rightarrow> ('l, 'n) dheap" where
  "dl_unlinked l e q x h = set_num l (dl_num (dlists h l) - 1)
     (set_list e None (set_prev e None (set_next e None
       (set_prev x (Some q) (set_next q (Some x) h)))))"

lemma unlinked_cycle:
  assumes "dl_cycle h (e # x # xs)" "distinct (e # x # xs)"
  shows "dl_cycle (dl_unlinked l e (last (x # xs)) x h) (x # xs)"
  by (rule cycle_unlink [OF assms]) (simp_all add: dl_unlinked_def)

lemma dl_unlinked_frame:
  "q \<in> S \<Longrightarrow> x \<in> S \<Longrightarrow> dl_frame l (insert e S) h (dl_unlinked l e q x h)"
  by (auto simp: dl_frame_def dl_unlinked_def intro!: dl_node_eqI dl_list_eqI)

lemma unlink_eval:
  assumes "dl_cycle h (e # x # xs)" "distinct (e # x # xs)"
  shows "dyn_list_unlink e h = Some (set_prev x (Some (last (x # xs))) (set_next (last (x # xs)) (Some x) h))"
  using assms by (auto simp: dl_cycle_Cons dyn_list_unlink_def Let_def)

lemma remove_element_rep:
  assumes r: "dl_rep h l (xs @ e # ys)"
  shows "\<exists>h'. dyn_list_remove_element l e h = Some (0, h') \<and> dl_rep h' l (xs @ ys) \<and>
              dl_detached h' e \<and> dl_frame l (set (xs @ e # ys)) h h'"
proof (cases "ys @ xs")
  case Nil
  with assms show ?thesis
    by (auto simp: dl_rep_Nil dl_rep_Cons dl_cycle_def dl_detached_def dyn_list_remove_element_def
        dyn_list_unlink_def dyn_list_clear_count_def
        dl_frame_def Let_def intro!: dl_node_eqI dl_list_eqI)
next
  case (Cons x zs)
  let ?h = "dl_unlinked l e (last (x # zs)) x h"
  let ?f = "if xs = [] then set_head l (Some x) else id"
  have len: "length (x # zs) = length xs + length ys" and st: "set (x # zs) = set xs \<union> set ys"
    unfolding Cons [symmetric] by auto
  have d: "distinct (e # x # zs)" using r Cons [symmetric] by (auto simp: dl_rep_def)
  have ne: "e \<notin> set xs" using d st by auto
  have li: "\<And>y. dn_list (nodes h y) = Some l \<longleftrightarrow> y \<in> set (e # x # zs)"
    and num: "dl_num (dlists h l) = int (length zs) + 2"
    and hdl: "dl_head (dlists h l) = (case xs of [] \<Rightarrow> Some e | y # _ \<Rightarrow> Some y)"
    using r len st by (auto simp: dl_rep_def split: list.splits)
  have c: "dl_cycle h (e # x # zs)"
    using dl_cycle_rotate [of h xs "e # ys"] r Cons by (simp add: dl_rep_def)
  have "dyn_list_remove_element l e h = Some (0, ?f ?h)" 
    using unlink_eval [OF c d] c d ne li num hdl
    by (auto simp: dl_cycle_Cons dl_unlinked_def dyn_list_remove_element_def dyn_list_clear_count_def
        Let_def set_head_commute split: list.splits)
  moreover have "dl_cycle (?f ?h) (xs @ ys)"
    using dl_cycle_rotate [of ?h ys xs] unlinked_cycle [OF c d] Cons
    by (cases "xs = []") (simp_all add: dl_cycle_set_head del: last.simps)
  moreover have "dl_detached (?f ?h) e"
    using d by (auto simp: dl_detached_def dl_unlinked_def)
  moreover have "dl_frame l (set (xs @ e # ys)) h (?f ?h)"
    using dl_unlinked_frame [of "last (x # zs)" "set (x # zs)" x l e h, unfolded st]
      st last_in_set [of "x # zs"]
    by (cases "xs = []") (auto simp: dl_frame_set_head simp del: last.simps)
  moreover have "dl_num (dlists (?f ?h) l) = int (length xs) + int (length ys)"
    using num len by (auto simp: dl_unlinked_def)
  moreover have "dl_head (dlists (?f ?h) l) = (case xs @ ys of [] \<Rightarrow> None | y # _ \<Rightarrow> Some y)"
    using hdl Cons by (cases xs) (simp_all add: dl_unlinked_def)
  moreover have "\<forall>y. dn_list (nodes (?f ?h) y) = Some l \<longleftrightarrow> y \<in> set (xs @ ys)"
    using li st d by (auto simp: dl_unlinked_def)
  moreover have "distinct (xs @ ys)" using r by (simp add: dl_rep_def)
  ultimately show ?thesis
    by (intro exI [of _ "?f ?h"] conjI) (simp_all only: dl_rep_def length_append of_nat_add simp_thms)
qed

lemma remove_head_eq:
  assumes r: "dl_rep h l (x # xs)"
  shows "dyn_list_remove_head l h = map_option (\<lambda>(_, h'). (Some x, h')) (dyn_list_remove_element l x h)"
  using assms
  by (cases xs) (auto simp: dl_rep_Cons dl_cycle_Cons dyn_list_remove_head_def dyn_list_remove_element_def
     dyn_list_unlink_def dyn_list_clear_count_def Let_def set_head_commute ASSERT_def)
lemma remove_tail_eq:
  assumes r: "dl_rep h l (xs @ [x])"
  shows "dyn_list_remove_tail l h = map_option (\<lambda>(_, h'). (Some x, h')) (dyn_list_remove_element l x h)"
  using assms
  by (cases xs) (auto simp: dl_rep_Cons dl_cycle_Cons dyn_list_remove_tail_def dyn_list_remove_element_def
     dyn_list_unlink_def dyn_list_clear_count_def Let_def set_head_commute ASSERT_def)

lemma remove_head_rep:
  assumes "dl_rep h l (x # xs)"
  shows "\<exists>h'. dyn_list_remove_head l h = Some (Some x, h') \<and> dl_rep h' l xs \<and>
              dl_detached h' x \<and> dl_frame l (set (x # xs)) h h'"
  using remove_element_rep [of h l "[]" x xs] assms by (auto simp: remove_head_eq)

lemma remove_tail_rep:
  assumes "dl_rep h l (xs @ [x])"
  shows "\<exists>h'. dyn_list_remove_tail l h = Some (Some x, h') \<and> dl_rep h' l xs \<and>
              dl_detached h' x \<and> dl_frame l (set (xs @ [x])) h h'"
  using remove_element_rep [of h l xs x "[]"] assms by (auto simp: remove_tail_eq)

lemma remove_empty:
  assumes "dl_rep h l []"
  shows "dyn_list_remove_head l h = Some (None, h)" "dyn_list_remove_tail l h = Some (None, h)"
  using assms by (simp_all add: dl_rep_Nil dyn_list_remove_head_def dyn_list_remove_tail_def)

lemma walk_chain:
  "dl_chain h xs \<Longrightarrow> dyn_list_walk (length xs) (case xs of [] \<Rightarrow> n | x # _ \<Rightarrow> Some x) h = Some xs"
  by (induction h xs rule: dl_chain.induct) (auto simp: bind_eq_Some_iff)

lemma for_each_rep: "dl_rep h l xs \<Longrightarrow> dyn_list_for_each l h = Some xs"
  by (cases xs) (use walk_chain [of h xs None] in \<open>auto simp: dyn_list_for_each_def dl_rep_def dl_cycle_Cons nat_add_distrib\<close>)

lemma insert_present:
  assumes "dl_rep h l xs" "e \<in> set xs"
  shows "dyn_list_insert_head l e h = Some (0, h)" "dyn_list_insert_tail l e h = Some (0, h)"
proof -
  have "dn_list (nodes h e) = Some l" using assms by (simp add: dl_rep_def)
  then show "dyn_list_insert_head l e h = Some (0, h)" "dyn_list_insert_tail l e h = Some (0, h)"
    by (simp_all add: dyn_list_insert_head_def dyn_list_insert_tail_def)
qed

lemma dl_chain_cong: "(\<And>x. x \<in> set xs \<Longrightarrow> nodes h' x = nodes h x) \<Longrightarrow> dl_chain h' xs = dl_chain h xs"
  by (rule dl_chain_frame) (cases xs; auto dest: in_set_butlastD split: if_splits)+

lemma dl_rep_frame:
  assumes f: "dl_frame l S h h'" and r: "dl_rep h k ys" and "k \<noteq> l" "S \<inter> set ys = {}"
    and "\<And>x. x \<in> S \<Longrightarrow> dn_list (nodes h' x) \<noteq> Some k"
  shows "dl_rep h' k ys"
proof -
  have n: "nodes h' x = nodes h x" if "x \<in> set ys" for x using f that assms(4) by (auto simp: dl_frame_def)
  have "dl_cycle h' ys = dl_cycle h ys"
    unfolding dl_cycle_def by (rule dl_chain_cong) (auto intro: n dest: in_set_takeD)
  then show ?thesis using assms n by (auto simp: dl_rep_def dl_frame_def)  metis+
qed

lemma init_rep:
  assumes "\<And>x. dn_list (nodes h x) \<noteq> Some l"
  shows "dl_rep (dyn_list_init l h) l []"
  using assms by (simp add: dl_rep_Nil dyn_list_init_def)

text \<open>Moving the last element of one list to the front of another.\<close>

lemma move_rep:
  assumes a: "dl_rep h a (xs @ [x])" and b: "dl_rep h b ys" and "a \<noteq> b"
  shows "\<exists>h1 h2. dyn_list_remove_tail a h = Some (Some x, h1) \<and> dyn_list_insert_head b x h1 = Some (0, h2) \<and>
    dl_rep h2 a xs \<and> dl_rep h2 b (x # ys)"
proof -
  obtain h1 where h1: "dyn_list_remove_tail a h = Some (Some x, h1)" "dl_rep h1 a xs" "dl_detached h1 x"
    "dl_frame a (set (xs @ [x])) h h1" using remove_tail_rep [OF a] by blast
  have own: "dn_list (nodes h1 y) \<noteq> Some b" if "y \<in> set (xs @ [x])" for y
  proof -
    have "y = x \<or> dn_list (nodes h1 y) = Some a" using that h1(2) by (auto simp: dl_rep_def)
    then show ?thesis using h1(3) \<open>a \<noteq> b\<close> by (auto simp: dl_detached_def)
  qed
  have b1: "dl_rep h1 b ys"
    by (rule dl_rep_frame [OF h1(4) b _ _ own]) (use dl_rep_disjoint [OF a b] \<open>a \<noteq> b\<close> in auto)
  obtain h2 where h2: "dyn_list_insert_head b x h1 = Some (0, h2)" "dl_rep h2 b (x # ys)"
    "dl_frame b (insert x (set ys)) h1 h2" using insert_head_rep [OF b1 h1(3)] by blast
  have "dl_rep h2 a xs"
  proof (rule dl_rep_frame [OF h2(3) h1(2)])
    show "insert x (set ys) \<inter> set xs = {}"
      using dl_rep_disjoint [OF b1 h1(2)] dl_detached_notin [OF h1(2,3)] \<open>a \<noteq> b\<close> by auto
    show "dn_list (nodes h2 y) \<noteq> Some a" if "y \<in> insert x (set ys)" for y
    proof -
      have "dn_list (nodes h2 y) = Some b" using that h2(2) by (simp add: dl_rep_def)
      then show ?thesis using \<open>a \<noteq> b\<close> by simp
    qed
  qed (use \<open>a \<noteq> b\<close> in simp)
  with h1 h2 show ?thesis by blast
qed

section \<open>Contracts\<close>

text \<open>
  A FIFO over elements that must be free to be queued: the client sees the sequence \<open>rep\<close> and
  the free elements, and may rely on the laws alone.
\<close>

datatype 'a fifo_op = Enq 'a | Deq

fun fifo_run ::
    "('s \<Rightarrow> 'a \<Rightarrow> 's option) \<Rightarrow> ('s \<Rightarrow> ('a option \<times> 's) option) \<Rightarrow> 'a fifo_op list \<Rightarrow> 's \<Rightarrow>
       ('a option list \<times> 's) option" where
  "fifo_run enq deq [] s = Some ([], s)"
| "fifo_run enq deq (Enq a # ops) s = do { s \<leftarrow> enq s a; fifo_run enq deq ops s }"
| "fifo_run enq deq (Deq # ops) s =
     do { (r, s) \<leftarrow> deq s; (rs, s) \<leftarrow> fifo_run enq deq ops s; Some (r # rs, s) }"

fun fifo_spec :: "'a fifo_op list \<Rightarrow> 'a list \<Rightarrow> 'a option list \<times> 'a list" where
  "fifo_spec [] xs = ([], xs)"
| "fifo_spec (Enq a # ops) xs = fifo_spec ops (xs @ [a])"
| "fifo_spec (Deq # ops) [] = (let (rs, ys) = fifo_spec ops [] in (None # rs, ys))"
| "fifo_spec (Deq # ops) (x # xs) = (let (rs, ys) = fifo_spec ops xs in (Some x # rs, ys))"

text \<open>The client's obligation: queue only free elements.\<close>

fun fifo_ok :: "'a fifo_op list \<Rightarrow> 'a list \<Rightarrow> 'a set \<Rightarrow> bool" where
  "fifo_ok [] xs F \<longleftrightarrow> True"
| "fifo_ok (Enq a # ops) xs F \<longleftrightarrow> a \<in> F \<and> fifo_ok ops (xs @ [a]) (F - {a})"
| "fifo_ok (Deq # ops) [] F \<longleftrightarrow> fifo_ok ops [] F"
| "fifo_ok (Deq # ops) (x # xs) F \<longleftrightarrow> fifo_ok ops xs (insert x F)"

locale fifo =
  fixes rep :: "'s \<Rightarrow> 'a list \<Rightarrow> bool"
    and free :: "'s \<Rightarrow> 'a \<Rightarrow> bool"
    and enq :: "'s \<Rightarrow> 'a \<Rightarrow> 's option"
    and deq :: "'s \<Rightarrow> ('a option \<times> 's) option"
  assumes enq_law: "rep s xs \<Longrightarrow> free s a \<Longrightarrow>
      \<exists>s'. enq s a = Some s' \<and> rep s' (xs @ [a]) \<and> (\<forall>b. b \<noteq> a \<longrightarrow> free s b \<longrightarrow> free s' b)"
    and deq_law: "rep s (x # xs) \<Longrightarrow>
      \<exists>s'. deq s = Some (Some x, s') \<and> rep s' xs \<and> free s' x \<and> (\<forall>b. free s b \<longrightarrow> free s' b)"
    and deq_empty_law: "rep s [] \<Longrightarrow> deq s = Some (None, s)"
begin

text \<open>Every legal sequence of operations runs and returns what the queue of lists returns.\<close>

lemma run_refines:
  "rep s xs \<Longrightarrow> \<forall>a \<in> F. free s a \<Longrightarrow> fifo_ok ops xs F \<Longrightarrow>
     \<exists>s'. fifo_run enq deq ops s = Some (fst (fifo_spec ops xs), s') \<and> rep s' (snd (fifo_spec ops xs))"
proof (induction ops xs F arbitrary: s rule: fifo_ok.induct)
  case (2 a ops xs F)
  with enq_law [of s xs a] obtain s1 where
    "enq s a = Some s1" "rep s1 (xs @ [a])" "\<forall>b \<in> F - {a}. free s1 b" by auto
  with 2 show ?case by auto
next
  case (3 ops F)
  with deq_empty_law [of s] show ?case by (fastforce split: prod.splits)
next
  case (4 ops x xs F)
  with deq_law [of s x xs] obtain s1 where
    "deq s = Some (Some x, s1)" "rep s1 xs" "\<forall>b \<in> insert x F. free s1 b" by auto
  with 4 show ?case by (fastforce split: prod.splits)
qed auto

end

text \<open>A deque also inserts at the front and removes at the back.\<close>

locale deque = fifo +
  fixes push :: "'s \<Rightarrow> 'a \<Rightarrow> 's option"
    and eject :: "'s \<Rightarrow> ('a option \<times> 's) option"
  assumes push_law: "rep s xs \<Longrightarrow> free s a \<Longrightarrow> \<exists>s'. push s a = Some s' \<and> rep s' (a # xs)"
    and eject_law: "rep s (xs @ [x]) \<Longrightarrow> \<exists>s'. eject s = Some (Some x, s') \<and> rep s' xs \<and> free s' x"
begin

lemma push_deq: "rep s xs \<Longrightarrow> free s a \<Longrightarrow>
    \<exists>s1 s2. push s a = Some s1 \<and> deq s1 = Some (Some a, s2) \<and> rep s2 xs"
  using push_law deq_law by meson

lemma enq_eject: "rep s xs \<Longrightarrow> free s a \<Longrightarrow>
    \<exists>s1 s2. enq s a = Some s1 \<and> eject s1 = Some (Some a, s2) \<and> rep s2 xs"
  using enq_law eject_law by meson

end

definition dl_enq :: "'l \<Rightarrow> ('l, 'n) dheap \<Rightarrow> 'n \<Rightarrow> ('l, 'n) dheap option" where
  "dl_enq l h e = map_option snd (dyn_list_insert_tail l e h)"

definition dl_push :: "'l \<Rightarrow> ('l, 'n) dheap \<Rightarrow> 'n \<Rightarrow> ('l, 'n) dheap option" where
  "dl_push l h e = map_option snd (dyn_list_insert_head l e h)"

lemma dl_detached_frame: "dl_frame l S h h' \<Longrightarrow> dl_detached h b \<Longrightarrow> b \<notin> S \<Longrightarrow> dl_detached h' b"
  by (simp add: dl_detached_def dl_frame_def)

interpretation dl_fifo: fifo "\<lambda>h. dl_rep h l" dl_detached "dl_enq l" "dyn_list_remove_head l" for l :: 'l
proof
  fix s :: "('l, 'n) dheap" and xs a
  assume "dl_rep s l xs" "dl_detached s a"
  with insert_tail_rep [of s l xs a] dl_detached_notin
  show "\<exists>s'. dl_enq l s a = Some s' \<and> dl_rep s' l (xs @ [a]) \<and>
      (\<forall>b. b \<noteq> a \<longrightarrow> dl_detached s b \<longrightarrow> dl_detached s' b)"
    by (fastforce simp: dl_enq_def dest: dl_detached_frame)
next
  fix s :: "('l, 'n) dheap" and x xs
  assume "dl_rep s l (x # xs)"
  with remove_head_rep [of s l x xs] dl_detached_notin
  show "\<exists>s'. dyn_list_remove_head l s = Some (Some x, s') \<and> dl_rep s' l xs \<and> dl_detached s' x \<and>
      (\<forall>b. dl_detached s b \<longrightarrow> dl_detached s' b)"
    by (metis dl_detached_frame)
qed (rule remove_empty)

interpretation dl_deque: deque "\<lambda>h. dl_rep h l" dl_detached "dl_enq l" "dyn_list_remove_head l"
    "dl_push l" "dyn_list_remove_tail l" for l :: 'l
proof
  fix s :: "('l, 'n) dheap" and xs a
  assume "dl_rep s l xs" "dl_detached s a"
  with insert_head_rep [of s l xs a]
  show "\<exists>s'. dl_push l s a = Some s' \<and> dl_rep s' l (a # xs)" by (auto simp: dl_push_def)
next
  fix s :: "('l, 'n) dheap" and x xs
  assume "dl_rep s l (xs @ [x])"
  with remove_tail_rep [of s l xs x]
  show "\<exists>s'. dyn_list_remove_tail l s = Some (Some x, s') \<and> dl_rep s' l xs \<and> dl_detached s' x" by auto
qed

section \<open>The lists, as the kernel uses them\<close>

text \<open>C17. A kernel list is a FIFO: starting from a heap that represents the sequence \<open>xs\<close>, every
  sequence of tail insertions of detached nodes and head removals runs to the end without a
  failed assertion or a NULL dereference, returns exactly what the queue of sequences returns, and
  leaves a heap that represents the final sequence.\<close>

theorem dyn_list_is_fifo:
  assumes "dl_rep h l xs" and "\<forall>a \<in> F. dl_detached h a" and "fifo_ok ops xs F"
  shows "\<exists>h'. fifo_run (dl_enq l) (dyn_list_remove_head l) ops h = Some (fst (fifo_spec ops xs), h') \<and>
              dl_rep h' l (snd (fifo_spec ops xs))"
  by (rule dl_fifo.run_refines [OF assms])

definition empty_heap :: "(nat, nat) dheap" where
  "empty_heap = \<lparr>nodes = \<lambda>_. \<lparr>dn_list = None, dn_prev = None, dn_next = None\<rparr>,
     dlists = \<lambda>_. \<lparr>dl_head = None, dl_num = 0\<rparr>\<rparr>"

theorem dyn_list_is_fifo_witness:
  "\<exists>h'. fifo_run (dl_enq 0) (dyn_list_remove_head 0) [Enq 7, Enq 5, Deq, Deq, Deq] empty_heap =
     Some ([Some 7, Some 5, None], h') \<and> dl_rep h' 0 []"
  using dyn_list_is_fifo [of empty_heap 0 "[]" "{5, 7}" "[Enq 7, Enq 5, Deq, Deq, Deq]"]
  by (simp add: empty_heap_def dl_rep_Nil dl_detached_def)

text \<open>C18. Removing an element from anywhere in a list takes exactly that element out of the
  sequence, leaves the node detached, and touches no other list and no node outside the list.\<close>

theorem dyn_list_remove_element_correct:
  assumes "dl_rep h l (xs @ e # ys)"
  shows "\<exists>h'. dyn_list_remove_element l e h = Some (0, h') \<and> dl_rep h' l (xs @ ys) \<and> dl_detached h' e \<and>
    (\<forall>k zs. k \<noteq> l \<longrightarrow> dl_rep h k zs \<longrightarrow> dl_rep h' k zs) \<and>
    (\<forall>x. x \<notin> set (xs @ e # ys) \<longrightarrow> nodes h' x = nodes h x)"
proof -
  obtain h' where h': "dyn_list_remove_element l e h = Some (0, h')" "dl_rep h' l (xs @ ys)"
    "dl_detached h' e" "dl_frame l (set (xs @ e # ys)) h h'"
    using remove_element_rep [OF assms] by blast
  have "dl_rep h' k zs" if "k \<noteq> l" "dl_rep h k zs" for k zs
  proof (rule dl_rep_frame [OF h'(4) that(2) that(1)])
    show "set (xs @ e # ys) \<inter> set zs = {}" using dl_rep_disjoint [OF assms that(2)] that(1) by simp
    fix x assume "x \<in> set (xs @ e # ys)"
    then have "x = e \<or> dn_list (nodes h' x) = Some l" using h'(2) by (auto simp: dl_rep_def)
    then show "dn_list (nodes h' x) \<noteq> Some k"
      using h'(3) that(1) by (auto simp: dl_detached_def)
  qed
  then show ?thesis using h' by (auto simp: dl_frame_def)
qed

definition three_heap :: "(nat, nat) dheap" where
  "three_heap = \<lparr>nodes = \<lambda>n. \<lparr>dn_list = (if n < 3 then Some 0 else None),
      dn_prev = (if n < 3 then Some ((n + 2) mod 3) else None), dn_next = (if n < 3 then Some ((n + 1) mod 3) else None)\<rparr>,
     dlists = \<lambda>_. \<lparr>dl_head = Some 0, dl_num = 3\<rparr>\<rparr>"

theorem dyn_list_remove_element_correct_witness:
  "\<exists>h'. dyn_list_remove_element 0 1 three_heap = Some (0, h') \<and> dl_rep h' 0 [0, 2] \<and> dl_detached h' 1"
proof -
  have "dl_rep three_heap 0 ([0] @ 1 # [2])"
    by (auto simp: three_heap_def dl_rep_def dl_cycle_def)
  from dyn_list_remove_element_correct [OF this] show ?thesis by auto
qed

end
