(* ===== verification/KState.thy ===== *)
theory KState
  imports DynList
begin

text \<open>
  The state the kernel components share: the static configuration (\<open>core/include/prtosconf.h\<close>),
  kernel and guest threads (\<open>core/include/kthread.h\<close>, \<open>core/include/guest.h\<close>), timers
  (\<open>core/include/ktimer.h\<close>), the per-processor data (\<open>core/include/local.h\<close>) and the counters of
  \<open>core/include/objects/status.h\<close>.  A C pointer to a kernel thread, a timer, a timer list or a
  scheduling plan is a value of \<open>kref\<close>, \<open>tref\<close>, \<open>tlist\<close> or \<open>planref\<close>: equal references are equal
  pointers.  The clock is a trace of readings, consumed one by one, so that two readings in one
  routine may differ.  Audit events, inter-processor interrupts and timer programming are recorded.
\<close>

section \<open>Flags and constants\<close>

definition KTHREAD_MAGIC :: u32 where "KTHREAD_MAGIC = 0xa5a55a5a"
definition KTHREAD_FP_F :: u32 where "KTHREAD_FP_F = 0x2"
definition KTHREAD_HALTED_F :: u32 where "KTHREAD_HALTED_F = 0x4"
definition KTHREAD_SUSPENDED_F :: u32 where "KTHREAD_SUSPENDED_F = 0x8"
definition KTHREAD_READY_F :: u32 where "KTHREAD_READY_F = 0x10"
definition KTHREAD_DCACHE_ENABLED_F :: u32 where "KTHREAD_DCACHE_ENABLED_F = 0x80"
definition KTHREAD_ICACHE_ENABLED_F :: u32 where "KTHREAD_ICACHE_ENABLED_F = 0x100"
definition KTHREAD_NO_PARTITIONS_FIELD :: u32 where "KTHREAD_NO_PARTITIONS_FIELD = 0xff0000"
definition KTHREAD_TRAP_PENDING_F :: u32 where "KTHREAD_TRAP_PENDING_F = 0x80000000"

lemmas kthread_flag_defs =
  KTHREAD_FP_F_def KTHREAD_HALTED_F_def KTHREAD_SUSPENDED_F_def KTHREAD_READY_F_def
  KTHREAD_DCACHE_ENABLED_F_def KTHREAD_ICACHE_ENABLED_F_def KTHREAD_NO_PARTITIONS_FIELD_def
  KTHREAD_TRAP_PENDING_F_def

definition KTIMER_ARMED :: u32 where "KTIMER_ARMED = 1"
definition VTIMER_ARMED :: u32 where "VTIMER_ARMED = 1"
definition VCLOCK_ENABLED :: u32 where "VCLOCK_ENABLED = 1"
definition NEXT_ACT_IS_VALID :: u32 where "NEXT_ACT_IS_VALID = 1"
definition LOCAL_SCHED_ENABLED :: u32 where "LOCAL_SCHED_ENABLED = 1"
definition SCHED_PENDING :: u32 where "SCHED_PENDING = 0x80000000"
definition IRQ_IN_PROGRESS :: u32 where "IRQ_IN_PROGRESS = NOT SCHED_PENDING"
definition MAX_PRTOSTIME :: int where "MAX_PRTOSTIME = 2 ^ 63 - 1"

definition PRTOS_OPMODE_IDLE :: u32 where "PRTOS_OPMODE_IDLE = 0"
definition PRTOS_OPMODE_COLD_RESET :: u32 where "PRTOS_OPMODE_COLD_RESET = 1"
definition PRTOS_OPMODE_WARM_RESET :: u32 where "PRTOS_OPMODE_WARM_RESET = 2"
definition PRTOS_OPMODE_NORMAL :: u32 where "PRTOS_OPMODE_NORMAL = 3"

definition PRTOS_PART_SYSTEM :: u32 where "PRTOS_PART_SYSTEM = 0x100"
definition PRTOS_PART_FP :: u32 where "PRTOS_PART_FP = 0x200"

definition CONFIG_NO_HWIRQS :: int where "CONFIG_NO_HWIRQS = 32"
definition HWIRQS_VECTOR_SIZE :: nat where "HWIRQS_VECTOR_SIZE = 1"
definition CONFIG_PRTOS_MAX_IPVI :: int where "CONFIG_PRTOS_MAX_IPVI = 8"

definition PRTOS_VT_EXT_FIRST :: int where "PRTOS_VT_EXT_FIRST = 0"
definition PRTOS_VT_EXT_LAST :: int where "PRTOS_VT_EXT_LAST = 31"
definition PRTOS_VT_HW_FIRST :: int where "PRTOS_VT_HW_FIRST = 0"
definition PRTOS_VT_HW_LAST :: int where "PRTOS_VT_HW_LAST = 31"
definition PRTOS_VT_EXT_HW_TIMER :: int where "PRTOS_VT_EXT_HW_TIMER = 0"
definition PRTOS_VT_EXT_EXEC_TIMER :: int where "PRTOS_VT_EXT_EXEC_TIMER = 1"
definition PRTOS_VT_EXT_SHUTDOWN :: int where "PRTOS_VT_EXT_SHUTDOWN = 3"
definition PRTOS_VT_EXT_SAMPLING_PORT :: int where "PRTOS_VT_EXT_SAMPLING_PORT = 4"
definition PRTOS_VT_EXT_QUEUING_PORT :: int where "PRTOS_VT_EXT_QUEUING_PORT = 5"
definition PRTOS_VT_EXT_CYCLIC_SLOT_START :: int where "PRTOS_VT_EXT_CYCLIC_SLOT_START = 8"
definition PRTOS_VT_EXT_MEM_PROTECT :: int where "PRTOS_VT_EXT_MEM_PROTECT = 16"
definition PRTOS_VT_EXT_IPVI0 :: int where "PRTOS_VT_EXT_IPVI0 = 24"

lemmas vt_defs =
  PRTOS_VT_EXT_FIRST_def PRTOS_VT_EXT_LAST_def PRTOS_VT_HW_FIRST_def PRTOS_VT_HW_LAST_def
  PRTOS_VT_EXT_HW_TIMER_def PRTOS_VT_EXT_EXEC_TIMER_def PRTOS_VT_EXT_SHUTDOWN_def
  PRTOS_VT_EXT_SAMPLING_PORT_def PRTOS_VT_EXT_QUEUING_PORT_def
  PRTOS_VT_EXT_CYCLIC_SLOT_START_def PRTOS_VT_EXT_MEM_PROTECT_def PRTOS_VT_EXT_IPVI0_def

section \<open>Configuration\<close>

record prtos_conf_sched_cyclic_slot =
  slot_id :: u32
  slot_partition_id :: u32
  slot_vcpu_id :: u32
  start_exec :: u32
  end_exec :: u32

record prtos_conf_sched_cyclic_plan =
  plan_name_offset :: u32
  plan_id :: u32
  major_frame :: u32
  num_of_slots :: int
  slots_offset :: u32

record prtos_conf_hm_slot =
  hm_action :: u32
  hm_log :: bool

record prtos_conf_part_ipvi =
  dst_offset :: u32
  num_of_dsts :: int

record prtos_conf_memory_area =
  area_start_addr :: u32
  area_mapped_at :: u32
  area_size :: u32
  area_flags :: u32
  memory_region_offset :: u32

record prtos_conf_memory_region =
  region_start_addr :: u32
  region_size :: u32
  region_flags :: u32

record prtos_conf_comm_port =
  port_name_offset :: u32
  port_channel_id :: int
  port_direction :: int
  port_type :: int

text \<open>\<open>struct prtos_conf_comm_channel\<close>: the type and the union it selects.\<close>

datatype prtos_conf_comm_channel =
    ConfSampling (s_max_length: int) (s_valid_period: u32) (s_num_of_receivers: int)
  | ConfQueuing (q_max_length: int) (q_max_num_of_msgs: int)

record prtos_dev =
  dev_id :: u16
  dev_sub_id :: u16

record prtos_conf_trace =
  trace_dev :: prtos_dev
  trace_bitmap :: u32

record pef_custom_file =
  cf_start_addr :: u32
  cf_size :: u32

record prtos_conf_boot_part =
  boot_flags :: u32
  hdr_phys_addr :: u32
  entry_point :: u32
  boot_image_start :: u32
  img_size :: u32
  num_of_custom_files :: u32
  custom_file_table :: "nat \<Rightarrow> pef_custom_file"

record prtos_conf_part =
  part_id :: u32
  part_name_offset :: u32
  part_flags :: u32
  num_of_vcpus :: u32
  part_hw_irqs :: u32
  num_of_physical_memory_areas :: int
  physical_memory_areas_offset :: u32
  part_console_device :: prtos_dev
  comm_ports_offset :: u32
  num_of_ports :: int
  part_hm_table :: "nat \<Rightarrow> prtos_conf_hm_slot"
  part_trace :: prtos_conf_trace
  ipvi_table :: "nat \<Rightarrow> prtos_conf_part_ipvi"

record prtos_conf_cpu =
  sched_cyclic_plans_offset :: u32
  num_of_sched_cyclic_plans :: int

record prtos_conf =
  num_of_cpus :: int
  cpu_table :: "nat \<Rightarrow> prtos_conf_cpu"
  hpv_hm_table :: "nat \<Rightarrow> prtos_conf_hm_slot"
  hm_device :: prtos_dev
  hpv_console_device :: prtos_dev
  hw_irq_owner :: "nat \<Rightarrow> int"
  hpv_trace :: prtos_conf_trace
  hpv_physical_memory_areas_offset :: u32
  num_of_partitions :: int
  partition_cfg :: "nat \<Rightarrow> prtos_conf_part"
  num_of_regions :: int
  memory_region_table :: "nat \<Rightarrow> prtos_conf_memory_region"
  phys_mem_area_table :: "nat \<Rightarrow> prtos_conf_memory_area"
  num_of_comm_channels :: int
  comm_channel_table :: "nat \<Rightarrow> prtos_conf_comm_channel"
  num_of_comm_ports :: int
  comm_ports :: "nat \<Rightarrow> prtos_conf_comm_port"
  num_of_conf_plans :: int
  sched_cyclic_plan_table :: "nat \<Rightarrow> prtos_conf_sched_cyclic_plan"
  sched_cyclic_slot_table :: "nat \<Rightarrow> prtos_conf_sched_cyclic_slot"
  vcpu_cpu_table :: "nat \<Rightarrow> u32"
  dst_ipvi :: "nat \<Rightarrow> u8"
  string_tab :: "nat \<Rightarrow> u8"
  num_of_mem_blocks :: int
  mem_block_table :: "nat \<Rightarrow> u32"
  boot_partition_table :: "nat \<Rightarrow> prtos_conf_boot_part"

section \<open>References\<close>

text \<open>
  \<open>KGuest p v\<close> is the thread of virtual processor \<open>v\<close> of partition \<open>p\<close>, \<open>KIdle c\<close> the idle thread
  of processor \<open>c\<close>.  \<open>PlanTab i\<close> points into the plan table, \<open>IdlePlan\<close> to
  \<open>idle_cyclic_plan_table\<close> of \<open>core/kernel/sched.c\<close>.
\<close>

datatype kref = KGuest nat nat | KIdle nat
datatype planref = PlanTab nat | IdlePlan
datatype tref = TSched nat | TTimer kref | TVtimer kref
datatype tlist = GlobalTimers nat | LocalTimers kref

text \<open>A timer's \<open>action\<close> and \<open>action_args\<close>: the handlers the kernel installs with their argument.\<close>

datatype taction = SetSchedPending | KthreadTimerHandle kref | VtimerHandle kref

section \<open>Threads, timers, processors\<close>

record ktimer =
  kt_value :: int
  kt_interval :: int
  kt_flags :: u32
  kt_action :: "taction option"

record vtimer =
  vt_value :: int
  vt_interval :: int
  vt_flags :: u32

record vclock =
  vc_acc :: int
  vc_delta :: int
  vc_flags :: u32

record cyclic_sched_info =
  csi_num_of_slots :: u32
  csi_id :: u32
  csi_slot_duration :: u32

text \<open>\<open>struct pct_arch\<close> of \<open>core/include/x86/guest.h\<close>, and of the task state segment of a guest
  the two stacks the emulation of interrupts uses.\<close>

record pct_arch =
  idtr_linear_base :: u32
  max_idt_vec :: u32
  arch_cr3 :: u32
  arch_cr2 :: u32
  arch_cr0 :: u32

record x86_tss =
  tss_sp1 :: u32
  tss_ss1 :: u16
  tss_sp2 :: u32
  tss_ss2 :: u16

text \<open>
  The words that follow the table in memory, the map of the physical memory areas and the bitmap
  of the communication ports, are \<open>pct_tail\<close>.
\<close>

record partition_control_table =
  pct_magic :: u32
  prtos_version :: u32
  prtos_abi_version :: u32
  prtos_api_version :: u32
  pct_size :: u32
  reset_counter :: u32
  reset_status :: u32
  cpu_khz :: u32
  pct_id :: u32
  pct_num_of_vcpus :: u32
  pct_flags :: u32
  pct_image_start :: u32
  pct_hw_irqs :: u32
  num_of_physical_mem_areas :: int
  pct_num_of_comm_ports :: int
  pct_name :: "nat \<Rightarrow> u8"
  iflags :: u32
  hw_irqs_pend :: u32
  hw_irqs_mask :: u32
  ext_irqs_pend :: u32
  ext_irqs_to_mask :: u32
  pct_arch :: pct_arch
  sched_info :: cyclic_sched_info
  trap_to_vector :: "nat \<Rightarrow> u16"
  hw_irq_to_vector :: "nat \<Rightarrow> u16"
  ext_irq_to_vector :: "nat \<Rightarrow> u16"
  pct_tail :: "nat \<Rightarrow> u32"

record guest =
  g_id :: u32
  g_op_mode :: u32
  g_vclock :: vclock
  g_vtimer :: vtimer
  g_sw_trap :: u32
  g_tss :: x86_tss
  g_ptd_level_1 :: u32
  g_pct_addr :: u32
  g_pct :: partition_control_table

record kthread =
  k_magic1 :: u32
  k_magic2 :: u32
  k_flags :: u32
  k_g :: "guest option"
  k_irq_mask :: "nat \<Rightarrow> u32"
  k_irq_pend_mask :: "nat \<Rightarrow> u32"

record partition =
  p_kthread :: "nat \<Rightarrow> kref option"
  pct_array :: u32
  pct_array_size :: u32
  p_op_mode :: u32
  p_image_start :: u32
  pbl_stack :: u32

record sched_data =
  plan_current :: "planref option"
  plan_new :: "planref option"
  plan_prev :: "planref option"
  sd_slot :: int
  sd_major_frame :: int
  sd_start_exec :: int
  sd_plan_switch_time :: int
  sd_next_act :: int
  sd_kthread :: "kref option"

record local_processor =
  irq_nesting_counter :: u32
  global_irq_mask :: "nat \<Rightarrow> u32"
  idle_kthread :: kref
  current_kthread :: kref
  lp_sched_data :: sched_data
  sched_flags :: u32
  time_flags :: u32
  time_next_act :: int

record sys_status =
  num_of_irqs :: u64
  num_of_hm_events :: u64
  current_maf :: u64
  sampling_msgs_read :: u64
  sampling_msgs_written :: u64
  queuing_msgs_sent :: u64
  queuing_msgs_received :: u64

record part_status =
  num_of_virqs :: u64
  part_sampling_msgs_read :: u64
  part_sampling_msgs_written :: u64
  part_queuing_msgs_sent :: u64
  part_queuing_msgs_received :: u64

record kstate =
  cpus :: "nat \<Rightarrow> local_processor"
  kthreads :: "kref \<Rightarrow> kthread"
  partition_table :: "nat \<Rightarrow> partition"
  timers :: "tref \<Rightarrow> ktimer"
  theap :: "(tlist, tref) dheap"
  clk :: "nat \<Rightarrow> int"
  clk_pos :: nat
  hw_irqs_masks :: "nat \<Rightarrow> u32"
  audit :: "(u32 \<times> u32 \<times> u32 list) list"
  ipis :: "(nat \<times> u32) list"
  hw_timer_prog :: "(nat \<times> int) list"
  system_status :: sys_status
  partition_status :: "nat \<Rightarrow> part_status"

section \<open>Elementary access\<close>

definition upd_cpu :: "nat \<Rightarrow> (local_processor \<Rightarrow> local_processor) \<Rightarrow> kstate \<Rightarrow> kstate" where
  "upd_cpu c f s = s\<lparr>cpus := (cpus s)(c := f (cpus s c))\<rparr>"

definition upd_sched :: "nat \<Rightarrow> (sched_data \<Rightarrow> sched_data) \<Rightarrow> kstate \<Rightarrow> kstate" where
  "upd_sched c f = upd_cpu c (\<lambda>i. i\<lparr>lp_sched_data := f (lp_sched_data i)\<rparr>)"

definition upd_k :: "kref \<Rightarrow> (kthread \<Rightarrow> kthread) \<Rightarrow> kstate \<Rightarrow> kstate" where
  "upd_k k f s = s\<lparr>kthreads := (kthreads s)(k := f (kthreads s k))\<rparr>"

definition upd_g :: "kref \<Rightarrow> (guest \<Rightarrow> guest) \<Rightarrow> kstate \<Rightarrow> kstate" where
  "upd_g k f = upd_k k (\<lambda>t. t\<lparr>k_g := map_option f (k_g t)\<rparr>)"

definition upd_pct ::
    "kref \<Rightarrow> (partition_control_table \<Rightarrow> partition_control_table) \<Rightarrow> kstate \<Rightarrow> kstate" where
  "upd_pct k f = upd_g k (\<lambda>g. g\<lparr>g_pct := f (g_pct g)\<rparr>)"

definition upd_timer :: "tref \<Rightarrow> (ktimer \<Rightarrow> ktimer) \<Rightarrow> kstate \<Rightarrow> kstate" where
  "upd_timer t f s = s\<lparr>timers := (timers s)(t := f (timers s t))\<rparr>"

text \<open>\<open>k->ctrl.g\<close> dereferenced: \<open>None\<close> is the fault on a thread without guest.\<close>

definition guest_of :: "kstate \<Rightarrow> kref \<Rightarrow> guest option" where
  "guest_of s k = k_g (kthreads s k)"

definition get_sys_clock_usec :: "kstate \<Rightarrow> int \<times> kstate" where
  "get_sys_clock_usec s = (clk s (clk_pos s), s\<lparr>clk_pos := Suc (clk_pos s)\<rparr>)"

definition raise_audit_event :: "u32 \<Rightarrow> u32 \<Rightarrow> u32 list \<Rightarrow> kstate \<Rightarrow> kstate" where
  "raise_audit_event m e p s = s\<lparr>audit := audit s @ [(m, e, p)]\<rparr>"

definition send_ipi :: "u32 \<Rightarrow> nat \<Rightarrow> kstate \<Rightarrow> kstate" where
  "send_ipi target from s = s\<lparr>ipis := ipis s @ [(from, target)]\<rparr>"

lemmas state_writes =
  upd_cpu_def upd_sched_def upd_k_def upd_g_def upd_pct_def upd_timer_def
  raise_audit_event_def send_ipi_def get_sys_clock_usec_def

end
