(* ===== verification/Demo.thy ===== *)
theory Demo
  imports KState
begin

text \<open>
  A small configured system, on which the theorems are shown to apply: one processor, two
  partitions of one thread each, of which partition 0 is a system partition; plan 0 gives the
  first 400 microseconds of each millisecond to partition 0 and the time from 500 to 900 to
  partition 1, plan 1 gives its whole frame of half a millisecond to partition 0.  Partition 0 owns
  the source ports of a sampling and of a queuing channel, partition 1 the destination ports.
\<close>

definition demo_slot :: "u32 \<Rightarrow> u32 \<Rightarrow> u32 \<Rightarrow> u32 \<Rightarrow> prtos_conf_sched_cyclic_slot" where
  "demo_slot i p a b = \<lparr>slot_id = i, slot_partition_id = p, slot_vcpu_id = 0, start_exec = a, end_exec = b\<rparr>"

definition demo_part :: "u32 \<Rightarrow> u32 \<Rightarrow> prtos_conf_part" where
  "demo_part i f = \<lparr>part_id = i, part_name_offset = 0, part_flags = f, num_of_vcpus = 1, part_hw_irqs = 0,
     num_of_physical_memory_areas = 1, physical_memory_areas_offset = i,
     part_console_device = \<lparr>dev_id = 1, dev_sub_id = 0\<rparr>, comm_ports_offset = 2 * i, num_of_ports = 2, part_hm_table = (\<lambda>_. \<lparr>hm_action = 0, hm_log = False\<rparr>),
     part_trace = \<lparr>trace_dev = \<lparr>dev_id = 0, dev_sub_id = 0\<rparr>, trace_bitmap = 0\<rparr>,
     ipvi_table = (\<lambda>n. \<lparr>dst_offset = 0, num_of_dsts = (if n = 0 then 1 else 0)\<rparr>)\<rparr>"

definition demo_conf :: prtos_conf where
  "demo_conf = \<lparr>num_of_cpus = 1,
     cpu_table = (\<lambda>_. \<lparr>sched_cyclic_plans_offset = 0, num_of_sched_cyclic_plans = 2\<rparr>),
     hpv_hm_table = (\<lambda>_. \<lparr>hm_action = 0, hm_log = False\<rparr>), hm_device = \<lparr>dev_id = 0, dev_sub_id = 0\<rparr>,
     hpv_console_device = \<lparr>dev_id = 1, dev_sub_id = 0\<rparr>, hw_irq_owner = (\<lambda>_. - 1),
     hpv_trace = \<lparr>trace_dev = \<lparr>dev_id = 0, dev_sub_id = 1\<rparr>, trace_bitmap = 0\<rparr>,
     hpv_physical_memory_areas_offset = 2, num_of_partitions = 2,
     partition_cfg = (\<lambda>p. if p = 0 then demo_part 0 PRTOS_PART_SYSTEM else demo_part 1 0),
     num_of_regions = 1, memory_region_table = (\<lambda>_. \<lparr>region_start_addr = 0, region_size = 0x8000000, region_flags = 0\<rparr>),
     phys_mem_area_table = (\<lambda>i. \<lparr>area_start_addr = 0x6000000 + of_nat i * 0x100000, area_mapped_at = 0x6000000,
       area_size = 0x100000, area_flags = 0, memory_region_offset = 0\<rparr>),
     num_of_comm_channels = 2,
     comm_channel_table = (\<lambda>i. if i = 0 then ConfSampling 32 (- 1) 1 else ConfQueuing 16 2),
     num_of_comm_ports = 4,
     comm_ports = (\<lambda>i. \<lparr>port_name_offset = 16 * of_nat i, port_channel_id = int (i mod 2),
       port_direction = (if i < 2 then 2 else 1), port_type = int (i mod 2)\<rparr>),
     num_of_conf_plans = 2,
     sched_cyclic_plan_table = (\<lambda>i. if i = 0
       then \<lparr>plan_name_offset = 0, plan_id = 0, major_frame = 1000, num_of_slots = 2, slots_offset = 0\<rparr>
       else \<lparr>plan_name_offset = 0, plan_id = 1, major_frame = 500, num_of_slots = 1, slots_offset = 2\<rparr>),
     sched_cyclic_slot_table = (\<lambda>i. if i = 0 then demo_slot 0 0 0 400
       else if i = 1 then demo_slot 1 1 500 900 else demo_slot 0 0 0 500),
     vcpu_cpu_table = (\<lambda>_. 0), dst_ipvi = (\<lambda>_. 1),
     string_tab = (\<lambda>i. if i mod 16 = 0 then of_nat (97 + i div 16) else 0),
     num_of_mem_blocks = 2, mem_block_table = (\<lambda>i. of_nat (2 + i)),
     boot_partition_table = (\<lambda>_. \<lparr>boot_flags = 1, hdr_phys_addr = 0x6000000, entry_point = 0x6000000,
       boot_image_start = 0x6080000, img_size = 0x2000, num_of_custom_files = 0,
       custom_file_table = (\<lambda>_. \<lparr>cf_start_addr = 0, cf_size = 0\<rparr>)\<rparr>)\<rparr>"

definition demo_pct :: partition_control_table where
  "demo_pct = \<lparr>pct_magic = KTHREAD_MAGIC, prtos_version = 0x10000, prtos_abi_version = 0x30100,
     prtos_api_version = 0x30102, pct_size = 0x200, reset_counter = 0, reset_status = 0, cpu_khz = 1000000,
     pct_id = 0, pct_num_of_vcpus = 1, pct_flags = KTHREAD_READY_F, pct_image_start = 0x6000000, pct_hw_irqs = 0,
     num_of_physical_mem_areas = 1, pct_num_of_comm_ports = 2, pct_name = (\<lambda>_. 0), iflags = 0, hw_irqs_pend = 0,
     hw_irqs_mask = 0, ext_irqs_pend = 0, ext_irqs_to_mask = 0,
     pct_arch = \<lparr>idtr_linear_base = 0x6001000, max_idt_vec = 256, arch_cr3 = 0, arch_cr2 = 0, arch_cr0 = 0\<rparr>,
     sched_info = \<lparr>csi_num_of_slots = 0, csi_id = 0, csi_slot_duration = 0\<rparr>,
     trap_to_vector = (\<lambda>_. 0), hw_irq_to_vector = (\<lambda>_. 0), ext_irq_to_vector = (\<lambda>_. 0),
     pct_tail = (\<lambda>_. 0)\<rparr>"

definition demo_guest :: "nat \<Rightarrow> nat \<Rightarrow> guest" where
  "demo_guest p v = \<lparr>g_id = push_bit 8 (of_nat v) OR (of_nat p AND 0xff), g_op_mode = PRTOS_OPMODE_NORMAL,
     g_vclock = \<lparr>vc_acc = 0, vc_delta = 0, vc_flags = 0\<rparr>,
     g_vtimer = \<lparr>vt_value = 0, vt_interval = 0, vt_flags = 0\<rparr>, g_sw_trap = 0,
     g_tss = \<lparr>tss_sp1 = 0x6003000, tss_ss1 = 0x19, tss_sp2 = 0x6004000, tss_ss2 = 0x22\<rparr>,
     g_ptd_level_1 = 0, g_pct_addr = 0xfc100000 + of_nat p * 0x1000, g_pct = demo_pct\<rparr>"

definition demo_thread :: "guest option \<Rightarrow> kthread" where
  "demo_thread g = \<lparr>k_magic1 = KTHREAD_MAGIC, k_magic2 = KTHREAD_MAGIC, k_flags = KTHREAD_READY_F, k_g = g,
     k_irq_mask = (\<lambda>_. 0), k_irq_pend_mask = (\<lambda>_. 0)\<rparr>"

definition demo_heap :: "(tlist, tref) dheap" where
  "demo_heap = \<lparr>nodes = (\<lambda>t. case t of
       TSched c \<Rightarrow> if c = 0 then \<lparr>dn_list = Some (GlobalTimers 0), dn_prev = Some (TSched 0), dn_next = Some (TSched 0)\<rparr>
                   else \<lparr>dn_list = None, dn_prev = None, dn_next = None\<rparr>
     | TTimer k \<Rightarrow> \<lparr>dn_list = Some (LocalTimers k), dn_prev = Some (TVtimer k), dn_next = Some (TVtimer k)\<rparr>
     | TVtimer k \<Rightarrow> \<lparr>dn_list = Some (LocalTimers k), dn_prev = Some (TTimer k), dn_next = Some (TTimer k)\<rparr>),
     dlists = (\<lambda>l. case l of
       GlobalTimers c \<Rightarrow> if c = 0 then \<lparr>dl_head = Some (TSched 0), dl_num = 1\<rparr> else \<lparr>dl_head = None, dl_num = 0\<rparr>
     | LocalTimers k \<Rightarrow> \<lparr>dl_head = Some (TVtimer k), dl_num = 2\<rparr>)\<rparr>"

text \<open>Processor 0 runs partition 0; its system timer is due since instant 100 and has period 200.\<close>

definition demo_state :: kstate where
  "demo_state = \<lparr>cpus = (\<lambda>c. \<lparr>irq_nesting_counter = 0, global_irq_mask = (\<lambda>_. 0), idle_kthread = KIdle c,
       current_kthread = KGuest 0 0,
       lp_sched_data = \<lparr>plan_current = None, plan_new = Some (PlanTab 0), plan_prev = None, sd_slot = - 1,
         sd_major_frame = 0, sd_start_exec = 0, sd_plan_switch_time = 0, sd_next_act = 0, sd_kthread = None\<rparr>,
       sched_flags = LOCAL_SCHED_ENABLED, time_flags = 0, time_next_act = 0\<rparr>),
     kthreads = (\<lambda>k. case k of KGuest p v \<Rightarrow> demo_thread (Some (demo_guest p v)) | KIdle _ \<Rightarrow> demo_thread None),
     partition_table = (\<lambda>p. \<lparr>p_kthread = (\<lambda>v. Some (KGuest p v)),
       pct_array = 0xfc100000 + of_nat p * 0x1000, pct_array_size = 0x200, p_op_mode = PRTOS_OPMODE_NORMAL,
       p_image_start = 0x6000000, pbl_stack = 0\<rparr>),
     timers = (\<lambda>t. \<lparr>kt_value = 100, kt_interval = 200,
       kt_flags = (if t = TTimer (KGuest 0 0) then KTIMER_ARMED else 0),
       kt_action = Some (case t of TSched c \<Rightarrow> SetSchedPending | TTimer k \<Rightarrow> KthreadTimerHandle k
                         | TVtimer k \<Rightarrow> VtimerHandle k)\<rparr>),
     theap = demo_heap, clk = (\<lambda>_. 450), clk_pos = 0, hw_irqs_masks = (\<lambda>_. 0), audit = [], ipis = [],
     hw_timer_prog = [], system_status = \<lparr>num_of_irqs = 0, num_of_hm_events = 0, current_maf = 0,
       sampling_msgs_read = 0, sampling_msgs_written = 0, queuing_msgs_sent = 0, queuing_msgs_received = 0\<rparr>,
     partition_status = (\<lambda>_. \<lparr>num_of_virqs = 0, part_sampling_msgs_read = 0, part_sampling_msgs_written = 0,
       part_queuing_msgs_sent = 0, part_queuing_msgs_received = 0\<rparr>)\<rparr>"

lemmas demo_defs =
  demo_slot_def demo_part_def demo_conf_def demo_pct_def demo_guest_def demo_thread_def demo_heap_def
  demo_state_def

end
