(* ===== verification/Kthread.thy ===== *)
theory Kthread
  imports Demo
begin

text \<open>
  \<open>core/include/kthread.h\<close> and the thread macros of \<open>core/include/sched.h\<close>: thread flags, mirrored
  into the partition control table, virtual interrupts made pending on one thread or on every
  thread of a partition, and the suspend, resume, halt and shutdown of threads and partitions.
  The partition control table of a guest exists as soon as the guest does.
\<close>

section \<open>Identifiers\<close>

definition PART_VCPU_ID2KID :: "u32 \<Rightarrow> u32 \<Rightarrow> u32" where
  "PART_VCPU_ID2KID p v = push_bit 8 v OR (p AND 0xff)"

definition KID2PARTID :: "u32 \<Rightarrow> u32" where
  "KID2PARTID i = i AND 0xff"

definition KID2VCPUID :: "u32 \<Rightarrow> u32" where
  "KID2VCPUID i = drop_bit 8 i"

lemma KID2PARTID_PART_VCPU_ID2KID: "p < 256 \<Longrightarrow> KID2PARTID (PART_VCPU_ID2KID p v) = p"
proof -
  assume "p < 256"
  then have nb: "8 \<le> i \<Longrightarrow> \<not> bit p i" for i using word_lt_exp_bit [of p 8 i] by simp
  have m: "(0xff :: u32) = mask 8" by (simp add: mask_eq_exp_minus_1)
  show ?thesis unfolding KID2PARTID_def PART_VCPU_ID2KID_def m
    by (rule bit_word_eqI) (auto simp: bit_simps nb intro: ccontr)
qed

lemma KID2VCPUID_PART_VCPU_ID2KID: "v < 2 ^ 24 \<Longrightarrow> KID2VCPUID (PART_VCPU_ID2KID p v) = v"
proof -
  assume "v < 2 ^ 24"
  then have nb: "24 \<le> i \<Longrightarrow> \<not> bit v i" for i by (rule word_lt_exp_bit)
  have m: "(0xff :: u32) = mask 8" by (simp add: mask_eq_exp_minus_1)
  show ?thesis unfolding KID2VCPUID_def PART_VCPU_ID2KID_def m
    by (rule bit_word_eqI) (auto simp: bit_simps nb intro: ccontr)
qed

section \<open>Thread flags\<close>

definition or_flags :: "u32 \<Rightarrow> kthread \<Rightarrow> kthread" where
  "or_flags f t = t\<lparr>k_flags := k_flags t OR f,
     k_g := map_option (\<lambda>g. g\<lparr>g_pct := (g_pct g)\<lparr>pct_flags := pct_flags (g_pct g) OR f\<rparr>\<rparr>) (k_g t)\<rparr>"

definition andnot_flags :: "u32 \<Rightarrow> kthread \<Rightarrow> kthread" where
  "andnot_flags f t = t\<lparr>k_flags := k_flags t AND NOT f,
     k_g := map_option (\<lambda>g. g\<lparr>g_pct := (g_pct g)\<lparr>pct_flags := pct_flags (g_pct g) AND NOT f\<rparr>\<rparr>) (k_g t)\<rparr>"

definition set_kthread_flags :: "kref \<Rightarrow> u32 \<Rightarrow> kstate \<Rightarrow> kstate" where
  "set_kthread_flags k f = upd_k k (or_flags f)"

definition clear_kthread_flags :: "kref \<Rightarrow> u32 \<Rightarrow> kstate \<Rightarrow> kstate" where
  "clear_kthread_flags k f = upd_k k (andnot_flags f)"

definition are_kthread_flags_set :: "kstate \<Rightarrow> kref \<Rightarrow> u32 \<Rightarrow> u32" where
  "are_kthread_flags_set s k f = k_flags (kthreads s k) AND f"

definition CHECK_KTHR_SANITY :: "kstate \<Rightarrow> kref \<Rightarrow> unit option" where
  "CHECK_KTHR_SANITY s k = ASSERT (k_magic1 (kthreads s k) = KTHREAD_MAGIC \<and>
                                   k_magic2 (kthreads s k) = KTHREAD_MAGIC)"

definition get_partition :: "kstate \<Rightarrow> kref \<Rightarrow> nat option" where
  "get_partition s k = map_option (\<lambda>g. unat (KID2PARTID (g_id g))) (guest_of s k)"

text \<open>\<open>partition_table[p].kthread[v]\<close>, and the loop over the threads of a partition.\<close>

definition part_kthread :: "kstate \<Rightarrow> nat \<Rightarrow> nat \<Rightarrow> kref option" where
  "part_kthread s p v = p_kthread (partition_table s p) v"

definition nr_vcpus :: "prtos_conf \<Rightarrow> nat \<Rightarrow> nat" where
  "nr_vcpus c p = unat (num_of_vcpus (partition_cfg c p))"

section \<open>Pending virtual interrupts\<close>

definition set_hw_irq_pending :: "kref \<Rightarrow> int \<Rightarrow> kstate \<Rightarrow> kstate option" where
  "set_hw_irq_pending k irq s = do {
     _ \<leftarrow> ASSERT (guest_of s k \<noteq> None);
     _ \<leftarrow> ASSERT (PRTOS_VT_HW_FIRST \<le> irq \<and> irq \<le> PRTOS_VT_HW_LAST);
     if are_kthread_flags_set s k KTHREAD_HALTED_F \<noteq> 0 then Some s
     else Some (set_kthread_flags k KTHREAD_READY_F
       (upd_pct k (\<lambda>t. t\<lparr>hw_irqs_pend := hw_irqs_pend t OR bit32 (nat irq)\<rparr>) s)) }"

definition set_part_hw_irq_pending :: "prtos_conf \<Rightarrow> nat \<Rightarrow> int \<Rightarrow> kstate \<Rightarrow> kstate option" where
  "set_part_hw_irq_pending c p irq s = do {
     _ \<leftarrow> ASSERT (PRTOS_VT_HW_FIRST \<le> irq \<and> irq \<le> PRTOS_VT_HW_LAST);
     foldM (\<lambda>e s. do {
       k \<leftarrow> part_kthread s p e;
       if are_kthread_flags_set s k KTHREAD_HALTED_F \<noteq> 0 then Some s
       else do {
         _ \<leftarrow> guest_of s k;
         Some (set_kthread_flags k KTHREAD_READY_F
           (upd_pct k (\<lambda>t. t\<lparr>hw_irqs_pend := hw_irqs_pend t OR bit32 (nat irq)\<rparr>) s)) } })
       [0..<nr_vcpus c p] s }"

definition set_ext_irq_pending :: "kref \<Rightarrow> int \<Rightarrow> kstate \<Rightarrow> kstate option" where
  "set_ext_irq_pending k irq s = do {
     _ \<leftarrow> ASSERT (guest_of s k \<noteq> None);
     _ \<leftarrow> ASSERT (PRTOS_VT_EXT_FIRST \<le> irq \<and> irq \<le> PRTOS_VT_EXT_LAST);
     let irq = irq - PRTOS_VT_EXT_FIRST;
     if are_kthread_flags_set s k KTHREAD_HALTED_F \<noteq> 0 then Some s
     else do {
       g \<leftarrow> guest_of s k;
       let p = unat (KID2PARTID (g_id g));
       let s = s\<lparr>partition_status := (partition_status s)
                   (p := (partition_status s p)\<lparr>num_of_virqs := num_of_virqs (partition_status s p) + 1\<rparr>)\<rparr>;
       let s = upd_pct k (\<lambda>t. t\<lparr>ext_irqs_pend := ext_irqs_pend t OR bit32 (nat irq)\<rparr>) s;
       Some (set_kthread_flags k KTHREAD_READY_F s) } }"

definition are_part_ext_irq_pending_set ::
    "prtos_conf \<Rightarrow> kstate \<Rightarrow> nat \<Rightarrow> int \<Rightarrow> bool option" where
  "are_part_ext_irq_pending_set c s p irq = do {
     _ \<leftarrow> ASSERT (PRTOS_VT_EXT_FIRST \<le> irq \<and> irq \<le> PRTOS_VT_EXT_LAST);
     let irq = irq - PRTOS_VT_EXT_FIRST;
     foldM (\<lambda>e r. if \<not> r then Some False else do {
       k \<leftarrow> part_kthread s p e;
       g \<leftarrow> guest_of s k;
       Some (ext_irqs_pend (g_pct g) AND bit32 (nat irq) \<noteq> 0) }) [0..<nr_vcpus c p] True }"

definition are_ext_irq_pending_set :: "kstate \<Rightarrow> kref \<Rightarrow> int \<Rightarrow> bool option" where
  "are_ext_irq_pending_set s k irq = do {
     _ \<leftarrow> ASSERT (PRTOS_VT_EXT_FIRST \<le> irq \<and> irq \<le> PRTOS_VT_EXT_LAST);
     let irq = irq - PRTOS_VT_EXT_FIRST;
     g \<leftarrow> guest_of s k;
     Some (ext_irqs_pend (g_pct g) AND bit32 (nat irq) \<noteq> 0) }"

definition set_part_ext_irq_pending :: "prtos_conf \<Rightarrow> nat \<Rightarrow> int \<Rightarrow> kstate \<Rightarrow> kstate option" where
  "set_part_ext_irq_pending c p irq s = do {
     _ \<leftarrow> ASSERT (PRTOS_VT_EXT_FIRST \<le> irq \<and> irq \<le> PRTOS_VT_EXT_LAST);
     let irq = irq - PRTOS_VT_EXT_FIRST;
     foldM (\<lambda>e s. do {
       k \<leftarrow> part_kthread s p e;
       if are_kthread_flags_set s k KTHREAD_HALTED_F \<noteq> 0 then Some s
       else do {
         _ \<leftarrow> guest_of s k;
         Some (set_kthread_flags k KTHREAD_READY_F
           (upd_pct k (\<lambda>t. t\<lparr>ext_irqs_pend := ext_irqs_pend t OR bit32 (nat irq)\<rparr>) s)) } })
       [0..<nr_vcpus c p] s }"

section \<open>Suspend, resume, halt\<close>

definition TRACE_SCHED_MODULE :: u32 where "TRACE_SCHED_MODULE = 2"

definition SUSPEND_VCPU :: "u32 \<Rightarrow> u32 \<Rightarrow> kstate \<Rightarrow> kstate option" where
  "SUSPEND_VCPU p v s = do {
     let s = raise_audit_event TRACE_SCHED_MODULE 0xc [PART_VCPU_ID2KID p v] s;
     k \<leftarrow> part_kthread s (unat p) (unat v);
     Some (set_kthread_flags k KTHREAD_SUSPENDED_F s) }"

definition RESUME_VCPU :: "u32 \<Rightarrow> u32 \<Rightarrow> kstate \<Rightarrow> kstate option" where
  "RESUME_VCPU p v s = do {
     let s = raise_audit_event TRACE_SCHED_MODULE 0xd [PART_VCPU_ID2KID p v] s;
     k \<leftarrow> part_kthread s (unat p) (unat v);
     Some (clear_kthread_flags k KTHREAD_SUSPENDED_F s) }"

definition HALT_VCPU :: "u32 \<Rightarrow> u32 \<Rightarrow> kstate \<Rightarrow> kstate option" where
  "HALT_VCPU p v s = do {
     let s = raise_audit_event TRACE_SCHED_MODULE 0xe [PART_VCPU_ID2KID p v] s;
     k \<leftarrow> part_kthread s (unat p) (unat v);
     let s = set_kthread_flags k KTHREAD_HALTED_F s;
     _ \<leftarrow> guest_of s k;
     Some (upd_g k (\<lambda>g. g\<lparr>g_op_mode := PRTOS_OPMODE_IDLE\<rparr>) s) }"

definition SUSPEND_PARTITION :: "prtos_conf \<Rightarrow> u32 \<Rightarrow> kstate \<Rightarrow> kstate option" where
  "SUSPEND_PARTITION c p s = foldM (\<lambda>e s. do {
       k \<leftarrow> part_kthread s (unat p) e;
       Some (set_kthread_flags k KTHREAD_SUSPENDED_F s) }) [0..<nr_vcpus c (unat p)]
     (raise_audit_event TRACE_SCHED_MODULE 0x1 [p] s)"

definition RESUME_PARTITION :: "prtos_conf \<Rightarrow> u32 \<Rightarrow> kstate \<Rightarrow> kstate option" where
  "RESUME_PARTITION c p s = foldM (\<lambda>e s. do {
       k \<leftarrow> part_kthread s (unat p) e;
       Some (clear_kthread_flags k KTHREAD_SUSPENDED_F s) }) [0..<nr_vcpus c (unat p)]
     (raise_audit_event TRACE_SCHED_MODULE 0x2 [p] s)"

definition SHUTDOWN_PARTITION :: "prtos_conf \<Rightarrow> u32 \<Rightarrow> kstate \<Rightarrow> kstate option" where
  "SHUTDOWN_PARTITION c p s =
     set_part_ext_irq_pending c (unat p) PRTOS_VT_EXT_SHUTDOWN
       (raise_audit_event TRACE_SCHED_MODULE 0x5 [p] s)"

definition HALT_PARTITION :: "prtos_conf \<Rightarrow> u32 \<Rightarrow> kstate \<Rightarrow> kstate option" where
  "HALT_PARTITION c p s = do {
     s \<leftarrow> foldM (\<lambda>e s. do {
         k \<leftarrow> part_kthread s (unat p) e;
         let s = set_kthread_flags k KTHREAD_HALTED_F s;
         _ \<leftarrow> guest_of s k;
         Some (upd_g k (\<lambda>g. g\<lparr>g_op_mode := PRTOS_OPMODE_IDLE\<rparr>) s) }) [0..<nr_vcpus c (unat p)]
       (raise_audit_event TRACE_SCHED_MODULE 0x3 [p] s);
     Some (s\<lparr>partition_table := (partition_table s)
              (unat p := (partition_table s (unat p))\<lparr>p_op_mode := PRTOS_OPMODE_IDLE\<rparr>)\<rparr>) }"

section \<open>Well-formed kernel states\<close>

text \<open>
  What boot establishes and no operation changes: the thread table of every configured partition
  points to its threads, each thread carries its identifier and the magic numbers, and only the
  idle threads have no guest.
\<close>

definition kshape :: "kstate \<Rightarrow> (nat \<Rightarrow> nat \<Rightarrow> kref option) \<times> (kref \<Rightarrow> u32 \<times> u32 \<times> u32 option)" where
  "kshape s = (\<lambda>p. p_kthread (partition_table s p),
     \<lambda>k. (k_magic1 (kthreads s k), k_magic2 (kthreads s k), map_option g_id (guest_of s k)))"

definition conf_wf :: "prtos_conf \<Rightarrow> bool" where
  "conf_wf c \<longleftrightarrow> num_of_partitions c \<le> 255 \<and>
     (\<forall>p. int p < num_of_partitions c \<longrightarrow>
        part_id (partition_cfg c p) = of_nat p \<and> nr_vcpus c p \<le> 256)"

definition kernel_wf :: "prtos_conf \<Rightarrow> kstate \<Rightarrow> bool" where
  "kernel_wf c s \<longleftrightarrow> conf_wf c \<and>
     (\<forall>p v. int p < num_of_partitions c \<longrightarrow> v < nr_vcpus c p \<longrightarrow>
        part_kthread s p v = Some (KGuest p v) \<and>
        map_option g_id (guest_of s (KGuest p v)) = Some (PART_VCPU_ID2KID (of_nat p) (of_nat v))) \<and>
     (\<forall>k. k_magic1 (kthreads s k) = KTHREAD_MAGIC \<and> k_magic2 (kthreads s k) = KTHREAD_MAGIC) \<and>
     (\<forall>i. guest_of s (KIdle i) = None)"

lemma kshape_part_kthread: "kshape s' = kshape s \<Longrightarrow> part_kthread s' p v = part_kthread s p v"
  by (simp add: kshape_def part_kthread_def fun_eq_iff)

lemma kshape_magic: "kshape s' = kshape s \<Longrightarrow>
    k_magic1 (kthreads s' k) = k_magic1 (kthreads s k) \<and> k_magic2 (kthreads s' k) = k_magic2 (kthreads s k)"
  by (simp add: kshape_def fun_eq_iff)

lemma kshape_id: "kshape s' = kshape s \<Longrightarrow>
    map_option g_id (guest_of s' k) = map_option g_id (guest_of s k)"
  by (simp add: kshape_def fun_eq_iff)

lemma kshape_None: "kshape s' = kshape s \<Longrightarrow> guest_of s' k = None \<longleftrightarrow> guest_of s k = None"
  by (metis kshape_id map_option_is_None)

lemma kernel_wf_shape: "kshape s' = kshape s \<Longrightarrow> kernel_wf c s' = kernel_wf c s"
  using kshape_part_kthread [of s' s] kshape_magic [of s' s] kshape_id [of s' s] kshape_None [of s' s]
  by (simp add: kernel_wf_def)

lemma kernel_wfD:
  assumes "kernel_wf c s" "int p < num_of_partitions c" "v < nr_vcpus c p"
  obtains g where "part_kthread s p v = Some (KGuest p v)" "guest_of s (KGuest p v) = Some g"
    "g_id g = PART_VCPU_ID2KID (of_nat p) (of_nat v)"
    "KID2PARTID (g_id g) = of_nat p" "KID2VCPUID (g_id g) = of_nat v" "p < 255" "v < 256"
proof -
  have bounds: "p < 255" "v < 256"
    using assms by (auto simp: kernel_wf_def conf_wf_def)
  have "(of_nat p :: u32) < 256" "(of_nat v :: u32) < 2 ^ 24"
    using bounds by (simp_all add: word_less_nat_alt unat_of_nat)
  moreover have "part_kthread s p v = Some (KGuest p v)"
    "map_option g_id (guest_of s (KGuest p v)) = Some (PART_VCPU_ID2KID (of_nat p) (of_nat v))"
    using assms by (simp_all only: kernel_wf_def simp_thms)
  then obtain g where "part_kthread s p v = Some (KGuest p v)" "guest_of s (KGuest p v) = Some g"
    "g_id g = PART_VCPU_ID2KID (of_nat p) (of_nat v)" by auto
  ultimately show thesis
    using that bounds by (simp add: KID2PARTID_PART_VCPU_ID2KID KID2VCPUID_PART_VCPU_ID2KID)
qed

lemma kernel_wf_vcpu:
  assumes "kernel_wf c s" "uint p < num_of_partitions c" "v < nr_vcpus c (unat p)"
  shows "part_kthread s (unat p) v = Some (KGuest (unat p) v)"
    and "\<exists>g. guest_of s (KGuest (unat p) v) = Some g"
  using assms kernel_wfD [of c s "unat p" v] by auto

lemma kernel_wf_guest:
  "kernel_wf c s \<Longrightarrow> int p < num_of_partitions c \<Longrightarrow> v < nr_vcpus c p \<Longrightarrow> guest_of s (KGuest p v) \<noteq> None"
  by (auto elim: kernel_wfD)

text \<open>Updates of one thread that keep the shape.\<close>

lemma kshape_upd_k:
  assumes "k_magic1 (f (kthreads s k)) = k_magic1 (kthreads s k)"
    and "k_magic2 (f (kthreads s k)) = k_magic2 (kthreads s k)"
    and "map_option g_id (k_g (f (kthreads s k))) = map_option g_id (k_g (kthreads s k))"
  shows "kshape (upd_k k f s) = kshape s"
  using assms by (auto simp: kshape_def upd_k_def guest_of_def fun_eq_iff)

lemma kshape_flags [frame_simps]:
  "kshape (set_kthread_flags k f s) = kshape s" "kshape (clear_kthread_flags k f s) = kshape s"
  by (auto simp: set_kthread_flags_def clear_kthread_flags_def or_flags_def andnot_flags_def
      option.map_comp comp_def intro!: kshape_upd_k)

lemma kshape_upd_g:
  "(\<And>g. g_id (f g) = g_id g) \<Longrightarrow> kshape (upd_g k f s) = kshape s"
  unfolding upd_g_def by (rule kshape_upd_k) (simp_all add: option.map_comp comp_def)

lemma kshape_upd_pct [frame_simps]: "kshape (upd_pct k f s) = kshape s"
  by (simp add: upd_pct_def kshape_upd_g)

lemma kshape_writes [frame_simps]:
  "kshape (upd_cpu i h s) = kshape s" "kshape (upd_sched i h' s) = kshape s"
  "kshape (upd_timer t h'' s) = kshape s" "kshape (raise_audit_event m e p s) = kshape s"
  "kshape (send_ipi w n s) = kshape s" "kshape (s\<lparr>partition_status := ps\<rparr>) = kshape s"
  "kshape (s\<lparr>system_status := ss\<rparr>) = kshape s" "kshape (s\<lparr>clk_pos := cp\<rparr>) = kshape s"
  "kshape (s\<lparr>hw_timer_prog := hp\<rparr>) = kshape s"
  by (simp_all add: kshape_def state_writes guest_of_def)

section \<open>The loop over the threads of a partition\<close>

definition vcpu_map :: "prtos_conf \<Rightarrow> nat \<Rightarrow> (kthread \<Rightarrow> kthread) \<Rightarrow> kstate \<Rightarrow> kstate" where
  "vcpu_map c p h s = s\<lparr>kthreads := \<lambda>k. case k of
     KGuest q v \<Rightarrow> if q = p \<and> v < nr_vcpus c p then h (kthreads s k) else kthreads s k
   | KIdle _ \<Rightarrow> kthreads s k\<rparr>"

lemma vcpu_loop:
  assumes pt: "\<And>v. v < n \<Longrightarrow> part_kthread s p v = Some (KGuest p v)"
    and body: "\<And>v s'. v < n \<Longrightarrow> part_kthread s' p v = Some (KGuest p v) \<Longrightarrow>
        kthreads s' (KGuest p v) = kthreads s (KGuest p v) \<Longrightarrow>
        f v s' = Some (upd_k (KGuest p v) h s')"
  shows "foldM f [0..<n] s = Some (s\<lparr>kthreads := \<lambda>k. case k of
     KGuest q v \<Rightarrow> if q = p \<and> v < n then h (kthreads s k) else kthreads s k
   | KIdle _ \<Rightarrow> kthreads s k\<rparr>)"
  using assms
proof (induction n)
  case 0
  have "(\<lambda>k. case k of KGuest q v \<Rightarrow> kthreads s k | KIdle _ \<Rightarrow> kthreads s k) = kthreads s"
    by (auto simp: fun_eq_iff split: kref.splits)
  then show ?case by (simp cong: kref.case_cong)
next
  case (Suc n)
  let ?s = "s\<lparr>kthreads := \<lambda>k. case k of
     KGuest q v \<Rightarrow> if q = p \<and> v < n then h (kthreads s k) else kthreads s k
   | KIdle _ \<Rightarrow> kthreads s k\<rparr>"
  have "foldM f [0..<n] s = Some ?s" using Suc by simp
  moreover have "f n ?s = Some (upd_k (KGuest p n) h ?s)"
    by (rule Suc.prems(2)) (use Suc.prems(1) in \<open>auto simp: part_kthread_def\<close>)
  ultimately show ?case
    by (auto simp: foldM_append upd_k_def fun_eq_iff less_Suc_eq intro!: arg_cong [of _ _ "\<lambda>k. s\<lparr>kthreads := k\<rparr>"] split: kref.splits)
qed

definition halted :: "kthread \<Rightarrow> bool" where
  "halted t \<longleftrightarrow> k_flags t AND KTHREAD_HALTED_F \<noteq> 0"

definition pend_ext :: "nat \<Rightarrow> kthread \<Rightarrow> kthread" where
  "pend_ext i t = or_flags KTHREAD_READY_F
     (t\<lparr>k_g := map_option (\<lambda>g. g\<lparr>g_pct := (g_pct g)\<lparr>ext_irqs_pend := ext_irqs_pend (g_pct g) OR bit32 i\<rparr>\<rparr>) (k_g t)\<rparr>)"

definition pend_hw :: "nat \<Rightarrow> kthread \<Rightarrow> kthread" where
  "pend_hw i t = or_flags KTHREAD_READY_F
     (t\<lparr>k_g := map_option (\<lambda>g. g\<lparr>g_pct := (g_pct g)\<lparr>hw_irqs_pend := hw_irqs_pend (g_pct g) OR bit32 i\<rparr>\<rparr>) (k_g t)\<rparr>)"

definition halt_thread :: "kthread \<Rightarrow> kthread" where
  "halt_thread t = (let t = or_flags KTHREAD_HALTED_F t in
     t\<lparr>k_g := map_option (\<lambda>g. g\<lparr>g_op_mode := PRTOS_OPMODE_IDLE\<rparr>) (k_g t)\<rparr>)"

lemma upd_k_id: "f (kthreads s k) = kthreads s k \<Longrightarrow> upd_k k f s = s"
  by (simp add: upd_k_def)

lemma upd_k_upd_k: "upd_k k f (upd_k k g s) = upd_k k (\<lambda>t. f (g t)) s"
  by (simp add: upd_k_def)

lemma upd_k_cong: "f (kthreads s k) = g (kthreads s k) \<Longrightarrow> upd_k k f s = upd_k k g s"
  by (simp add: upd_k_def)

lemma set_part_ext_irq_pending_eq:
  assumes "kernel_wf c s" "int p < num_of_partitions c" "0 \<le> irq" "irq \<le> 31"
  shows "set_part_ext_irq_pending c p irq s =
    Some (vcpu_map c p (\<lambda>t. if halted t then t else pend_ext (nat irq) t) s)"
  unfolding set_part_ext_irq_pending_def vcpu_map_def
  using assms
  by (auto simp: vt_defs intro!: vcpu_loop elim!: kernel_wfD [of c s p]
      simp: upd_k_id are_kthread_flags_set_def halted_def guest_of_def set_kthread_flags_def
        upd_pct_def upd_g_def upd_k_upd_k pend_ext_def intro!: upd_k_cong)

lemma set_part_hw_irq_pending_eq:
  assumes "kernel_wf c s" "int p < num_of_partitions c" "0 \<le> irq" "irq \<le> 31"
  shows "set_part_hw_irq_pending c p irq s =
    Some (vcpu_map c p (\<lambda>t. if halted t then t else pend_hw (nat irq) t) s)"
  unfolding set_part_hw_irq_pending_def vcpu_map_def
  using assms
  by (auto simp: vt_defs intro!: vcpu_loop elim!: kernel_wfD [of c s p]
      simp: upd_k_id are_kthread_flags_set_def halted_def guest_of_def set_kthread_flags_def
        upd_pct_def upd_g_def upd_k_upd_k pend_hw_def intro!: upd_k_cong)

lemma SUSPEND_PARTITION_eq:
  assumes "kernel_wf c s" "uint p < num_of_partitions c"
  shows "SUSPEND_PARTITION c p s =
    Some (vcpu_map c (unat p) (or_flags KTHREAD_SUSPENDED_F) (raise_audit_event TRACE_SCHED_MODULE 1 [p] s))"
  unfolding SUSPEND_PARTITION_def vcpu_map_def
  using assms kernel_wf_shape [of "raise_audit_event TRACE_SCHED_MODULE 1 [p] s" s c]
  by (auto simp: frame_simps intro!: vcpu_loop elim!: kernel_wfD [of c _ "unat p"]
      simp: set_kthread_flags_def)

lemma RESUME_PARTITION_eq:
  assumes "kernel_wf c s" "uint p < num_of_partitions c"
  shows "RESUME_PARTITION c p s =
    Some (vcpu_map c (unat p) (andnot_flags KTHREAD_SUSPENDED_F) (raise_audit_event TRACE_SCHED_MODULE 2 [p] s))"
  unfolding RESUME_PARTITION_def vcpu_map_def
  using assms kernel_wf_shape [of "raise_audit_event TRACE_SCHED_MODULE 2 [p] s" s c]
  by (auto simp: frame_simps intro!: vcpu_loop elim!: kernel_wfD [of c _ "unat p"]
      simp: clear_kthread_flags_def)

lemma HALT_PARTITION_eq:
  assumes "kernel_wf c s" "uint p < num_of_partitions c"
  shows "HALT_PARTITION c p s =
    (let s = vcpu_map c (unat p) halt_thread (raise_audit_event TRACE_SCHED_MODULE 3 [p] s)
     in Some (s\<lparr>partition_table := (partition_table s)
              (unat p := (partition_table s (unat p))\<lparr>p_op_mode := PRTOS_OPMODE_IDLE\<rparr>)\<rparr>))"
proof -
  let ?s = "raise_audit_event TRACE_SCHED_MODULE 3 [p] s"
  have wf: "kernel_wf c ?s"
    using assms(1) kernel_wf_shape [of ?s s c, OF kshape_writes(4)] by simp
  have "foldM (\<lambda>e s. do {
         k \<leftarrow> part_kthread s (unat p) e;
         let s = set_kthread_flags k KTHREAD_HALTED_F s;
         _ \<leftarrow> guest_of s k;
         Some (upd_g k (\<lambda>g. g\<lparr>g_op_mode := PRTOS_OPMODE_IDLE\<rparr>) s) }) [0..<nr_vcpus c (unat p)] ?s
      = Some (vcpu_map c (unat p) halt_thread ?s)"
    unfolding vcpu_map_def
  proof (rule vcpu_loop)
    fix v assume "v < nr_vcpus c (unat p)"
    then show "part_kthread ?s (unat p) v = Some (KGuest (unat p) v)"
      by (rule kernel_wf_vcpu(1) [OF wf assms(2)])
  next
    fix v s' assume v: "v < nr_vcpus c (unat p)" "part_kthread s' (unat p) v = Some (KGuest (unat p) v)"
      "kthreads s' (KGuest (unat p) v) = kthreads ?s (KGuest (unat p) v)"
    obtain g where "guest_of ?s (KGuest (unat p) v) = Some g"
      using kernel_wf_vcpu(2) [OF wf assms(2) v(1)] by blast
    with v have "guest_of s' (KGuest (unat p) v) = Some g" by (simp add: guest_of_def)
    with v show "do {
         k \<leftarrow> part_kthread s' (unat p) v;
         let s = set_kthread_flags k KTHREAD_HALTED_F s';
         _ \<leftarrow> guest_of s k;
         Some (upd_g k (\<lambda>g. g\<lparr>g_op_mode := PRTOS_OPMODE_IDLE\<rparr>) s) } = Some (upd_k (KGuest (unat p) v) halt_thread s')"
      by (simp add: Let_def guest_of_def set_kthread_flags_def upd_g_def upd_k_def or_flags_def halt_thread_def)
  qed
  then show ?thesis unfolding HALT_PARTITION_def Let_def by simp
qed

lemma set_ext_irq_pending_eq:
  assumes "guest_of s k = Some g" "0 \<le> irq" "irq \<le> 31"
  shows "set_ext_irq_pending k irq s = Some (if halted (kthreads s k) then s else
    upd_k k (pend_ext (nat irq)) (s\<lparr>partition_status := (partition_status s)(unat (KID2PARTID (g_id g)) :=
      (partition_status s (unat (KID2PARTID (g_id g))))
        \<lparr>num_of_virqs := num_of_virqs (partition_status s (unat (KID2PARTID (g_id g)))) + 1\<rparr>)\<rparr>))"
  using assms
  by (simp add: set_ext_irq_pending_def vt_defs are_kthread_flags_set_def halted_def Let_def
      set_kthread_flags_def upd_pct_def upd_g_def upd_k_upd_k)
    (intro impI upd_k_cong, simp add: pend_ext_def)

lemma kshape_vcpu_map:
  assumes "\<And>t. k_magic1 (h t) = k_magic1 t" "\<And>t. k_magic2 (h t) = k_magic2 t"
    and "\<And>t. map_option g_id (k_g (h t)) = map_option g_id (k_g t)"
  shows "kshape (vcpu_map c p h s) = kshape s"
  using assms by (auto simp: kshape_def vcpu_map_def guest_of_def fun_eq_iff split: kref.splits)

lemma thread_updates_shape [simp]:
  "k_magic1 (or_flags f t) = k_magic1 t" "k_magic2 (or_flags f t) = k_magic2 t"
  "map_option g_id (k_g (or_flags f t)) = map_option g_id (k_g t)"
  "k_magic1 (andnot_flags f t) = k_magic1 t" "k_magic2 (andnot_flags f t) = k_magic2 t"
  "map_option g_id (k_g (andnot_flags f t)) = map_option g_id (k_g t)"
  "k_magic1 (pend_ext i t) = k_magic1 t" "k_magic2 (pend_ext i t) = k_magic2 t"
  "map_option g_id (k_g (pend_ext i t)) = map_option g_id (k_g t)"
  "k_magic1 (pend_hw i t) = k_magic1 t" "k_magic2 (pend_hw i t) = k_magic2 t"
  "map_option g_id (k_g (pend_hw i t)) = map_option g_id (k_g t)"
  "k_magic1 (halt_thread t) = k_magic1 t" "k_magic2 (halt_thread t) = k_magic2 t"
  "map_option g_id (k_g (halt_thread t)) = map_option g_id (k_g t)"
  by (simp_all add: or_flags_def andnot_flags_def pend_ext_def pend_hw_def halt_thread_def
      option.map_comp comp_def Let_def)

section \<open>The example system is well formed\<close>

lemma demo_kernel_wf: "kernel_wf demo_conf demo_state"
  by (auto simp: kernel_wf_def conf_wf_def nr_vcpus_def part_kthread_def guest_of_def demo_defs
      PART_VCPU_ID2KID_def numeral_2_eq_2 less_Suc_eq split: kref.splits)

section \<open>Properties\<close>

text \<open>C16. Making an extended interrupt pending on a partition reaches every thread of the partition
  that is not halted, which becomes ready with the interrupt pending, and changes no halted thread
  and no thread of another partition; the operation always completes.\<close>

theorem set_part_ext_irq_pending_reaches:
  assumes "kernel_wf c s" "int p < num_of_partitions c" "0 \<le> irq" "irq \<le> 31"
  shows "\<exists>s'. set_part_ext_irq_pending c p irq s = Some s' \<and> kernel_wf c s' \<and>
    (\<forall>v < nr_vcpus c p. let k = KGuest p v in
       if halted (kthreads s k) then kthreads s' k = kthreads s k
       else k_flags (kthreads s' k) = k_flags (kthreads s k) OR KTHREAD_READY_F \<and>
         (\<exists>g. guest_of s' k = Some g \<and> bit (ext_irqs_pend (g_pct g)) (nat irq))) \<and>
    (\<forall>k. (\<forall>v. k \<noteq> KGuest p v) \<longrightarrow> kthreads s' k = kthreads s k)"
proof -
  let ?h = "\<lambda>t. if halted t then t else pend_ext (nat irq) t" and ?s = "vcpu_map c p (\<lambda>t. if halted t then t else pend_ext (nat irq) t) s"
  have "kshape ?s = kshape s" by (rule kshape_vcpu_map) simp_all
  then have wf: "kernel_wf c ?s" using assms(1) kernel_wf_shape by blast
  have "\<exists>g. guest_of ?s (KGuest p v) = Some g \<and> bit (ext_irqs_pend (g_pct g)) (nat irq)"
    if "v < nr_vcpus c p" "\<not> halted (kthreads s (KGuest p v))" for v
  proof -
    have "guest_of s (KGuest p v) \<noteq> None" using kernel_wf_guest assms(1,2) that(1) by blast
    then obtain g where "guest_of s (KGuest p v) = Some g" by auto
    with that assms(3,4) show ?thesis
      by (auto simp: vcpu_map_def guest_of_def pend_ext_def or_flags_def bit_simps)
  qed
  then show ?thesis
    using wf set_part_ext_irq_pending_eq [OF assms]
    by (auto simp: Let_def vcpu_map_def pend_ext_def or_flags_def split: kref.splits)
qed

theorem set_part_ext_irq_pending_reaches_witness:
  "\<exists>s'. set_part_ext_irq_pending demo_conf 1 3 demo_state = Some s' \<and> kernel_wf demo_conf s' \<and>
     kthreads s' (KGuest 0 0) = kthreads demo_state (KGuest 0 0)"
  using set_part_ext_irq_pending_reaches [OF demo_kernel_wf, of 1 3] by (auto simp: demo_conf_def)

end
