(* ===== verification/Ktimer.thy ===== *)
theory Ktimer
  imports Kthread "HOL-Library.Signed_Division"
begin

text \<open>
  \<open>core/kernel/ktimer.c\<close>: kernel timers in the per-processor and per-thread queues, the traversal
  that fires the expired ones, the programming of the hardware timer, and the execution clock and
  timer of a guest.  The limits of the hardware timer driver (\<open>get_min_interval\<close>,
  \<open>get_max_interval\<close>) are the parameter \<open>hw\<close>.  \<open>set_hw_timer\<close> and \<open>timer_handler\<close> call each
  other when a deadline passes between two readings of the clock: they carry fuel, and
  \<open>timer_handler_returns\<close> shows when it is enough.  The traversal walks the list first: no action
  of the kernel changes a timer queue.
\<close>

record hw_timer_limits =
  min_interval :: int
  max_interval :: int

section \<open>Execution clock\<close>

definition get_time_usec_vclock :: "vclock \<Rightarrow> kstate \<Rightarrow> int \<times> kstate" where
  "get_time_usec_vclock v s =
     (if vc_flags v AND VCLOCK_ENABLED \<noteq> 0
      then (let (now, s) = get_sys_clock_usec s in (s64 (vc_acc v + s64 (now - vc_delta v)), s))
      else (vc_acc v, s))"

definition init_vclock :: "vclock \<Rightarrow> vclock" where
  "init_vclock v = v\<lparr>vc_acc := 0, vc_delta := 0, vc_flags := 0\<rparr>"

section \<open>Time units\<close>

definition hwtime_to_duration :: "int \<Rightarrow> int \<Rightarrow> int" where
  "hwtime_to_duration t hz = (let s = t sdiv hz in s64 (s64 (s * 1000000) + s64 (s64 (t - s64 (s * hz)) * 1000000) sdiv hz))"

definition duration_to_hwtime :: "int \<Rightarrow> int \<Rightarrow> int" where
  "duration_to_hwtime d hz = (let s = d sdiv 1000000 in s64 (s64 (s * hz) + s64 (s64 (d - s64 (s * 1000000)) * hz) sdiv 1000000))"

section \<open>The handlers\<close>

definition set_sched_pending :: "nat \<Rightarrow> kstate \<Rightarrow> kstate" where
  "set_sched_pending this =
     upd_cpu this (\<lambda>i. i\<lparr>irq_nesting_counter := irq_nesting_counter i OR SCHED_PENDING\<rparr>)"

definition kthread_timer_handle :: "kref \<Rightarrow> kstate \<Rightarrow> kstate option" where
  "kthread_timer_handle k s = do {
     _ \<leftarrow> CHECK_KTHR_SANITY s k;
     set_ext_irq_pending k PRTOS_VT_EXT_HW_TIMER s }"

definition vtimer_handle :: "kref \<Rightarrow> kstate \<Rightarrow> kstate option" where
  "vtimer_handle k s = do {
     g \<leftarrow> guest_of s k;
     _ \<leftarrow> ASSERT (vc_flags (g_vclock g) AND VCLOCK_ENABLED \<noteq> 0);
     _ \<leftarrow> ASSERT (vt_flags (g_vtimer g) AND VTIMER_ARMED \<noteq> 0);
     _ \<leftarrow> CHECK_KTHR_SANITY s k;
     let s = (if vt_interval (g_vtimer g) > 0
       then upd_g k (\<lambda>g. g\<lparr>g_vtimer := (g_vtimer g)\<lparr>vt_value := s64 (vt_value (g_vtimer g) + vt_interval (g_vtimer g))\<rparr>\<rparr>) s
       else upd_g k (\<lambda>g. g\<lparr>g_vtimer := (g_vtimer g)\<lparr>vt_flags := vt_flags (g_vtimer g) AND NOT VTIMER_ARMED\<rparr>\<rparr>) s);
     set_ext_irq_pending k PRTOS_VT_EXT_EXEC_TIMER s }"

text \<open>The indirect call \<open>ktimer->action(ktimer, ktimer->action_args)\<close>.\<close>

fun run_action :: "nat \<Rightarrow> taction \<Rightarrow> kstate \<Rightarrow> kstate option" where
  "run_action this SetSchedPending s = Some (set_sched_pending this s)"
| "run_action this (KthreadTimerHandle k) s = kthread_timer_handle k s"
| "run_action this (VtimerHandle k) s = vtimer_handle k s"

section \<open>Traversing a queue\<close>

text \<open>\<open>do value += interval while (value <= current_time)\<close>, entered with a positive interval.  The
  sum may overflow; a loop that never ends is \<open>None\<close>.\<close>

partial_function (option) catch_up :: "int \<Rightarrow> int \<Rightarrow> int \<Rightarrow> int option" where
  "catch_up value interval now =
     (let value = s64 (value + interval) in
      if value \<le> now then catch_up value interval now else Some value)"

declare catch_up.simps [code]

definition traverse_step ::
    "nat \<Rightarrow> int \<Rightarrow> tref \<Rightarrow> int \<times> kstate \<Rightarrow> (int \<times> kstate) option" where
  "traverse_step this now t = (\<lambda>(next_act, s).
     if kt_flags (timers s t) AND KTIMER_ARMED \<noteq> 0 then
       if kt_value (timers s t) \<le> now then do {
         s \<leftarrow> (case kt_action (timers s t) of Some a \<Rightarrow> run_action this a s | None \<Rightarrow> Some s);
         if kt_interval (timers s t) > 0 then do {
           v \<leftarrow> catch_up (kt_value (timers s t)) (kt_interval (timers s t)) now;
           let s = upd_timer t (\<lambda>k. k\<lparr>kt_value := v\<rparr>) s;
           Some (if next_act > v then v else next_act, s) }
         else Some (next_act, upd_timer t (\<lambda>k. k\<lparr>kt_flags := kt_flags k AND NOT KTIMER_ARMED\<rparr>) s) }
       else Some (if next_act > kt_value (timers s t) then kt_value (timers s t) else next_act, s)
     else Some (next_act, s))"

definition traverse_ktimer_queue :: "nat \<Rightarrow> tlist \<Rightarrow> int \<Rightarrow> kstate \<Rightarrow> (int \<times> kstate) option" where
  "traverse_ktimer_queue this l now s = do {
     ts \<leftarrow> dyn_list_for_each l (theap s);
     foldM (traverse_step this now) ts (MAX_PRTOSTIME, s) }"

section \<open>Programming the hardware timer\<close>

text \<open>The body of \<open>timer_handler\<close> up to the call that programs the hardware timer.\<close>

definition handler_round :: "nat \<Rightarrow> kstate \<Rightarrow> (int \<times> kstate) option" where
  "handler_round this s = do {
     let s = upd_cpu this (\<lambda>i. i\<lparr>time_flags := time_flags i AND NOT NEXT_ACT_IS_VALID\<rparr>) s;
     let (now, s) = get_sys_clock_usec s;
     (next_act, s) \<leftarrow> traverse_ktimer_queue this (GlobalTimers this) now s;
     let k = current_kthread (cpus s this);
     (if guest_of s k \<noteq> None then do {
        (next_local_act, s) \<leftarrow> traverse_ktimer_queue this (LocalTimers k) now s;
        Some (if next_local_act \<noteq> 0 \<and> next_local_act < next_act then next_local_act else next_act, s) }
      else Some (next_act, s)) }"

fun set_hw_timer :: "hw_timer_limits \<Rightarrow> nat \<Rightarrow> nat \<Rightarrow> int \<Rightarrow> kstate \<Rightarrow> kstate option"
  and timer_handler :: "hw_timer_limits \<Rightarrow> nat \<Rightarrow> nat \<Rightarrow> kstate \<Rightarrow> kstate option" where
  "set_hw_timer hw this fuel next_act s = do {
     _ \<leftarrow> ASSERT (next_act \<ge> 0);
     if next_act = 0 then Some s
     else if time_flags (cpus s this) AND NEXT_ACT_IS_VALID \<noteq> 0 \<and> next_act \<ge> time_next_act (cpus s this)
     then Some s
     else
       let s = upd_cpu this (\<lambda>i. i\<lparr>time_flags := time_flags i OR NEXT_ACT_IS_VALID, time_next_act := next_act\<rparr>) s;
           (now, s) = get_sys_clock_usec s;
           next_time = next_act - now
       in if next_time \<ge> 0 then
            let next_time = (if next_time < min_interval hw then min_interval hw else next_time);
                next_time = (if next_time > max_interval hw then max_interval hw else next_time);
                s = upd_cpu this (\<lambda>i. i\<lparr>time_next_act := next_time + now\<rparr>) s
            in Some (s\<lparr>hw_timer_prog := hw_timer_prog s @ [(this, next_time)]\<rparr>)
          else (case fuel of 0 \<Rightarrow> None | Suc fuel' \<Rightarrow> timer_handler hw this fuel' s) }"
| "timer_handler hw this fuel s = do {
     (next_act, s) \<leftarrow> handler_round this s;
     (case fuel of 0 \<Rightarrow> None | Suc fuel' \<Rightarrow> set_hw_timer hw this fuel' next_act s) }"

declare set_hw_timer.simps [simp del] timer_handler.simps [simp del]

section \<open>Timers and clocks of a guest\<close>

definition timer_list :: "kref option \<Rightarrow> nat \<Rightarrow> tlist" where
  "timer_list k cpu = (case k of Some k \<Rightarrow> LocalTimers k | None \<Rightarrow> GlobalTimers cpu)"

definition init_ktimer :: "nat \<Rightarrow> tref \<Rightarrow> taction \<Rightarrow> kref option \<Rightarrow> kstate \<Rightarrow> kstate option" where
  "init_ktimer cpu t act k s = do {
     let s = upd_timer t (\<lambda>_. \<lparr>kt_value = 0, kt_interval = 0, kt_flags = 0, kt_action = Some act\<rparr>) s;
     let s = s\<lparr>theap := (theap s)\<lparr>nodes := (nodes (theap s))
                 (t := \<lparr>dn_list = None, dn_prev = None, dn_next = None\<rparr>)\<rparr>\<rparr>;
     (r, h) \<leftarrow> dyn_list_insert_head (timer_list k cpu) t (theap s);
     if r \<noteq> 0 then None else Some (s\<lparr>theap := h\<rparr>) }"

definition uninit_ktimer :: "nat \<Rightarrow> tref \<Rightarrow> kref option \<Rightarrow> kstate \<Rightarrow> kstate option" where
  "uninit_ktimer this t k s = do {
     let s = upd_timer t (\<lambda>x. x\<lparr>kt_flags := 0\<rparr>) s;
     (r, h) \<leftarrow> dyn_list_remove_element (timer_list k this) t (theap s);
     if r \<noteq> 0 then None else Some (s\<lparr>theap := h\<rparr>) }"

definition arm_ktimer ::
    "hw_timer_limits \<Rightarrow> nat \<Rightarrow> nat \<Rightarrow> tref \<Rightarrow> int \<Rightarrow> int \<Rightarrow> kstate \<Rightarrow> (int \<times> kstate) option" where
  "arm_ktimer hw this fuel t value interval s = do {
     let s = upd_timer t (\<lambda>k. k\<lparr>kt_value := value, kt_interval := interval,
                                kt_flags := kt_flags k OR KTIMER_ARMED\<rparr>) s;
     s \<leftarrow> set_hw_timer hw this fuel value s;
     Some (0, s) }"

definition disarm_ktimer :: "tref \<Rightarrow> kstate \<Rightarrow> int \<times> kstate" where
  "disarm_ktimer t s =
     (if kt_flags (timers s t) AND KTIMER_ARMED = 0 then (- 1, s)
      else (0, upd_timer t (\<lambda>k. k\<lparr>kt_flags := kt_flags k AND NOT VTIMER_ARMED\<rparr>) s))"

definition init_vtimer :: "nat \<Rightarrow> kref \<Rightarrow> kstate \<Rightarrow> (int \<times> kstate) option" where
  "init_vtimer cpu k s = do { s \<leftarrow> init_ktimer cpu (TVtimer k) (VtimerHandle k) (Some k) s; Some (0, s) }"

definition arm_vtimer ::
    "hw_timer_limits \<Rightarrow> nat \<Rightarrow> nat \<Rightarrow> kref \<Rightarrow> int \<Rightarrow> int \<Rightarrow> kstate \<Rightarrow> (int \<times> kstate) option" where
  "arm_vtimer hw this fuel k value interval s = do {
     let s = upd_g k (\<lambda>g. g\<lparr>g_vtimer := \<lparr>vt_value = value, vt_interval = interval,
                              vt_flags = vt_flags (g_vtimer g) OR VTIMER_ARMED\<rparr>\<rparr>) s;
     g \<leftarrow> guest_of s k;
     s \<leftarrow> (if vc_flags (g_vclock g) AND VCLOCK_ENABLED \<noteq> 0
           then do { (_, s) \<leftarrow> arm_ktimer hw this fuel (TVtimer k)
                        (s64 (s64 (value - vc_acc (g_vclock g)) + vc_delta (g_vclock g))) interval s; Some s }
           else Some s);
     Some (0, s) }"

definition disarm_vtimer :: "kref \<Rightarrow> kstate \<Rightarrow> (int \<times> kstate) option" where
  "disarm_vtimer k s = do {
     g \<leftarrow> guest_of s k;
     if vt_flags (g_vtimer g) AND KTIMER_ARMED = 0 then Some (- 1, s)
     else Some (0, upd_g k (\<lambda>g. g\<lparr>g_vtimer := (g_vtimer g)\<lparr>vt_flags := vt_flags (g_vtimer g) AND NOT KTIMER_ARMED\<rparr>\<rparr>) s) }"

definition stop_vclock :: "kref \<Rightarrow> kstate \<Rightarrow> kstate option" where
  "stop_vclock k s = do {
     g \<leftarrow> guest_of s k;
     let s = (if vt_flags (g_vtimer g) AND VTIMER_ARMED \<noteq> 0 then snd (disarm_ktimer (TVtimer k) s) else s);
     let (now, s) = get_sys_clock_usec s;
     Some (upd_g k (\<lambda>g. g\<lparr>g_vclock := (g_vclock g)\<lparr>vc_flags := vc_flags (g_vclock g) AND NOT VCLOCK_ENABLED,
         vc_acc := s64 (vc_acc (g_vclock g) + s64 (now - vc_delta (g_vclock g)))\<rparr>\<rparr>) s) }"

definition resume_vclock :: "hw_timer_limits \<Rightarrow> nat \<Rightarrow> nat \<Rightarrow> kref \<Rightarrow> kstate \<Rightarrow> kstate option" where
  "resume_vclock hw this fuel k s = do {
     let (now, s) = get_sys_clock_usec s;
     let s = upd_g k (\<lambda>g. g\<lparr>g_vclock := (g_vclock g)\<lparr>vc_delta := now,
               vc_flags := vc_flags (g_vclock g) OR VCLOCK_ENABLED\<rparr>\<rparr>) s;
     g \<leftarrow> guest_of s k;
     if vt_flags (g_vtimer g) AND VTIMER_ARMED \<noteq> 0
     then do { (_, s) \<leftarrow> arm_ktimer hw this fuel (TVtimer k)
                 (s64 (s64 (vt_value (g_vtimer g) - vc_acc (g_vclock g)) + vc_delta (g_vclock g)))
                 (vt_interval (g_vtimer g)) s; Some s }
     else Some s }"

section \<open>Time units, exactly\<close>

lemma sdiv_nonneg: "0 \<le> a \<Longrightarrow> 0 < b \<Longrightarrow> (a :: int) sdiv b = a div b"
  by (simp add: signed_divide_int_def sgn_if)

text \<open>\<open>t * u / v\<close> by quotient and remainder of \<open>t\<close>: the only product that is not part of the result
  is below \<open>v * u\<close>, so no step overflows when the result does not.\<close>

lemma split_scale:
  assumes "0 \<le> t" "t < 2 ^ 63" "0 < v" "0 \<le> u" "v * u < 2 ^ 63" "t * u div v < 2 ^ 63"
  shows "s64 (s64 (t sdiv v * u) + s64 (s64 (t - s64 (t sdiv v * v)) * u) sdiv v) = t * u div v"
proof -
  let ?q = "t div v" and ?r = "t mod v"
  have dm: "t = ?q * v + ?r" by simp
  have rr: "0 \<le> ?r" "?r < v" "0 \<le> ?q" using assms by (simp_all add: pos_imp_zdiv_nonneg_iff)
  have ru: "0 \<le> ?r * u" "?r * u \<le> v * u" using rr assms(4) by (simp_all add: mult_right_mono)
  have "t * u = (?q * v + ?r) * u" by (simp only: dm [symmetric])
  also have "\<dots> = ?q * u * v + ?r * u" by (simp only: distrib_left distrib_right ac_simps)
  finally have "t * u = ?q * u * v + ?r * u" .
  then have eq: "t * u div v = ?q * u + ?r * u div v" using assms(3) by simp
  have rd: "0 \<le> ?r * u div v" using ru(1) assms(3) by (simp add: pos_imp_zdiv_nonneg_iff)
  have qu: "0 \<le> ?q * u" using rr assms(4) by simp
  have qv: "0 \<le> ?q * v" "?q * v \<le> t" using rr assms(3) dm by (simp, linarith)
  have "s64 (?q * u) = ?q * u" using qu rd eq assms(6) by (intro s64_id) linarith+
  moreover have "s64 (?q * v) = ?q * v" using qv assms(2) by (intro s64_id) linarith+
  moreover have "t - ?q * v = ?r" by (simp add: minus_div_mult_eq_mod)
  moreover have "s64 ?r = ?r" using rr dm qv assms(2) by (intro s64_id) linarith+
  moreover have "s64 (?r * u) = ?r * u" using ru assms(5) by (intro s64_id) linarith+
  moreover have "s64 (?q * u + ?r * u div v) = t * u div v" using qu rd eq assms(6) by (subst s64_id) linarith+
  ultimately show ?thesis using assms(1,3) ru(1) by (simp add: sdiv_nonneg)
qed

section \<open>What a traversal does to the timers\<close>

text \<open>The first expiry after \<open>now\<close> of a timer of period \<open>i\<close> that was due at \<open>v\<close>.\<close>

definition next_expiry :: "int \<Rightarrow> int \<Rightarrow> int \<Rightarrow> int" where
  "next_expiry v i now = v + i * ((now - v) div i + 1)"

lemma next_expiry_bounds:
  assumes "0 < i" "v \<le> now"
  shows "now < next_expiry v i now" "next_expiry v i now \<le> now + i" "i dvd next_expiry v i now - v"
proof -
  have e: "i * ((now - v) div i) = now - v - (now - v) mod i" by (simp add: minus_mod_eq_mult_div)
  have "0 \<le> (now - v) mod i" "(now - v) mod i < i" using assms by simp_all
  then show "now < next_expiry v i now" "next_expiry v i now \<le> now + i"
    unfolding next_expiry_def distrib_left e by simp_all
qed (simp add: next_expiry_def)

lemma catch_up_eq:
  assumes "0 < i" "v \<le> now" "- (2 ^ 63) \<le> v" "now + i < 2 ^ 63"
  shows "catch_up v i now = Some (next_expiry v i now)"
  using assms(2,3)
proof (induction "nat (now - v)" arbitrary: v rule: less_induct)
  case less
  have s: "s64 (v + i) = v + i" using assms less.prems by (intro s64_id) simp_all
  show ?case
  proof (cases "v + i \<le> now")
    case True
    have "(now - v) div i = (now - (v + i)) div i + 1"
      using assms(1) div_add_self2 [of i "now - v - i"] by (simp add: algebra_simps)
    then have "next_expiry (v + i) i now = next_expiry v i now" by (simp add: next_expiry_def algebra_simps)
    then show ?thesis using less.hyps [of "v + i"] less.prems assms(1) True
      by (subst catch_up.simps) (simp add: s)
  next
    case False
    with assms(1) less.prems have "(now - v) div i = 0" by (simp add: div_pos_pos_trivial)
    with False show ?thesis by (subst catch_up.simps) (simp add: s next_expiry_def)
  qed
qed

definition armed :: "ktimer \<Rightarrow> bool" where
  "armed k \<longleftrightarrow> kt_flags k AND KTIMER_ARMED \<noteq> 0"

definition fire :: "int \<Rightarrow> ktimer \<Rightarrow> ktimer" where
  "fire now k = (if armed k \<and> kt_value k \<le> now then
     if kt_interval k > 0 then k\<lparr>kt_value := next_expiry (kt_value k) (kt_interval k) now\<rparr>
     else k\<lparr>kt_flags := kt_flags k AND NOT KTIMER_ARMED\<rparr> else k)"

lemma not_armed_cleared [simp]: "\<not> armed (k\<lparr>kt_flags := f AND NOT KTIMER_ARMED\<rparr>)"
  by (simp add: armed_def and.assoc)

lemma armed_value [simp]: "armed (k\<lparr>kt_value := v\<rparr>) = armed k"
  by (simp add: armed_def)

lemma fire_late: "armed (fire now k) \<Longrightarrow> now < kt_value (fire now k)"
  using next_expiry_bounds(1) [of "kt_interval k" "kt_value k" now]
  by (auto simp: fire_def split: if_splits)

text \<open>The action installed on a timer is the one of its kind.\<close>

fun action_of :: "tref \<Rightarrow> taction" where
  "action_of (TSched c) = SetSchedPending"
| "action_of (TTimer k) = KthreadTimerHandle k"
| "action_of (TVtimer k) = VtimerHandle k"

definition timers_wf :: "kstate \<Rightarrow> bool" where
  "timers_wf s \<longleftrightarrow> (\<forall>t. kt_action (timers s t) = None \<or> kt_action (timers s t) = Some (action_of t))"

text \<open>When the assertions of a handler hold.\<close>

fun action_ok :: "kstate \<Rightarrow> taction \<Rightarrow> bool" where
  "action_ok s SetSchedPending \<longleftrightarrow> True"
| "action_ok s (KthreadTimerHandle k) \<longleftrightarrow> guest_of s k \<noteq> None \<and>
     k_magic1 (kthreads s k) = KTHREAD_MAGIC \<and> k_magic2 (kthreads s k) = KTHREAD_MAGIC"
| "action_ok s (VtimerHandle k) \<longleftrightarrow> (\<exists>g. guest_of s k = Some g \<and>
     vc_flags (g_vclock g) AND VCLOCK_ENABLED \<noteq> 0 \<and> vt_flags (g_vtimer g) AND VTIMER_ARMED \<noteq> 0) \<and>
     k_magic1 (kthreads s k) = KTHREAD_MAGIC \<and> k_magic2 (kthreads s k) = KTHREAD_MAGIC"

text \<open>What a traversal leaves alone: everything but timers, pending interrupts and \<open>SCHED_PENDING\<close>.\<close>

definition quiet :: "kstate \<Rightarrow> kstate \<Rightarrow> bool" where
  "quiet s s' \<longleftrightarrow> theap s' = theap s \<and> clk s' = clk s \<and> clk_pos s' = clk_pos s \<and>
     hw_timer_prog s' = hw_timer_prog s \<and> kshape s' = kshape s \<and>
     (\<forall>c. time_flags (cpus s' c) = time_flags (cpus s c) \<and>
          time_next_act (cpus s' c) = time_next_act (cpus s c) \<and>
          current_kthread (cpus s' c) = current_kthread (cpus s c) \<and>
          idle_kthread (cpus s' c) = idle_kthread (cpus s c) \<and>
          lp_sched_data (cpus s' c) = lp_sched_data (cpus s c))"

lemma quiet_refl [simp]: "quiet s s"
  by (simp add: quiet_def)

lemma quiet_trans: "quiet s s' \<Longrightarrow> quiet s' s'' \<Longrightarrow> quiet s s''"
  by (simp add: quiet_def)

text \<open>What programming the timer leaves alone.\<close>

definition calm :: "kstate \<Rightarrow> kstate \<Rightarrow> bool" where
  "calm s s' \<longleftrightarrow> kshape s' = kshape s \<and> clk s' = clk s \<and> theap s' = theap s \<and> clk_pos s \<le> clk_pos s' \<and>
     (\<forall>c. current_kthread (cpus s' c) = current_kthread (cpus s c) \<and>
          idle_kthread (cpus s' c) = idle_kthread (cpus s c) \<and>
          lp_sched_data (cpus s' c) = lp_sched_data (cpus s c))"

lemma calm_refl [simp]: "calm s s"
  by (simp add: calm_def)

lemma calm_trans: "calm s s' \<Longrightarrow> calm s' s'' \<Longrightarrow> calm s s''"
  by (simp add: calm_def)

lemma quiet_calm: "quiet s s' \<Longrightarrow> calm s s'"
  by (simp add: calm_def quiet_def)

lemma quiet_upd_k: "kshape (upd_k k f s) = kshape s \<Longrightarrow> quiet s (upd_k k f s)"
  by (simp add: quiet_def upd_k_def)

lemma quiet_upd_g: "(\<And>g. g_id (f g) = g_id g) \<Longrightarrow> quiet s (upd_g k f s)"
  unfolding upd_g_def by (rule quiet_upd_k) (metis kshape_upd_g upd_g_def)

lemma quiet_upd_timer [simp]: "quiet s (upd_timer t f s)"
  by (simp add: quiet_def upd_timer_def kshape_def guest_of_def)

lemma timers_upd [simp]:
  "timers (upd_k k f s) = timers s" "timers (upd_g k f1 s) = timers s"
  "timers (upd_pct k f2 s) = timers s" "timers (upd_cpu c f3 s) = timers s"
  "timers (upd_timer t g s) = (timers s)(t := g (timers s t))"
  by (simp_all add: upd_k_def upd_g_def upd_pct_def upd_cpu_def upd_timer_def)

text \<open>The execution clock and timer of a thread, which the assertions of \<open>vtimer_handle\<close> read.\<close>

definition vt_view :: "kstate \<Rightarrow> kref \<Rightarrow> (vclock \<times> vtimer) option" where
  "vt_view s k = map_option (\<lambda>g. (g_vclock g, g_vtimer g)) (guest_of s k)"

definition vt_period :: "kstate \<Rightarrow> kref \<Rightarrow> int option" where
  "vt_period s k = map_option (vt_interval \<circ> snd) (vt_view s k)"

lemma action_ok_cong:
  assumes "kshape s' = kshape s" "\<And>k. a = VtimerHandle k \<Longrightarrow> vt_view s' k = vt_view s k"
  shows "action_ok s' a = action_ok s a"
proof (cases a)
  case (VtimerHandle k)
  have "vt_view s' k = vt_view s k" using assms VtimerHandle by simp
  then have "(\<exists>g. guest_of s' k = Some g \<and> P (g_vclock g) (g_vtimer g)) \<longleftrightarrow>
      (\<exists>g. guest_of s k = Some g \<and> P (g_vclock g) (g_vtimer g))" for P
    by (cases "guest_of s k"; cases "guest_of s' k") (auto simp: vt_view_def)
  from this [of "\<lambda>c t. vc_flags c AND VCLOCK_ENABLED \<noteq> 0 \<and> vt_flags t AND VTIMER_ARMED \<noteq> 0"]
  show ?thesis using VtimerHandle kshape_magic [OF assms(1)] by simp
qed (use kshape_magic [OF assms(1)] kshape_None [OF assms(1)] in auto)

lemma set_ext_irq_pending_runs:
  assumes "guest_of s k \<noteq> None" "0 \<le> irq" "irq \<le> 31"
  shows "\<exists>s'. set_ext_irq_pending k irq s = Some s' \<and> quiet s s' \<and> timers s' = timers s \<and>
    vt_view s' = vt_view s"
proof -
  obtain g where g: "guest_of s k = Some g" using assms by auto
  let ?s = "s\<lparr>partition_status := (partition_status s)(unat (KID2PARTID (g_id g)) :=
      (partition_status s (unat (KID2PARTID (g_id g))))
        \<lparr>num_of_virqs := num_of_virqs (partition_status s (unat (KID2PARTID (g_id g)))) + 1\<rparr>)\<rparr>"
  have "quiet s ?s" by (simp add: quiet_def frame_simps)
  moreover have "quiet ?s (upd_k k (pend_ext (nat irq)) ?s)"
    by (rule quiet_upd_k, rule kshape_upd_k) simp_all
  ultimately have "quiet s (upd_k k (pend_ext (nat irq)) ?s)" by (rule quiet_trans)
  moreover have "vt_view (upd_k k (pend_ext (nat irq)) ?s) = vt_view s"
    by (auto simp: vt_view_def guest_of_def upd_k_def pend_ext_def or_flags_def fun_eq_iff
        option.map_comp comp_def)
  ultimately show ?thesis by (simp add: set_ext_irq_pending_eq [OF g assms(2,3)])
qed

text \<open>The vtimer handler is the only action that may invalidate an action, and only its own.\<close>

lemma run_action_runs:
  assumes "action_ok s a"
  shows "\<exists>s'. run_action this a s = Some s' \<and> quiet s s' \<and> timers s' = timers s \<and>
    vt_period s' = vt_period s \<and>
    (\<forall>b. action_ok s b \<longrightarrow> b \<noteq> a \<or> (\<forall>k. a = VtimerHandle k \<longrightarrow> (\<exists>i > 0. vt_period s k = Some i)) \<longrightarrow>
       action_ok s' b)"
proof (cases a)
  case SetSchedPending
  have sh: "kshape (set_sched_pending this s) = kshape s" by (simp add: set_sched_pending_def frame_simps)
  then have "quiet s (set_sched_pending this s)"
    by (simp add: quiet_def) (simp add: set_sched_pending_def upd_cpu_def)
  moreover have v: "vt_view (set_sched_pending this s) = vt_view s"
    by (simp add: vt_view_def fun_eq_iff set_sched_pending_def upd_cpu_def guest_of_def)
  ultimately show ?thesis using SetSchedPending action_ok_cong [OF sh] 
    by (simp add: vt_period_def fun_eq_iff) (simp add: set_sched_pending_def)
next
  case (KthreadTimerHandle k)
  obtain g where g: "guest_of s k = Some g" using assms KthreadTimerHandle by auto
  obtain s' where s': "set_ext_irq_pending k 0 s = Some s'" "quiet s s'" "timers s' = timers s"
    "vt_view s' = vt_view s"
    using set_ext_irq_pending_runs [of s k 0] g by auto
  have "kshape s' = kshape s" using s'(2) by (simp add: quiet_def)
  then have "action_ok s' b = action_ok s b" for b by (rule action_ok_cong) (simp add: s'(4))
  with s' KthreadTimerHandle assms show ?thesis
    by (simp add: kthread_timer_handle_def CHECK_KTHR_SANITY_def vt_defs vt_period_def fun_eq_iff)
next
  case (VtimerHandle k)
  then obtain g where g: "guest_of s k = Some g" "vc_flags (g_vclock g) AND VCLOCK_ENABLED \<noteq> 0"
    "vt_flags (g_vtimer g) AND VTIMER_ARMED \<noteq> 0" using assms by auto
  define f :: "guest \<Rightarrow> guest" where "f = (if vt_interval (g_vtimer g) > 0
       then (\<lambda>g. g\<lparr>g_vtimer := (g_vtimer g)\<lparr>vt_value := s64 (vt_value (g_vtimer g) + vt_interval (g_vtimer g))\<rparr>\<rparr>)
       else (\<lambda>g. g\<lparr>g_vtimer := (g_vtimer g)\<lparr>vt_flags := vt_flags (g_vtimer g) AND NOT VTIMER_ARMED\<rparr>\<rparr>))"
  define s1 where "s1 = upd_g k f s"
  have fid: "g_id (f x) = g_id x" "vt_interval (g_vtimer (f x)) = vt_interval (g_vtimer x)" for x
    by (simp_all add: f_def)
  have q1: "quiet s s1" "timers s1 = timers s" unfolding s1_def by (simp_all add: quiet_upd_g fid)
  have g1: "guest_of s1 k = Some (f g)" using g by (simp add: s1_def guest_of_def upd_g_def upd_k_def)
  have other: "k' \<noteq> k \<Longrightarrow> vt_view s1 k' = vt_view s k'" for k'
    by (simp add: s1_def upd_g_def upd_k_def vt_view_def guest_of_def)
  obtain s' where s': "set_ext_irq_pending k 1 s1 = Some s'" "quiet s1 s'" "timers s' = timers s1"
    "vt_view s' = vt_view s1"
    using set_ext_irq_pending_runs [of s1 k 1] g1 by auto
  have q: "quiet s s'" using q1 s' quiet_trans by blast
  then have sh: "kshape s' = kshape s" by (simp add: quiet_def)
  have per: "vt_period s' k' = vt_period s k'" for k'
    using other [of k'] g1 g fid by (cases "k' = k") (auto simp: vt_period_def s'(4) vt_view_def)
  have others: "action_ok s' b" if "action_ok s b" "b \<noteq> a" for b
    using that(1) action_ok_cong [OF sh, of b] that(2) other s'(4) VtimerHandle by auto
  have own: "action_ok s' a" if "vt_interval (g_vtimer g) > 0"
  proof -
    have "vt_view s' k = Some (g_vclock (f g), g_vtimer (f g))" using g1 s'(4) by (simp add: vt_view_def)
    then obtain g2 where "guest_of s' k = Some g2" "g_vclock g2 = g_vclock (f g)" "g_vtimer g2 = g_vtimer (f g)"
      by (auto simp: vt_view_def)
    with that g assms VtimerHandle kshape_magic [OF sh, of k] show ?thesis by (simp add: f_def)
  qed
  have "(\<exists>i > 0. vt_period s k = Some i) \<longleftrightarrow> vt_interval (g_vtimer g) > 0"
    using g by (auto simp: vt_period_def vt_view_def)
  then have "action_ok s' b" if "action_ok s b"
    "b \<noteq> a \<or> (\<forall>k. a = VtimerHandle k \<longrightarrow> (\<exists>i > 0. vt_period s k = Some i))" for b
    using that others own VtimerHandle by blast
  moreover have "run_action this a s = Some s'"
    using assms g s'(1) VtimerHandle
    by (simp add: vtimer_handle_def CHECK_KTHR_SANITY_def s1_def f_def Let_def vt_defs split: if_splits)
  moreover have "timers s' = timers s" "vt_period s' = vt_period s" using s'(3) q1 per by auto
  ultimately show ?thesis using q by blast
qed

lemma upd_timer_views [simp]:
  "action_ok (upd_timer t f s) a = action_ok s a" "vt_period (upd_timer t f s) = vt_period s"
  by (cases a) (simp_all add: upd_timer_def guest_of_def vt_period_def vt_view_def fun_eq_iff)

lemma inj_action_of: "action_of t = action_of t' \<Longrightarrow> t = t' \<or> action_of t = SetSchedPending"
  by (cases t; cases t') auto

text \<open>
  The invariant of the timers: the handler of an armed timer can run, the timer behind an
  execution timer has its period, and no armed timer has a period above \<open>2 ^ 62\<close> microseconds, so
  that with a clock below as much no deadline overflows.
\<close>

definition timer_ready :: "kstate \<Rightarrow> tref \<Rightarrow> bool" where
  "timer_ready s t \<longleftrightarrow> (armed (timers s t) \<longrightarrow> action_ok s (action_of t) \<and>
     (\<forall>k. t = TVtimer k \<longrightarrow> vt_period s k = Some (kt_interval (timers s t))) \<and>
     - (2 ^ 63) \<le> kt_value (timers s t) \<and> kt_interval (timers s t) \<le> 2 ^ 62)"

definition timers_inv :: "kstate \<Rightarrow> bool" where
  "timers_inv s \<longleftrightarrow> timers_wf s \<and> (\<forall>t. timer_ready s t)"

definition step_next :: "int \<Rightarrow> ktimer \<Rightarrow> int \<Rightarrow> int" where
  "step_next now k n = (if armed (fire now k) then min (kt_value (fire now k)) n else n)"

lemma fire_fields [simp]:
  "kt_interval (fire now k) = kt_interval k" "kt_action (fire now k) = kt_action k"
  by (simp_all add: fire_def)

lemma fire_armed: "armed (fire now k) \<longleftrightarrow> armed k \<and> (now < kt_value k \<or> 0 < kt_interval k)"
  by (auto simp: fire_def)

lemma traverse_step_runs:
  assumes inv: "timers_inv s" and early: "now < 2 ^ 62"
  shows "\<exists>s'. traverse_step this now t (n, s) = Some (step_next now (timers s t) n, s') \<and>
    timers s' = (timers s)(t := fire now (timers s t)) \<and> quiet s s' \<and> timers_inv s'"
proof (cases "armed (timers s t) \<and> kt_value (timers s t) \<le> now")
  case False
  then show ?thesis
    using inv by (auto simp: traverse_step_def step_next_def fire_def armed_def min_def)
next
  case True
  have wf: "timers_wf s" and ok: "action_ok s (action_of t)"
    and per: "\<And>k. t = TVtimer k \<Longrightarrow> vt_period s k = Some (kt_interval (timers s t))"
    and rng: "- (2 ^ 63) \<le> kt_value (timers s t)" "kt_interval (timers s t) \<le> 2 ^ 62"
    using inv True by (auto simp: timers_inv_def timer_ready_def)
  have cu: "0 < kt_interval (timers s t) \<Longrightarrow> catch_up (kt_value (timers s t)) (kt_interval (timers s t)) now =
      Some (next_expiry (kt_value (timers s t)) (kt_interval (timers s t)) now)"
    using True rng early by (intro catch_up_eq) simp_all
  have rng2: "- (2 ^ 63) \<le> kt_value (fire now (timers s t))"
    using rng(1) next_expiry_bounds(1) [of "kt_interval (timers s t)" "kt_value (timers s t)" now] True
    by (auto simp: fire_def)
  obtain s1 where s1: "(case kt_action (timers s t) of Some a \<Rightarrow> run_action this a s | None \<Rightarrow> Some s) = Some s1"
    "quiet s s1" "timers s1 = timers s" "vt_period s1 = vt_period s"
    "\<And>b. action_ok s b \<Longrightarrow> b \<noteq> action_of t \<or> (\<forall>k. action_of t = VtimerHandle k \<longrightarrow> (\<exists>i > 0. vt_period s k = Some i)) \<Longrightarrow>
       action_ok s1 b"
  proof (cases "kt_action (timers s t)")
    case None
    with that [of s] show thesis by simp
  next
    case (Some a)
    then have "a = action_of t" using wf by (metis option.distinct(1) option.inject timers_wf_def)
    with Some that run_action_runs [OF ok, of this] show thesis by auto
  qed
  let ?f = "\<lambda>_. fire now (timers s t)"
  have "traverse_step this now t (n, s) = Some (step_next now (timers s t) n, upd_timer t ?f s1)"
    using True by (auto simp: traverse_step_def step_next_def armed_def [symmetric] s1 fire_def Let_def
        min_def upd_timer_def cu)
  moreover have "timers (upd_timer t ?f s1) = (timers s)(t := fire now (timers s t))" by (simp add: s1)
  moreover have "quiet s (upd_timer t ?f s1)" using s1(2) quiet_upd_timer quiet_trans by blast
  moreover have "timers_inv (upd_timer t ?f s1)"
    unfolding timers_inv_def
  proof (intro conjI allI)
    show "timers_wf (upd_timer t ?f s1)" using wf by (simp add: timers_wf_def s1)
    fix t'
    show "timer_ready (upd_timer t ?f s1) t'"
    proof (cases "t' = t")
      case True2: True
      have "\<forall>k. action_of t = VtimerHandle k \<longrightarrow> (\<exists>i > 0. vt_period s k = Some i)"
        if "0 < kt_interval (timers s t)" using that per by (cases t) auto
      then have "action_ok s1 (action_of t)" if "0 < kt_interval (timers s t)"
        using that s1(5) [OF ok] by blast
      with True True2 per rng(2) rng2 show ?thesis by (auto simp: timer_ready_def fire_armed s1)
    next
      case False
      have "action_ok s1 (action_of t')" if "action_ok s (action_of t')"
        using that False inj_action_of [of t' t] s1(5) [of "action_of t'"] by (cases "action_of t' = action_of t") auto
      with False inv show ?thesis by (simp add: timers_inv_def timer_ready_def s1)
    qed
  qed
  ultimately show ?thesis by blast
qed

lemma traverse_list:
  assumes "timers_inv s" "distinct ts" "now < 2 ^ 62"
  shows "\<exists>s'. foldM (traverse_step this now) ts (n, s) =
      Some (fold (\<lambda>t. step_next now (timers s t)) ts n, s') \<and>
    timers s' = (\<lambda>t. if t \<in> set ts then fire now (timers s t) else timers s t) \<and> quiet s s' \<and>
    timers_inv s'"
  using assms
proof (induction ts arbitrary: n s)
  case (Cons t ts)
  obtain s1 where s1: "traverse_step this now t (n, s) = Some (step_next now (timers s t) n, s1)"
    "timers s1 = (timers s)(t := fire now (timers s t))" "quiet s s1" "timers_inv s1"
    using traverse_step_runs [OF Cons.prems(1,3), of this t n] by auto
  have tl: "\<And>t'. t' \<in> set ts \<Longrightarrow> timers s1 t' = timers s t'" using s1(2) Cons.prems(2) by auto
  have "\<exists>s'. foldM (traverse_step this now) ts (step_next now (timers s t) n, s1) =
      Some (fold (\<lambda>t. step_next now (timers s1 t)) ts (step_next now (timers s t) n), s') \<and>
    timers s' = (\<lambda>t. if t \<in> set ts then fire now (timers s1 t) else timers s1 t) \<and> quiet s1 s' \<and>
    timers_inv s'"
    by (rule Cons.IH) (use Cons.prems s1 in simp_all)
  moreover have "fold (\<lambda>t. step_next now (timers s1 t)) ts m = fold (\<lambda>t. step_next now (timers s t)) ts m" for m
    by (rule fold_cong) (simp_all add: tl)
  moreover have "(\<lambda>t'. if t' \<in> set ts then fire now (timers s1 t') else timers s1 t') =
      (\<lambda>t'. if t' \<in> set (t # ts) then fire now (timers s t') else timers s t')"
    using s1(2) tl Cons.prems(2) by (auto simp: fun_eq_iff)
  ultimately show ?case using s1 quiet_trans [OF s1(3)] by auto
qed auto

lemma Min_insert_min: "finite S \<Longrightarrow> Min (insert n (insert v S)) = Min (insert (min v n) (S :: int set))"
  by (cases "S = {}") (simp_all add: min.assoc min.left_commute min.commute)

lemma fold_step_next:
  "fold (\<lambda>t. step_next now (f t)) ts n =
     Min (insert n {kt_value (fire now (f t)) | t. t \<in> set ts \<and> armed (fire now (f t))})"
proof (induction ts arbitrary: n)
  case (Cons t ts)
  let ?S = "\<lambda>ts. {kt_value (fire now (f t)) | t. t \<in> set ts \<and> armed (fire now (f t))}"
  have "finite (?S ts)" by (rule finite_subset [of _ "(\<lambda>t. kt_value (fire now (f t))) ` set ts"]) auto
  then have "Min (insert n (insert v (?S ts))) = Min (insert (min v n) (?S ts))" for v
    by (rule Min_insert_min)
  moreover have "?S (t # ts) = (if armed (fire now (f t)) then insert (kt_value (fire now (f t))) (?S ts) else ?S ts)" by auto
  ultimately show ?case using Cons by (simp add: step_next_def del: Min_insert)
qed simp

lemma traverse_queue:
  assumes "timers_inv s" "dl_rep (theap s) l ts" "now < 2 ^ 62"
  shows "\<exists>s'. traverse_ktimer_queue this l now s =
      Some (Min (insert MAX_PRTOSTIME {kt_value (timers s' t) | t. t \<in> set ts \<and> armed (timers s' t)}), s') \<and>
    timers s' = (\<lambda>t. if t \<in> set ts then fire now (timers s t) else timers s t) \<and> quiet s s' \<and>
    timers_inv s'"
proof -
  have "distinct ts" using assms(2) by (simp add: dl_rep_def)
  from traverse_list [OF assms(1) this assms(3), of this MAX_PRTOSTIME] obtain s' where
    s': "foldM (traverse_step this now) ts (MAX_PRTOSTIME, s) =
      Some (fold (\<lambda>t. step_next now (timers s t)) ts MAX_PRTOSTIME, s')"
    "timers s' = (\<lambda>t. if t \<in> set ts then fire now (timers s t) else timers s t)" "quiet s s'" "timers_inv s'"
    by blast
  have "{kt_value (fire now (timers s t)) | t. t \<in> set ts \<and> armed (fire now (timers s t))} =
      {kt_value (timers s' t) | t. t \<in> set ts \<and> armed (timers s' t)}"
    unfolding s'(2) by (rule Collect_cong) (metis (mono_tags, lifting))
  then show ?thesis
    using s' for_each_rep [OF assms(2)] by (simp add: traverse_ktimer_queue_def fold_step_next)
qed

definition queues_ok :: "nat \<Rightarrow> kstate \<Rightarrow> bool" where
  "queues_ok this s \<longleftrightarrow> (\<exists>ts. dl_rep (theap s) (GlobalTimers this) ts) \<and>
     (guest_of s (current_kthread (cpus s this)) \<noteq> None \<longrightarrow>
        (\<exists>ts. dl_rep (theap s) (LocalTimers (current_kthread (cpus s this))) ts))"

text \<open>The timers processor \<open>this\<close> waits for: its own and those of the thread it runs.\<close>

definition awaited :: "nat \<Rightarrow> kstate \<Rightarrow> tref set" where
  "awaited this s = {t. dn_list (nodes (theap s) t) = Some (GlobalTimers this)} \<union>
     (if guest_of s (current_kthread (cpus s this)) \<noteq> None
      then {t. dn_list (nodes (theap s) t) = Some (LocalTimers (current_kthread (cpus s this)))} else {})"

lemma awaited_quiet: "quiet s s' \<Longrightarrow> awaited this s' = awaited this s"
  using kshape_None [of s' s] by (simp add: quiet_def awaited_def)

lemma queues_ok_quiet: "quiet s s' \<Longrightarrow> queues_ok this s' = queues_ok this s"
  using kshape_None [of s' s] by (simp add: quiet_def queues_ok_def)

lemma timers_inv_cong:
  assumes "timers s' = timers s" "kshape s' = kshape s" "vt_view s' = vt_view s"
  shows "timers_inv s' = timers_inv s"
  using assms action_ok_cong [OF assms(2)]
  by (simp add: timers_inv_def timers_wf_def timer_ready_def vt_period_def)

lemma Min_deadlines:
  fixes f :: "tref \<Rightarrow> ktimer"
  shows "(\<And>t. t \<in> set ts \<Longrightarrow> armed (f t) \<Longrightarrow> now < kt_value (f t)) \<Longrightarrow> now < m \<Longrightarrow>
      now < Min (insert m {kt_value (f t) | t. t \<in> set ts \<and> armed (f t)})"
    and "t \<in> set ts \<Longrightarrow> armed (f t) \<Longrightarrow>
      Min (insert m {kt_value (f t) | t. t \<in> set ts \<and> armed (f t)}) \<le> kt_value (f t)"
proof -
  have "finite {kt_value (f t) | t. t \<in> set ts \<and> armed (f t)}"
    by (rule finite_subset [of _ "(\<lambda>t. kt_value (f t)) ` set ts"]) auto
  then show "(\<And>t. t \<in> set ts \<Longrightarrow> armed (f t) \<Longrightarrow> now < kt_value (f t)) \<Longrightarrow> now < m \<Longrightarrow>
      now < Min (insert m {kt_value (f t) | t. t \<in> set ts \<and> armed (f t)})"
    and "t \<in> set ts \<Longrightarrow> armed (f t) \<Longrightarrow>
      Min (insert m {kt_value (f t) | t. t \<in> set ts \<and> armed (f t)}) \<le> kt_value (f t)"
    by (auto intro: Min_le)
qed

lemma handler_round_runs:
  assumes inv: "timers_inv s" and q: "queues_ok this s" and early: "clk s (clk_pos s) < 2 ^ 62"
    and pos: "0 \<le> clk s (clk_pos s)"
  shows "\<exists>n s'. handler_round this s = Some (n, s') \<and> timers_inv s' \<and> queues_ok this s' \<and>
    clk s' = clk s \<and> clk_pos s' = Suc (clk_pos s) \<and> clk s (clk_pos s) < n \<and>
    time_flags (cpus s' this) AND NEXT_ACT_IS_VALID = 0 \<and> hw_timer_prog s' = hw_timer_prog s \<and>
    theap s' = theap s \<and> kshape s' = kshape s \<and>
    current_kthread (cpus s' this) = current_kthread (cpus s this) \<and> calm s s' \<and>
    (\<forall>t \<in> awaited this s'. armed (timers s' t) \<longrightarrow> n \<le> kt_value (timers s' t))"
proof -
  let ?now = "clk s (clk_pos s)" and ?k = "current_kthread (cpus s this)"
  have now: "?now < MAX_PRTOSTIME" "0 \<le> ?now" using early pos by (simp_all add: MAX_PRTOSTIME_def)
  define s0 where "s0 = (upd_cpu this (\<lambda>i. i\<lparr>time_flags := time_flags i AND NOT NEXT_ACT_IS_VALID\<rparr>) s)
      \<lparr>clk_pos := Suc (clk_pos s)\<rparr>"
  have s0: "timers s0 = timers s" "theap s0 = theap s" "clk s0 = clk s" "clk_pos s0 = Suc (clk_pos s)"
    "hw_timer_prog s0 = hw_timer_prog s" "current_kthread (cpus s0 this) = ?k" "guest_of s0 = guest_of s"
    "time_flags (cpus s0 this) AND NEXT_ACT_IS_VALID = 0" "vt_view s0 = vt_view s"
    by (auto simp: s0_def upd_cpu_def guest_of_def fun_eq_iff and.assoc vt_view_def)
  have k0: "kshape s0 = kshape s" by (simp add: s0_def frame_simps)
  have i0: "timers_inv s0" using timers_inv_cong [OF s0(1) k0 s0(9)] inv by simp
  have cm0: "calm s s0" using s0 k0 by (simp add: calm_def) (simp add: s0_def upd_cpu_def)
  obtain gts where gts: "dl_rep (theap s0) (GlobalTimers this) gts" using q by (auto simp: queues_ok_def s0)
  let ?S = "\<lambda>s ts. {kt_value (timers s t) | t. t \<in> set ts \<and> armed (timers s t)}"
  obtain s1 where s1: "traverse_ktimer_queue this (GlobalTimers this) ?now s0 =
      Some (Min (insert MAX_PRTOSTIME (?S s1 gts)), s1)"
    "timers s1 = (\<lambda>t. if t \<in> set gts then fire ?now (timers s0 t) else timers s0 t)" "quiet s0 s1" "timers_inv s1"
    using traverse_queue [OF i0 gts early] by blast
  define n1 where "n1 = Min (insert MAX_PRTOSTIME (?S s1 gts))"
  have n1: "?now < n1" "\<And>t. t \<in> set gts \<Longrightarrow> armed (timers s1 t) \<Longrightarrow> n1 \<le> kt_value (timers s1 t)"
    unfolding n1_def by (rule Min_deadlines; use now fire_late s1(2) in auto)+
  have g: "guest_of s1 ?k = None \<longleftrightarrow> guest_of s ?k = None"
    using s1(3) kshape_None [of s1 s0 ?k] s0 by (simp add: quiet_def)
  have aw: "awaited this s1 = set gts \<union> (if guest_of s ?k \<noteq> None
      then {t. dn_list (nodes (theap s) t) = Some (LocalTimers ?k)} else {})"
    using gts g s1(3) s0 by (auto simp: awaited_def quiet_def dl_rep_def)
  have c1: "current_kthread (cpus s1 this) = ?k" "clk s1 = clk s" "clk_pos s1 = Suc (clk_pos s)"
    "time_flags (cpus s1 this) AND NEXT_ACT_IS_VALID = 0" "hw_timer_prog s1 = hw_timer_prog s"
    "theap s1 = theap s" "kshape s1 = kshape s" "queues_ok this s1"
    using s1(3) s0 k0 q queues_ok_quiet [OF s1(3), of this] by (simp_all add: quiet_def queues_ok_def)
  have cm1: "calm s s1" using cm0 quiet_calm [OF s1(3)] calm_trans by blast
  have r0: "get_sys_clock_usec (upd_cpu this (\<lambda>i. i\<lparr>time_flags := time_flags i AND NOT NEXT_ACT_IS_VALID\<rparr>) s) = (?now, s0)"
    by (simp add: get_sys_clock_usec_def s0_def upd_cpu_def)
  have start: "handler_round this s = (if guest_of s1 ?k \<noteq> None then do {
         (nl, s) \<leftarrow> traverse_ktimer_queue this (LocalTimers ?k) ?now s1;
         Some (if nl \<noteq> 0 \<and> nl < n1 then nl else n1, s) } else Some (n1, s1))"
    unfolding handler_round_def Let_def r0 by (simp add: s1(1) n1_def [symmetric] c1)
  show ?thesis
  proof (cases "guest_of s ?k = None")
    case True
    then show ?thesis using start g s1(4) n1 aw c1 cm1 by simp
  next
    case False
    then obtain lts where lts: "dl_rep (theap s1) (LocalTimers ?k) lts"
      using q s1(3) s0 by (auto simp: queues_ok_def quiet_def)
    obtain s2 where s2: "traverse_ktimer_queue this (LocalTimers ?k) ?now s1 =
        Some (Min (insert MAX_PRTOSTIME (?S s2 lts)), s2)"
      "timers s2 = (\<lambda>t. if t \<in> set lts then fire ?now (timers s1 t) else timers s1 t)" "quiet s1 s2" "timers_inv s2"
      using traverse_queue [OF s1(4) lts early] by blast
    define n2 where "n2 = Min (insert MAX_PRTOSTIME (?S s2 lts))"
    have n2: "?now < n2" "\<And>t. t \<in> set lts \<Longrightarrow> armed (timers s2 t) \<Longrightarrow> n2 \<le> kt_value (timers s2 t)"
      unfolding n2_def by (rule Min_deadlines; use now fire_late s2(2) in auto)+
    have "set gts \<inter> set lts = {}"
      using gts lts s1(3) by (intro dl_rep_disjoint [of "theap s0"]) (auto simp: quiet_def)
    then have "\<And>t. t \<in> set gts \<Longrightarrow> timers s2 t = timers s1 t" by (auto simp: s2(2))
    moreover have "awaited this s2 = set gts \<union> set lts"
      using aw awaited_quiet [OF s2(3)] False lts s1(3) s0 by (auto simp: dl_rep_def quiet_def)
    moreover have "handler_round this s = Some (min n2 n1, s2)"
      using start g False s2(1) n2(1) now unfolding n2_def by (auto simp: min_def)
    moreover have "current_kthread (cpus s2 this) = ?k" "clk s2 = clk s" "clk_pos s2 = Suc (clk_pos s)"
      "time_flags (cpus s2 this) AND NEXT_ACT_IS_VALID = 0" "hw_timer_prog s2 = hw_timer_prog s"
      "theap s2 = theap s" "kshape s2 = kshape s" "queues_ok this s2"
      using s2(3) c1 queues_ok_quiet [OF s2(3), of this] by (simp_all add: quiet_def)
    moreover have "calm s s2" using cm1 quiet_calm [OF s2(3)] calm_trans by blast
    moreover have "?now < min n2 n1" using n1 n2 by simp
    ultimately show ?thesis using n1(2) n2(2) s2(4) by (auto simp: min_le_iff_disj)
  qed
qed

section \<open>Programming the hardware timer\<close>

text \<open>
  The processor is set to wake up in time: the hardware timer has just been programmed and
  expires no later than the earliest awaited deadline, or one minimal interval from now.
\<close>

definition wakeup_set :: "hw_timer_limits \<Rightarrow> nat \<Rightarrow> int \<Rightarrow> int \<Rightarrow> kstate \<Rightarrow> bool" where
  "wakeup_set hw this now d s \<longleftrightarrow>
     time_flags (cpus s this) AND NEXT_ACT_IS_VALID \<noteq> 0 \<and> time_next_act (cpus s this) = now + d \<and>
     d \<le> max_interval hw \<and>
     (\<forall>t \<in> awaited this s. armed (timers s t) \<longrightarrow> now + d \<le> max (kt_value (timers s t)) (now + min_interval hw))"

definition clock_ok :: "kstate \<Rightarrow> int \<Rightarrow> bool" where
  "clock_ok s B \<longleftrightarrow> mono (clk s) \<and> 0 \<le> clk s 0 \<and> (\<forall>i. clk s i \<le> B) \<and> B < 2 ^ 62"

lemma valid_neq_0 [simp]: "NEXT_ACT_IS_VALID \<noteq> 0"
  by (simp add: NEXT_ACT_IS_VALID_def)

lemma set_hw_timer_direct:
  assumes inv: "timers_inv s" and n: "0 < n" "clk s (clk_pos s) \<le> n"
    and due: "\<And>t. t \<in> awaited this s \<Longrightarrow> armed (timers s t) \<Longrightarrow> n \<le> kt_value (timers s t)"
    and flag: "time_flags (cpus s this) AND NEXT_ACT_IS_VALID = 0"
    and hw: "min_interval hw \<le> max_interval hw"
  shows "\<exists>s' d. set_hw_timer hw this fuel n s = Some s' \<and> timers s' = timers s \<and> timers_inv s' \<and>
    kshape s' = kshape s \<and> hw_timer_prog s' = hw_timer_prog s @ [(this, d)] \<and>
    clk s' = clk s \<and> clk_pos s' = Suc (clk_pos s) \<and> theap s' = theap s \<and>
    current_kthread (cpus s' this) = current_kthread (cpus s this) \<and> calm s s' \<and>
    wakeup_set hw this (clk s (clk_pos s)) d s'"
proof -
  let ?now = "clk s (clk_pos s)"
  define d where "d = min (max (n - ?now) (min_interval hw)) (max_interval hw)"
  define s' where "s' = (upd_cpu this (\<lambda>i. i\<lparr>time_flags := time_flags i OR NEXT_ACT_IS_VALID,
      time_next_act := d + ?now\<rparr>) s)\<lparr>clk_pos := Suc (clk_pos s), hw_timer_prog := hw_timer_prog s @ [(this, d)]\<rparr>"
  have eq: "set_hw_timer hw this fuel n s = Some s'"
    using n flag hw by (subst set_hw_timer.simps)
      (simp add: get_sys_clock_usec_def Let_def upd_cpu_def s'_def d_def min_def max_def)
  have f: "timers s' = timers s" "theap s' = theap s" "guest_of s' = guest_of s" "clk s' = clk s"
    "current_kthread (cpus s' this) = current_kthread (cpus s this)" "vt_view s' = vt_view s"
    "clk_pos s' = Suc (clk_pos s)" "hw_timer_prog s' = hw_timer_prog s @ [(this, d)]"
    "time_flags (cpus s' this) = time_flags (cpus s this) OR NEXT_ACT_IS_VALID"
    "time_next_act (cpus s' this) = d + ?now"
    by (simp_all add: s'_def upd_cpu_def guest_of_def vt_view_def fun_eq_iff)
  have k: "kshape s' = kshape s" by (simp add: s'_def frame_simps)
  have "awaited this s' = awaited this s" by (simp add: awaited_def f)
  moreover have "?now + d \<le> max (kt_value (timers s t)) (?now + min_interval hw)"
    if "t \<in> awaited this s" "armed (timers s t)" for t
    using due [OF that] by (auto simp: d_def)
  moreover have "d \<le> max_interval hw" by (simp add: d_def)
  ultimately have "wakeup_set hw this ?now d s'"
    by (simp add: wakeup_set_def f)
  moreover have "timers_inv s'" using timers_inv_cong [OF f(1) k f(6)] inv by simp
  moreover have "calm s s'" using f k by (simp add: calm_def) (simp add: s'_def upd_cpu_def)
  ultimately show ?thesis using eq f k by blast
qed

lemma handler_total:
  assumes "timers_inv s" "queues_ok this s" "clock_ok s B" "min_interval hw \<le> max_interval hw"
    and "2 * nat (B - clk s (clk_pos s)) < fuel"
  shows "\<exists>s' d. timer_handler hw this fuel s = Some s' \<and> timers_inv s' \<and> queues_ok this s' \<and>
    calm s s' \<and> hw_timer_prog s' = hw_timer_prog s @ [(this, d)] \<and>
    wakeup_set hw this (clk s (clk_pos s' - 1)) d s'"
  using assms
proof (induction fuel arbitrary: s rule: less_induct)
  case (less fuel)
  have B: "clk s i \<le> B" "B < 2 ^ 62" "mono (clk s)" for i
    using less.prems(3) by (auto simp: clock_ok_def)
  have pos: "0 \<le> clk s i" for i
    using less.prems(3) monoD [OF B(3), of 0 i] by (auto simp: clock_ok_def)
  obtain n s1 where r: "handler_round this s = Some (n, s1)" "timers_inv s1" "queues_ok this s1"
    "clk s1 = clk s" "clk_pos s1 = Suc (clk_pos s)" "clk s (clk_pos s) < n"
    "time_flags (cpus s1 this) AND NEXT_ACT_IS_VALID = 0" "hw_timer_prog s1 = hw_timer_prog s"
    "calm s s1" "\<forall>t \<in> awaited this s1. armed (timers s1 t) \<longrightarrow> n \<le> kt_value (timers s1 t)"
    using handler_round_runs [OF less.prems(1,2) order_le_less_trans [OF B(1,2)] pos] by blast
  obtain f1 where f1: "fuel = Suc f1" using less.prems(5) by (cases fuel) auto
  have n0: "0 < n" using r(6) pos [of "clk_pos s"] by simp
  show ?case
  proof (cases "clk s1 (clk_pos s1) \<le> n")
    case True
    obtain s' d where s': "set_hw_timer hw this f1 n s1 = Some s'" "timers_inv s'" "theap s' = theap s1"
      "kshape s' = kshape s1" "hw_timer_prog s' = hw_timer_prog s1 @ [(this, d)]" "clk s' = clk s1"
      "clk_pos s' = Suc (clk_pos s1)" "current_kthread (cpus s' this) = current_kthread (cpus s1 this)" "calm s1 s'"
      "wakeup_set hw this (clk s1 (clk_pos s1)) d s'"
      using set_hw_timer_direct [OF r(2) n0 True _ r(7) less.prems(4), of f1] r(10) by blast
    have "queues_ok this s'" using r(3) s' kshape_None [OF s'(4)] by (simp add: queues_ok_def)
    moreover have "calm s s'" using r(9) s'(9) calm_trans by blast
    ultimately show ?thesis using s' r f1 by (auto simp: timer_handler.simps)
  next
    case False
    let ?s = "(upd_cpu this (\<lambda>i. i\<lparr>time_flags := time_flags i OR NEXT_ACT_IS_VALID, time_next_act := n\<rparr>) s1)
       \<lparr>clk_pos := Suc (clk_pos s1)\<rparr>"
    have late: "clk s (clk_pos s) + 2 \<le> clk s (Suc (Suc (clk_pos s)))"
      using False r(4-6) monoD [OF B(3), of "Suc (clk_pos s)" "Suc (Suc (clk_pos s))"] by simp
    then have "B - clk s (Suc (Suc (clk_pos s))) \<le> B - clk s (clk_pos s) - 2" by simp
    then have small: "2 * nat (B - clk s (Suc (Suc (clk_pos s)))) + 4 \<le> 2 * nat (B - clk s (clk_pos s))"
      using B(1) [of "Suc (Suc (clk_pos s))"] late by simp
    then obtain f2 where f2: "f1 = Suc f2" using less.prems(5) f1 by (cases f1) auto
    have v: "vt_view ?s = vt_view s1" "guest_of ?s = guest_of s1"
      by (simp_all add: vt_view_def guest_of_def upd_cpu_def fun_eq_iff)
    have k: "kshape ?s = kshape s1" by (simp add: frame_simps)
    have "timers_inv ?s" using timers_inv_cong [OF _ k v(1)] r(2) by (simp add: upd_cpu_def)
    moreover have "queues_ok this ?s" using r(3) by (simp add: queues_ok_def v(2)) (simp add: upd_cpu_def)
    moreover have "clock_ok ?s B" using less.prems(3) r(4) by (simp add: clock_ok_def upd_cpu_def)
    ultimately obtain s' d where s': "timer_handler hw this f2 ?s = Some s'" "timers_inv s'" "queues_ok this s'"
      "calm ?s s'" "hw_timer_prog s' = hw_timer_prog ?s @ [(this, d)]"
      "wakeup_set hw this (clk ?s (clk_pos s' - 1)) d s'"
      using less.IH [of f2 ?s] less.prems(4,5) f1 f2 small r(4,5) by (auto simp: upd_cpu_def)
    have "set_hw_timer hw this f1 n s1 = timer_handler hw this f2 ?s"
      using n0 r(7) False f2 by (subst set_hw_timer.simps) (simp add: get_sys_clock_usec_def upd_cpu_def Let_def)
    moreover have "calm s1 ?s" using k by (simp add: calm_def) (simp add: upd_cpu_def)
    then have "calm s s'" using r(9) s'(4) calm_trans by blast
    ultimately show ?thesis using s' r(1,4,8) f1 by (auto simp: timer_handler.simps upd_cpu_def)
  qed
qed

lemma set_hw_timer_total:
  assumes inv: "timers_inv s" "queues_ok this s" "clock_ok s B" "min_interval hw \<le> max_interval hw"
    and n: "0 \<le> n" and fuel: "2 * nat (B - clk s (clk_pos s)) + 1 < fuel"
  shows "\<exists>s'. set_hw_timer hw this fuel n s = Some s' \<and> timers_inv s' \<and> queues_ok this s' \<and> calm s s'"
proof (cases "n = 0 \<or> (time_flags (cpus s this) AND NEXT_ACT_IS_VALID \<noteq> 0 \<and> n \<ge> time_next_act (cpus s this))")
  case True
  then show ?thesis using inv n by (subst set_hw_timer.simps) auto
next
  case False
  let ?now = "clk s (clk_pos s)"
  define s1 where "s1 = (upd_cpu this (\<lambda>i. i\<lparr>time_flags := time_flags i OR NEXT_ACT_IS_VALID, time_next_act := n\<rparr>) s)
       \<lparr>clk_pos := Suc (clk_pos s)\<rparr>"
  have v: "vt_view s1 = vt_view s" "guest_of s1 = guest_of s" "timers s1 = timers s"
    by (simp_all add: s1_def vt_view_def guest_of_def upd_cpu_def fun_eq_iff)
  have k: "kshape s1 = kshape s" by (simp add: s1_def frame_simps)
  have cm: "calm s s1" using k by (simp add: calm_def) (simp add: s1_def upd_cpu_def)
  have i1: "timers_inv s1" using timers_inv_cong [OF v(3) k v(1)] inv(1) by simp
  have q1: "queues_ok this s1" using inv(2) cm by (simp add: queues_ok_def v(2) calm_def)
  have ck1: "clock_ok s1 B" using inv(3) cm by (simp add: clock_ok_def calm_def)
  show ?thesis
  proof (cases "?now \<le> n")
    case True
    define d where "d = min (max (n - ?now) (min_interval hw)) (max_interval hw)"
    define s2 where "s2 = (upd_cpu this (\<lambda>i. i\<lparr>time_next_act := d + ?now\<rparr>) s1)
       \<lparr>hw_timer_prog := hw_timer_prog s @ [(this, d)]\<rparr>"
    have "set_hw_timer hw this fuel n s = Some s2"
      using False True n inv(4) by (subst set_hw_timer.simps)
        (auto simp: get_sys_clock_usec_def Let_def upd_cpu_def s2_def s1_def d_def min_def max_def)
    moreover have w: "vt_view s2 = vt_view s1" "guest_of s2 = guest_of s1" "timers s2 = timers s1"
      by (simp_all add: s2_def vt_view_def guest_of_def upd_cpu_def fun_eq_iff)
    moreover have k2: "kshape s2 = kshape s1" by (simp add: s2_def frame_simps)
    moreover have cm2: "calm s1 s2" using k2 by (simp add: calm_def) (simp add: s2_def upd_cpu_def)
    moreover have "timers_inv s2" using timers_inv_cong [OF w(3) k2 w(1)] i1 by simp
    moreover have "queues_ok this s2" using q1 cm2 by (simp add: queues_ok_def w(2) calm_def)
    ultimately show ?thesis using cm calm_trans by blast
  next
    case late: False
    obtain f where f: "fuel = Suc f" using fuel by (cases fuel) auto
    have "set_hw_timer hw this fuel n s = timer_handler hw this f s1"
      using False late n f by (subst set_hw_timer.simps)
        (auto simp: get_sys_clock_usec_def upd_cpu_def Let_def s1_def)
    moreover have "clk s (clk_pos s) \<le> clk s (Suc (clk_pos s))"
      using inv(3) by (auto simp: clock_ok_def intro: monoD)
    then have "2 * nat (B - clk s1 (clk_pos s1)) < f"
      using fuel f by (simp add: s1_def upd_cpu_def)
    from handler_total [OF i1 q1 ck1 inv(4) this] obtain s' where
      "timer_handler hw this f s1 = Some s'" "timers_inv s'" "queues_ok this s'" "calm s1 s'" by blast
    ultimately show ?thesis using cm calm_trans by auto
  qed
qed

section \<open>The example system\<close>

lemma demo_timers_inv: "timers_inv demo_state"
  by (auto simp: timers_inv_def timers_wf_def timer_ready_def armed_def demo_defs guest_of_def split: tref.splits)

lemma demo_queue_global: "dl_rep (theap demo_state) (GlobalTimers 0) [TSched 0]"
  by (auto simp: dl_rep_def dl_cycle_def demo_defs split: tref.splits)

lemma demo_queue_local: "dl_rep (theap demo_state) (LocalTimers k) [TVtimer k, TTimer k]"
  by (auto simp: dl_rep_def dl_cycle_def demo_defs split: tref.splits)

lemma demo_queues_ok: "queues_ok 0 demo_state"
  using demo_queue_global demo_queue_local by (auto simp: queues_ok_def)

lemma demo_clock_ok: "clock_ok demo_state 450"
  by (simp add: clock_ok_def demo_defs MAX_PRTOSTIME_def mono_def)

section \<open>Properties\<close>

text \<open>C15. While the clock and the periods of the armed timers stay below \<open>2 ^ 62\<close> microseconds (half
  the range of a time), traversing a timer queue at time \<open>now\<close> completes; afterwards every timer of the
  queue that is still armed expires after \<open>now\<close>, a periodic timer that was due has moved by whole
  periods to the first expiry after \<open>now\<close>, a one-shot timer that was due is disarmed, timers
  that were not due and timers of other queues are unchanged, and the result is the earliest
  deadline of the queue.\<close>

theorem traverse_ktimer_queue_correct:
  assumes "timers_inv s" and "dl_rep (theap s) l ts" and "now < 2 ^ 62"
  shows "\<exists>s' n. traverse_ktimer_queue this l now s = Some (n, s') \<and> timers_inv s' \<and>
    (\<forall>t \<in> set ts. armed (timers s' t) \<longrightarrow> now < kt_value (timers s' t) \<and> n \<le> kt_value (timers s' t)) \<and>
    (n = MAX_PRTOSTIME \<or> (\<exists>t \<in> set ts. armed (timers s' t) \<and> n = kt_value (timers s' t))) \<and>
    (\<forall>t \<in> set ts. armed (timers s t) \<and> kt_value (timers s t) \<le> now \<longrightarrow>
       (if 0 < kt_interval (timers s t)
        then armed (timers s' t) \<and> kt_value (timers s' t) \<le> now + kt_interval (timers s t) \<and>
          kt_interval (timers s t) dvd kt_value (timers s' t) - kt_value (timers s t)
        else \<not> armed (timers s' t))) \<and>
    (\<forall>t. t \<notin> set ts \<or> now < kt_value (timers s t) \<longrightarrow> timers s' t = timers s t)"
proof -
  obtain s' where s': "traverse_ktimer_queue this l now s =
      Some (Min (insert MAX_PRTOSTIME {kt_value (timers s' t) | t. t \<in> set ts \<and> armed (timers s' t)}), s')"
    "timers s' = (\<lambda>t. if t \<in> set ts then fire now (timers s t) else timers s t)" "timers_inv s'"
    using traverse_queue [OF assms] by blast
  let ?S = "{kt_value (timers s' t) | t. t \<in> set ts \<and> armed (timers s' t)}"
  have fin: "finite ?S" by (rule finite_subset [of _ "(\<lambda>t. kt_value (timers s' t)) ` set ts"]) auto
  then have mem: "Min (insert MAX_PRTOSTIME ?S) \<in> insert MAX_PRTOSTIME ?S" by (intro Min_in) auto
  have due: "if 0 < kt_interval (timers s t)
        then armed (timers s' t) \<and> kt_value (timers s' t) \<le> now + kt_interval (timers s t) \<and>
          kt_interval (timers s t) dvd kt_value (timers s' t) - kt_value (timers s t)
        else \<not> armed (timers s' t)"
    if "t \<in> set ts" "armed (timers s t)" "kt_value (timers s t) \<le> now" for t
    using that next_expiry_bounds [of "kt_interval (timers s t)" "kt_value (timers s t)" now]
    by (auto simp: s'(2) fire_def)
  have "now < kt_value (timers s' t) \<and> Min (insert MAX_PRTOSTIME ?S) \<le> kt_value (timers s' t)"
    if "t \<in> set ts" "armed (timers s' t)" for t
    using that fire_late [of now "timers s t"] Min_deadlines(2) [of t ts "timers s'" MAX_PRTOSTIME] by (simp add: s'(2))
  moreover have "timers s' t = timers s t" if "t \<notin> set ts \<or> now < kt_value (timers s t)" for t
    using that by (auto simp: s'(2) fire_def)
  moreover have "Min (insert MAX_PRTOSTIME ?S) = MAX_PRTOSTIME \<or>
      (\<exists>t \<in> set ts. armed (timers s' t) \<and> Min (insert MAX_PRTOSTIME ?S) = kt_value (timers s' t))"
    using mem by blast
  ultimately show ?thesis using s'(1,3) due by blast
qed

theorem traverse_ktimer_queue_correct_witness:
  "\<exists>s' n. traverse_ktimer_queue 0 (LocalTimers (KGuest 0 0)) 450 demo_state = Some (n, s') \<and>
     450 < kt_value (timers s' (TTimer (KGuest 0 0))) \<and>
     200 dvd kt_value (timers s' (TTimer (KGuest 0 0))) - 100"
proof -
  let ?t = "TTimer (KGuest 0 0)"
  have due: "armed (timers demo_state ?t) \<and> kt_value (timers demo_state ?t) \<le> 450"
    "kt_interval (timers demo_state ?t) = 200" "kt_value (timers demo_state ?t) = 100"
    by (simp_all add: armed_def demo_state_def KTIMER_ARMED_def)
  obtain s' n where r: "traverse_ktimer_queue 0 (LocalTimers (KGuest 0 0)) 450 demo_state = Some (n, s')"
    "\<forall>t \<in> set [TVtimer (KGuest 0 0), ?t]. armed (timers s' t) \<longrightarrow> 450 < kt_value (timers s' t) \<and> n \<le> kt_value (timers s' t)"
    "\<forall>t \<in> set [TVtimer (KGuest 0 0), ?t]. armed (timers demo_state t) \<and> kt_value (timers demo_state t) \<le> 450 \<longrightarrow>
       (if 0 < kt_interval (timers demo_state t)
        then armed (timers s' t) \<and> kt_value (timers s' t) \<le> 450 + kt_interval (timers demo_state t) \<and>
          kt_interval (timers demo_state t) dvd kt_value (timers s' t) - kt_value (timers demo_state t)
        else \<not> armed (timers s' t))"
    using traverse_ktimer_queue_correct [OF demo_timers_inv demo_queue_local, of 450 0 "KGuest 0 0"] by auto
  have "armed (timers s' ?t) \<and> 200 dvd kt_value (timers s' ?t) - 100"
    using r(3) due by simp
  with r(1,2) show ?thesis by auto
qed

text \<open>C14. The timer interrupt never loses a deadline: with a clock that stays below some bound, itself
  below \<open>2 ^ 62\<close>, and periods of the armed timers no longer than that, \<open>timer_handler\<close> returns, having programmed the hardware timer so that it expires no later than
  the earliest deadline of the timers the processor waits for (or one minimal interval from the
  last reading, if that is later), and never further away than the hardware allows.  The fuel of
  the mutual recursion is enough when it exceeds twice the time left before the bound.\<close>

theorem timer_handler_meets_deadlines:
  assumes "timers_inv s" "queues_ok this s" "clock_ok s B" "min_interval hw \<le> max_interval hw"
    and "2 * nat (B - clk s (clk_pos s)) < fuel"
  shows "\<exists>s' d. timer_handler hw this fuel s = Some s' \<and> timers_inv s' \<and> queues_ok this s' \<and>
    hw_timer_prog s' = hw_timer_prog s @ [(this, d)] \<and> wakeup_set hw this (clk s (clk_pos s' - 1)) d s'"
  using handler_total [OF assms] by blast

theorem timer_handler_meets_deadlines_witness:
  "\<exists>s' d. timer_handler \<lparr>min_interval = 2, max_interval = 1000000\<rparr> 0 1 demo_state = Some s' \<and>
     hw_timer_prog s' = [(0, d)] \<and> wakeup_set \<lparr>min_interval = 2, max_interval = 1000000\<rparr> 0 450 d s'"
  using timer_handler_meets_deadlines [OF demo_timers_inv demo_queues_ok demo_clock_ok,
      of "\<lparr>min_interval = 2, max_interval = 1000000\<rparr>" 1]
  by (auto simp: demo_state_def)

text \<open>C19. Disarming the execution timer of a running thread (\<open>set_timer\<close> with time zero) clears
  \<open>VTIMER_ARMED\<close> of the virtual timer but leaves the kernel timer behind it armed: when that timer
  becomes due, traversing it calls \<open>vtimer_handle\<close>, whose assertion on \<open>VTIMER_ARMED\<close> fails, and
  the hypervisor panics.\<close>

theorem disarmed_vtimer_panics:
  assumes "guest_of s k = Some g" and "vt_flags (g_vtimer g) = VTIMER_ARMED"
    and "armed (timers s (TVtimer k))" and "kt_action (timers s (TVtimer k)) = Some (VtimerHandle k)"
    and "kt_value (timers s (TVtimer k)) \<le> now"
  shows "\<exists>s'. disarm_vtimer k s = Some (0, s') \<and> armed (timers s' (TVtimer k)) \<and>
    traverse_step this now (TVtimer k) (n, s') = None"
  using assms
  by (auto simp: disarm_vtimer_def traverse_step_def armed_def vtimer_handle_def guest_of_def upd_g_def
      upd_k_def VTIMER_ARMED_def KTIMER_ARMED_def and.assoc bind_eq_Some_iff)

definition demo_vtimer_armed :: kstate where
  "demo_vtimer_armed = upd_g (KGuest 0 0) (\<lambda>g. g\<lparr>g_vtimer := \<lparr>vt_value = 100, vt_interval = 0, vt_flags = 1\<rparr>,
       g_vclock := \<lparr>vc_acc = 0, vc_delta = 0, vc_flags = 1\<rparr>\<rparr>)
     (upd_timer (TVtimer (KGuest 0 0)) (\<lambda>t. t\<lparr>kt_flags := 1\<rparr>) demo_state)"

theorem disarmed_vtimer_panics_witness:
  "\<exists>s'. disarm_vtimer (KGuest 0 0) demo_vtimer_armed = Some (0, s') \<and>
     traverse_step 0 450 (TVtimer (KGuest 0 0)) (MAX_PRTOSTIME, s') = None"
proof -
  obtain g where g: "guest_of demo_vtimer_armed (KGuest 0 0) = Some g" "vt_flags (g_vtimer g) = VTIMER_ARMED"
    by (simp add: demo_vtimer_armed_def demo_defs guest_of_def upd_g_def upd_k_def VTIMER_ARMED_def upd_timer_def)
  then show ?thesis
    using disarmed_vtimer_panics [OF g, of 450 0 MAX_PRTOSTIME]
    by (auto simp: demo_vtimer_armed_def demo_defs upd_timer_def upd_g_def upd_k_def armed_def KTIMER_ARMED_def)
qed

text \<open>C20. The conversions between clock ticks and microseconds are exact in 64-bit arithmetic whenever
  their result fits: splitting off the whole seconds avoids the product of the full time with the
  frequency, which overflows after a few hours, without losing precision.  All that must fit beside
  the result is the number of microseconds in a second times the frequency.\<close>

theorem time_units_exact:
  assumes "0 \<le> t" "t < 2 ^ 63" "0 < hz" "hz * 1000000 < 2 ^ 63"
  shows "(t * 1000000 div hz < 2 ^ 63 \<longrightarrow> hwtime_to_duration t hz = t * 1000000 div hz) \<and>
    (t * hz div 1000000 < 2 ^ 63 \<longrightarrow> duration_to_hwtime t hz = t * hz div 1000000)"
proof (intro conjI impI)
  assume "t * 1000000 div hz < 2 ^ 63"
  with split_scale [of t hz 1000000] assms show "hwtime_to_duration t hz = t * 1000000 div hz"
    unfolding hwtime_to_duration_def Let_def by linarith
next
  assume "t * hz div 1000000 < 2 ^ 63"
  with split_scale [of t 1000000 hz] assms show "duration_to_hwtime t hz = t * hz div 1000000"
    unfolding duration_to_hwtime_def Let_def by linarith
qed

text \<open>A hundred and fifteen days of a 2.4 GHz clock, whose product with a million wraps around.\<close>

theorem time_units_exact_witness:
  "hwtime_to_duration 24000000000000001 2400000000 = 10000000000000 \<and>
   duration_to_hwtime 10000000000000 2400000000 = 24000000000000000 \<and>
   s64 (24000000000000001 * 1000000) \<noteq> 24000000000000001 * 1000000"
proof -
  have "s64 x < 2 ^ 63" for x
    using sint_lt [of "word_of_int x :: u64"] by (simp add: s64_def)
  from this [of "24000000000000001 * 1000000"] show ?thesis
    using time_units_exact [of 24000000000000001 2400000000] time_units_exact [of 10000000000000 2400000000] by auto
qed







end
