(* ===== verification/Sched.thy ===== *)
theory Sched
  imports Ktimer
begin

text \<open>
  \<open>core/kernel/sched.c\<close>: the cyclic scheduler.  A plan is a sequence of slots inside a major
  frame; \<open>get_ready_kthread\<close> finds the slot of the current instant and arms the scheduler's timer
  for the next scheduling point, \<open>make_plan_switch\<close> installs a requested plan at a frame boundary,
  \<open>schedule\<close> switches threads.  Switching to a plan without a frame enters \<open>idle_task\<close>, which
  does not return to its caller: the result is then \<open>None\<close>, as it is for a failed assertion and
  for the frame loop of a plan without length.  The register and address-space part of the context
  switch (\<open>switch_kthread_arch_pre\<close>, \<open>switch_kthread_arch_post\<close>) is outside the model; after
  \<open>CONTEXT_SWITCH\<close> the new thread runs the second half of its own call of \<open>schedule\<close>.
\<close>

section \<open>Plans\<close>

definition idle_cyclic_plan_table :: prtos_conf_sched_cyclic_plan where
  "idle_cyclic_plan_table = \<lparr>plan_name_offset = 0, plan_id = 0, major_frame = 0, num_of_slots = 0,
     slots_offset = 0\<rparr>"

definition get_plan :: "prtos_conf \<Rightarrow> planref \<Rightarrow> prtos_conf_sched_cyclic_plan" where
  "get_plan c p = (case p of PlanTab i \<Rightarrow> sched_cyclic_plan_table c i | IdlePlan \<Rightarrow> idle_cyclic_plan_table)"

definition slot_entry :: "prtos_conf \<Rightarrow> prtos_conf_sched_cyclic_plan \<Rightarrow> int \<Rightarrow> prtos_conf_sched_cyclic_slot" where
  "slot_entry c p i = sched_cyclic_slot_table c (unat (slots_offset p + word_of_int i))"

definition switch_sched_plan :: "prtos_conf \<Rightarrow> nat \<Rightarrow> int \<Rightarrow> kstate \<Rightarrow> int \<times> u32 \<times> kstate" where
  "switch_sched_plan c this new_plan_id s =
     (let old = (case plan_current (lp_sched_data (cpus s this)) of
                   Some p \<Rightarrow> plan_id (get_plan c p) | None \<Rightarrow> - 1);
          s = for_upto (nat (num_of_cpus c)) (\<lambda>e. upd_sched e (\<lambda>d. d\<lparr>plan_new := Some
                (if new_plan_id < num_of_sched_cyclic_plans (cpu_table c e)
                 then PlanTab (unat (sched_cyclic_plans_offset (cpu_table c e) + word_of_int new_plan_id))
                 else IdlePlan)\<rparr>)) s;
          s = raise_audit_event TRACE_SCHED_MODULE 0x9 [word_of_int new_plan_id] s
      in (0, old, s))"

definition make_plan_switch :: "prtos_conf \<Rightarrow> nat \<Rightarrow> int \<Rightarrow> kstate \<Rightarrow> kstate option" where
  "make_plan_switch c this now s =
     (let d = lp_sched_data (cpus s this) in
      if plan_current d = plan_new d then Some s
      else do {
        let s = upd_sched this (\<lambda>d. d\<lparr>plan_prev := plan_current d, plan_current := plan_new d,
                  sd_plan_switch_time := now, sd_slot := - 1, sd_major_frame := 0\<rparr>) s;
        new \<leftarrow> plan_new d;
        if major_frame (get_plan c new) = 0 then None
        else Some (raise_audit_event TRACE_SCHED_MODULE 0xa [plan_id (get_plan c new), plan_id (get_plan c new)] s) })"

section \<open>Choosing the thread\<close>

definition is_kthread_ready :: "kstate \<Rightarrow> kref option \<Rightarrow> bool" where
  "is_kthread_ready s k = (case k of None \<Rightarrow> False | Some k \<Rightarrow>
     are_kthread_flags_set s k (KTHREAD_HALTED_F OR KTHREAD_SUSPENDED_F) = 0 \<and>
     are_kthread_flags_set s k KTHREAD_READY_F \<noteq> 0)"

definition get_current_kthread :: "kstate \<Rightarrow> kref option \<Rightarrow> kref option" where
  "get_current_kthread s k = (if is_kthread_ready s k then k else None)"

text \<open>The loop that advances the major frame; \<open>None\<close> when it never ends.\<close>

function frame_loop :: "int \<Rightarrow> int \<Rightarrow> int \<Rightarrow> int \<Rightarrow> (int \<times> int) option" where
  "frame_loop len now start frame =
     (if frame \<le> now then if 0 < len then frame_loop len now frame (frame + len) else None
      else Some (start, frame))"
  by auto
termination by (relation "measure (\<lambda>(l, n, s, f). nat (n - f + 1))") auto

declare frame_loop.simps [simp del]

text \<open>The loop that finds the slot: the slot it stops at, and whether it is inside the plan.\<close>

function slot_loop :: "prtos_conf \<Rightarrow> prtos_conf_sched_cyclic_plan \<Rightarrow> u32 \<Rightarrow> int \<Rightarrow> int \<times> bool" where
  "slot_loop c p t i =
     (if t \<ge> end_exec (slot_entry c p i)
      then let i = i + 1 in if i \<ge> num_of_slots p then (i, False) else slot_loop c p t i
      else (i, True))"
  by auto
termination by (relation "measure (\<lambda>(c, p, t, i). nat (num_of_slots p - i))") auto

declare slot_loop.simps [simp del]

text \<open>
  The decision of \<open>get_ready_kthread\<close> at offset \<open>t\<close> of the frame: the slot, the thread, and the
  offset of the next scheduling point.
\<close>

definition slot_decision ::
    "prtos_conf \<Rightarrow> kstate \<Rightarrow> prtos_conf_sched_cyclic_plan \<Rightarrow> u32 \<Rightarrow> int \<Rightarrow> (int \<times> kref option \<times> u32) option" where
  "slot_decision c s plan t slot =
     (let idle = (slot, None, major_frame plan) in
      if slot \<ge> num_of_slots plan then Some idle
      else let (slot, inside) = slot_loop c plan t slot in
      if \<not> inside then Some (slot, None, major_frame plan)
      else let e = slot_entry c plan slot in
      if t \<ge> start_exec e then do {
        _ \<leftarrow> ASSERT (uint (slot_partition_id e) < num_of_partitions c);
        k \<leftarrow> part_kthread s (unat (slot_partition_id e)) (unat (slot_vcpu_id e));
        if is_kthread_ready s (Some k) then Some (slot, Some k, end_exec e)
        else Some (slot, None,
          if slot + 1 < num_of_slots plan then start_exec (slot_entry c plan (slot + 1)) else major_frame plan) }
      else Some (slot, None, start_exec e))"

text \<open>The first half of a decision: the frame and the plan the decision is about.\<close>

definition frame_step :: "prtos_conf \<Rightarrow> nat \<Rightarrow> int \<Rightarrow> kstate \<Rightarrow> kstate option" where
  "frame_step c this now s = (
     if sd_major_frame (lp_sched_data (cpus s this)) \<le> now then do {
       s \<leftarrow> make_plan_switch c this now s;
       let d = lp_sched_data (cpus s this);
       p \<leftarrow> plan_current d;
       let plan = get_plan c p;
       s \<leftarrow> (if sd_slot d \<ge> 0 then do {
           (start, frame) \<leftarrow> frame_loop (uint (major_frame plan)) now (sd_start_exec d) (sd_major_frame d);
           let s = upd_sched this (\<lambda>d. d\<lparr>sd_start_exec := start, sd_major_frame := frame\<rparr>) s;
           Some (s\<lparr>system_status := (system_status s)\<lparr>current_maf := current_maf (system_status s) + 1\<rparr>\<rparr>) }
         else Some (upd_sched this (\<lambda>d. d\<lparr>sd_start_exec := now,
                      sd_major_frame := uint (major_frame plan) + now\<rparr>) s));
       Some (upd_sched this (\<lambda>d. d\<lparr>sd_slot := 0\<rparr>) s) }
     else Some s)"

text \<open>The slot information a thread is given when its slot starts.\<close>

definition announce_slot ::
    "prtos_conf \<Rightarrow> prtos_conf_sched_cyclic_plan \<Rightarrow> int \<Rightarrow> kref option \<Rightarrow> kstate \<Rightarrow> kstate option" where
  "announce_slot c plan slot new_kthread s = (case new_kthread of
       None \<Rightarrow> Some s
     | Some k \<Rightarrow> if guest_of s k \<noteq> None then
         let e = slot_entry c plan slot;
             s = upd_g k (\<lambda>g. g\<lparr>g_op_mode := PRTOS_OPMODE_NORMAL\<rparr>) s;
             s = upd_pct k (\<lambda>t. t\<lparr>sched_info := \<lparr>csi_num_of_slots = word_of_int slot, csi_id = slot_id e,
                   csi_slot_duration = end_exec e - start_exec e\<rparr>\<rparr>) s
         in set_ext_irq_pending k PRTOS_VT_EXT_CYCLIC_SLOT_START s
       else Some s)"

definition get_ready_kthread ::
    "prtos_conf \<Rightarrow> hw_timer_limits \<Rightarrow> nat \<Rightarrow> nat \<Rightarrow> kstate \<Rightarrow> (kref option \<times> kstate) option" where
  "get_ready_kthread c hw this fuel s =
     (let (now, s) = get_sys_clock_usec s;
          d = lp_sched_data (cpus s this) in
      if sd_next_act d > now then Some (get_current_kthread s (sd_kthread d), s)
      else do {
        s \<leftarrow> frame_step c this now s;
        let d = lp_sched_data (cpus s this);
        p \<leftarrow> plan_current d;
        let plan = get_plan c p;
        let t = word_of_int (now - sd_start_exec d);
        (slot, new_kthread, next_time) \<leftarrow> slot_decision c s plan t (sd_slot d);
        _ \<leftarrow> ASSERT (sd_next_act d < uint next_time + sd_start_exec d);
        let next_act = uint next_time + sd_start_exec d;
        let s = upd_sched this (\<lambda>d. d\<lparr>sd_slot := slot, sd_next_act := next_act\<rparr>) s;
        (_, s) \<leftarrow> arm_ktimer hw this fuel (TSched this) next_act 0 s;
        s \<leftarrow> announce_slot c plan slot new_kthread s;
        Some (new_kthread, upd_sched this (\<lambda>d. d\<lparr>sd_kthread := new_kthread\<rparr>) s) })"

section \<open>The scheduler\<close>

definition prtos_check_and_clear_sched_pending :: "nat \<Rightarrow> kstate \<Rightarrow> u32 \<times> kstate" where
  "prtos_check_and_clear_sched_pending this s =
     (if irq_nesting_counter (cpus s this) AND SCHED_PENDING \<noteq> 0
      then (1, upd_cpu this (\<lambda>i. i\<lparr>irq_nesting_counter := irq_nesting_counter i AND NOT SCHED_PENDING\<rparr>) s)
      else (0, s))"

text \<open>
  With the APIC the mask of the controller is read per processor and never written back
  (\<open>hw_irq_set_mask\<close> of \<open>core/kernel/x86/apic.c\<close> has an empty body).
\<close>

definition hw_irq_get_mask :: "nat \<Rightarrow> kstate \<Rightarrow> u32" where
  "hw_irq_get_mask this s = hw_irqs_masks s this"

definition hw_irq_set_mask :: "nat \<Rightarrow> nat \<Rightarrow> u32 \<Rightarrow> kstate \<Rightarrow> kstate" where
  "hw_irq_set_mask this e msk s = s"

definition switch_irq_masks :: "nat \<Rightarrow> kref \<Rightarrow> kref \<Rightarrow> kstate \<Rightarrow> kstate" where
  "switch_irq_masks this cur new s = for_upto HWIRQS_VECTOR_SIZE (\<lambda>e s.
     let s = upd_k cur (\<lambda>k. k\<lparr>k_irq_mask := (k_irq_mask k)(e := hw_irq_get_mask this s)\<rparr>) s;
         s = hw_irq_set_mask this e (k_irq_mask (kthreads s new) e) s
     in upd_k cur (\<lambda>k. k\<lparr>k_irq_pend_mask := (k_irq_pend_mask k)(e := 0xFFFFFFFF)\<rparr>) s) s"

definition context_switch ::
    "prtos_conf \<Rightarrow> hw_timer_limits \<Rightarrow> nat \<Rightarrow> nat \<Rightarrow> kref \<Rightarrow> kstate \<Rightarrow> kstate option" where
  "context_switch c hw this fuel new s = do {
     let cur = current_kthread (cpus s this);
     arg \<leftarrow> (if new \<noteq> idle_kthread (cpus s this) then do { g \<leftarrow> guest_of s new; Some (g_id g) } else Some (- 1));
     let s = raise_audit_event TRACE_SCHED_MODULE 0xb [arg] s;
     s \<leftarrow> (if guest_of s cur \<noteq> None then stop_vclock cur s else Some s);
     s \<leftarrow> (if guest_of s new \<noteq> None then do {
         let (now, s) = get_sys_clock_usec s;
         (next_act, s) \<leftarrow> traverse_ktimer_queue this (LocalTimers new) now s;
         set_hw_timer hw this fuel next_act s }
       else Some s);
     let s = switch_irq_masks this cur new s;
     let s = upd_cpu this (\<lambda>i. i\<lparr>current_kthread := new\<rparr>) s;
     (if guest_of s new \<noteq> None then resume_vclock hw this fuel new s else Some s) }"

definition schedule :: "prtos_conf \<Rightarrow> hw_timer_limits \<Rightarrow> nat \<Rightarrow> nat \<Rightarrow> kstate \<Rightarrow> kstate option" where
  "schedule c hw this fuel s = do {
     _ \<leftarrow> CHECK_KTHR_SANITY s (current_kthread (cpus s this));
     if sched_flags (cpus s this) AND LOCAL_SCHED_ENABLED = 0
     then Some (upd_cpu this (\<lambda>i. i\<lparr>irq_nesting_counter := irq_nesting_counter i AND NOT SCHED_PENDING\<rparr>) s)
     else if irq_nesting_counter (cpus s this) AND IRQ_IN_PROGRESS \<noteq> 0
     then Some (upd_cpu this (\<lambda>i. i\<lparr>irq_nesting_counter := irq_nesting_counter i OR SCHED_PENDING\<rparr>) s)
     else do {
       let s = upd_cpu this (\<lambda>i. i\<lparr>irq_nesting_counter := irq_nesting_counter i AND NOT SCHED_PENDING\<rparr>) s;
       (k, s) \<leftarrow> get_ready_kthread c hw this fuel s;
       let new = (case k of Some k \<Rightarrow> k | None \<Rightarrow> idle_kthread (cpus s this));
       _ \<leftarrow> CHECK_KTHR_SANITY s new;
       if new \<noteq> current_kthread (cpus s this) then context_switch c hw this fuel new s
       else if guest_of s new \<noteq> None then do {
         let (now, s) = get_sys_clock_usec s;
         (next, s) \<leftarrow> traverse_ktimer_queue this (GlobalTimers this) now s;
         (nl, s) \<leftarrow> traverse_ktimer_queue this (LocalTimers new) now s;
         set_hw_timer hw this fuel (if nl \<noteq> 0 \<and> nl < next then nl else next) s }
       else Some s } }"

definition sched_yield ::
    "prtos_conf \<Rightarrow> hw_timer_limits \<Rightarrow> nat \<Rightarrow> nat \<Rightarrow> kref \<Rightarrow> kstate \<Rightarrow> kstate option" where
  "sched_yield c hw this fuel k s =
     schedule c hw this fuel (upd_sched this (\<lambda>d. d\<lparr>sd_kthread := Some k\<rparr>) s)"

definition init_idle :: "nat \<Rightarrow> kref \<Rightarrow> kstate \<Rightarrow> kstate" where
  "init_idle this idle s =
     (let s = upd_k idle (\<lambda>k. k\<lparr>k_magic1 := KTHREAD_MAGIC, k_magic2 := KTHREAD_MAGIC\<rparr>) s;
          s = s\<lparr>theap := dyn_list_init (LocalTimers idle) (theap s)\<rparr>;
          s = upd_k idle (\<lambda>k. k\<lparr>k_g := None\<rparr>) s;
          s = for_upto HWIRQS_VECTOR_SIZE (\<lambda>e s. upd_k idle (\<lambda>k. k\<lparr>
                k_irq_mask := (k_irq_mask k)(e := hw_irq_get_mask this s OR global_irq_mask (cpus s this) e),
                k_irq_pend_mask := (k_irq_pend_mask k)(e := 0xFFFFFFFF)\<rparr>) s) s;
          s = set_kthread_flags idle (KTHREAD_DCACHE_ENABLED_F OR KTHREAD_ICACHE_ENABLED_F) s;
          s = set_kthread_flags idle KTHREAD_READY_F s
      in clear_kthread_flags idle KTHREAD_HALTED_F s)"

definition init_sched_local :: "prtos_conf \<Rightarrow> nat \<Rightarrow> kref \<Rightarrow> kstate \<Rightarrow> kstate option" where
  "init_sched_local c this idle s = do {
     let s = init_idle this idle s;
     let s = upd_cpu this (\<lambda>i. i\<lparr>current_kthread := idle, idle_kthread := idle\<rparr>) s;
     let s = upd_sched this (\<lambda>_. \<lparr>plan_current = None, plan_new = None, plan_prev = None, sd_slot = 0,
        sd_major_frame = 0, sd_start_exec = 0, sd_plan_switch_time = 0, sd_next_act = 0, sd_kthread = None\<rparr>) s;
     s \<leftarrow> init_ktimer this (TSched this) SetSchedPending None s;
     Some (upd_sched this (\<lambda>d. d\<lparr>sd_slot := - 1,
       plan_new := Some (PlanTab (unat (sched_cyclic_plans_offset (cpu_table c this)))),
       plan_current := None, plan_prev := None\<rparr>) s) }"

section \<open>The reference: which thread a plan gives an instant to\<close>

definition slot_active :: "prtos_conf \<Rightarrow> prtos_conf_sched_cyclic_plan \<Rightarrow> u32 \<Rightarrow> int \<Rightarrow> bool" where
  "slot_active c p t i \<longleftrightarrow> start_exec (slot_entry c p i) \<le> t \<and> t < end_exec (slot_entry c p i)"

definition slot_thread :: "prtos_conf \<Rightarrow> kstate \<Rightarrow> prtos_conf_sched_cyclic_plan \<Rightarrow> int \<Rightarrow> kref option" where
  "slot_thread c s p i =
     part_kthread s (unat (slot_partition_id (slot_entry c p i))) (unat (slot_vcpu_id (slot_entry c p i)))"

definition plan_thread :: "prtos_conf \<Rightarrow> kstate \<Rightarrow> prtos_conf_sched_cyclic_plan \<Rightarrow> u32 \<Rightarrow> kref option" where
  "plan_thread c s p t = (case List.find (slot_active c p t) [0..num_of_slots p - 1] of
     None \<Rightarrow> None
   | Some i \<Rightarrow> if is_kthread_ready s (slot_thread c s p i) then slot_thread c s p i else None)"

definition plan_wf :: "prtos_conf \<Rightarrow> prtos_conf_sched_cyclic_plan \<Rightarrow> bool" where
  "plan_wf c p \<longleftrightarrow> 0 < major_frame p \<and> 0 \<le> num_of_slots p \<and>
     (\<forall>i \<in> {0..<num_of_slots p}. let e = slot_entry c p i in
        start_exec e < end_exec e \<and> end_exec e \<le> major_frame p \<and>
        (i + 1 < num_of_slots p \<longrightarrow> end_exec e \<le> start_exec (slot_entry c p (i + 1))) \<and>
        uint (slot_partition_id e) < num_of_partitions c \<and>
        unat (slot_vcpu_id e) < nr_vcpus c (unat (slot_partition_id e)))"

lemma plan_wfD:
  assumes "plan_wf c p" "0 \<le> i" "i < num_of_slots p"
  shows "start_exec (slot_entry c p i) < end_exec (slot_entry c p i)"
    and "end_exec (slot_entry c p i) \<le> major_frame p"
    and "i + 1 < num_of_slots p \<Longrightarrow> end_exec (slot_entry c p i) \<le> start_exec (slot_entry c p (i + 1))"
    and "uint (slot_partition_id (slot_entry c p i)) < num_of_partitions c"
    and "unat (slot_vcpu_id (slot_entry c p i)) < nr_vcpus c (unat (slot_partition_id (slot_entry c p i)))"
  using assms by (auto simp: plan_wf_def Let_def)

lemma slots_ordered:
  assumes wf: "plan_wf c p" and "0 \<le> i" "i < j" "j < num_of_slots p"
  shows "end_exec (slot_entry c p i) \<le> start_exec (slot_entry c p j)"
proof -
  have "i + 1 + int n < num_of_slots p \<Longrightarrow>
      end_exec (slot_entry c p i) \<le> start_exec (slot_entry c p (i + 1 + int n))" for n
  proof (induction n)
    case 0
    then show ?case using plan_wfD(3) [OF wf \<open>0 \<le> i\<close>] by simp
  next
    case (Suc n)
    define k where "k = i + 1 + int n"
    have k: "0 \<le> k" "k < num_of_slots p" "k + 1 < num_of_slots p" "i + 1 + int (Suc n) = k + 1"
      using Suc.prems \<open>0 \<le> i\<close> by (simp_all add: k_def)
    have "end_exec (slot_entry c p i) \<le> start_exec (slot_entry c p k)"
      using Suc.IH k(2) by (simp add: k_def)
    also have "\<dots> \<le> end_exec (slot_entry c p k)" using plan_wfD(1) [OF wf k(1,2)] by simp
    also have "\<dots> \<le> start_exec (slot_entry c p (k + 1))" by (rule plan_wfD(3) [OF wf k(1,2,3)])
    finally show ?case by (simp only: k(4))
  qed
  from this [of "nat (j - i - 1)"] assms show ?thesis by simp
qed

lemma find_unique:
  assumes "i \<in> set xs" "P i" "\<And>j. j \<in> set xs \<Longrightarrow> P j \<Longrightarrow> j = i"
  shows "List.find P xs = Some i"
proof -
  have "List.find P xs \<noteq> None" using assms(1,2) by (auto simp: find_None_iff)
  then obtain j where "List.find P xs = Some j" by auto
  moreover from this have "j \<in> set xs \<and> P j" by (auto simp: find_Some_iff)
  ultimately show ?thesis using assms(3) [of j] by simp
qed

lemma slot_active_unique:
  assumes "plan_wf c p" "0 \<le> i" "i < num_of_slots p" "0 \<le> j" "j < num_of_slots p"
    and "slot_active c p t i" "slot_active c p t j"
  shows "i = j"
proof (rule ccontr)
  assume "i \<noteq> j"
  then consider "i < j" | "j < i" by linarith
  then show False
    using slots_ordered [OF assms(1), of i j] slots_ordered [OF assms(1), of j i] assms
    by cases (auto simp: slot_active_def)
qed

lemma plan_thread_active:
  assumes "plan_wf c p" "0 \<le> i" "i < num_of_slots p" "slot_active c p t i"
  shows "plan_thread c s p t = (if is_kthread_ready s (slot_thread c s p i) then slot_thread c s p i else None)"
proof -
  have "List.find (slot_active c p t) [0..num_of_slots p - 1] = Some i"
    by (rule find_unique) (use assms slot_active_unique [OF assms(1)] in auto)
  then show ?thesis by (simp add: plan_thread_def)
qed

lemma plan_thread_idle:
  assumes "\<And>i. 0 \<le> i \<Longrightarrow> i < num_of_slots p \<Longrightarrow> \<not> slot_active c p t i"
  shows "plan_thread c s p t = None"
proof -
  have "List.find (slot_active c p t) [0..num_of_slots p - 1] = None"
    using assms by (auto simp: find_None_iff)
  then show ?thesis by (simp add: plan_thread_def)
qed

section \<open>The slot search computes the reference\<close>

lemma slot_loop_spec:
  assumes "i < num_of_slots p"
  shows "\<exists>j inside. slot_loop c p t i = (j, inside) \<and> i \<le> j \<and> j \<le> num_of_slots p \<and>
    (\<forall>k. i \<le> k \<and> k < j \<longrightarrow> end_exec (slot_entry c p k) \<le> t) \<and>
    (inside \<longleftrightarrow> j < num_of_slots p) \<and> (inside \<longrightarrow> t < end_exec (slot_entry c p j))"
  using assms
proof (induction c p t i rule: slot_loop.induct)
  case (1 c p t i)
  show ?case
  proof (cases "t \<ge> end_exec (slot_entry c p i) \<and> i + 1 < num_of_slots p")
    case True
    then obtain j inside where j: "slot_loop c p t (i + 1) = (j, inside)" "i + 1 \<le> j" "j \<le> num_of_slots p"
      "\<forall>k. i + 1 \<le> k \<and> k < j \<longrightarrow> end_exec (slot_entry c p k) \<le> t"
      "inside \<longleftrightarrow> j < num_of_slots p" "inside \<longrightarrow> t < end_exec (slot_entry c p j)"
      using 1 by fastforce
    have "end_exec (slot_entry c p k) \<le> t" if "i \<le> k" "k < j" for k
      using that j(4) True by (cases "k = i") auto
    with j True show ?thesis by (subst slot_loop.simps) auto
  next
    case False
    then show ?thesis using 1(2) by (subst slot_loop.simps) (auto simp: Let_def le_less)
  qed
qed

lemma slot_loop_cases:
  assumes "0 \<le> slot" "slot \<le> num_of_slots p" "\<And>j. 0 \<le> j \<Longrightarrow> j < slot \<Longrightarrow> end_exec (slot_entry c p j) \<le> t"
  obtains (nowhere) j where "slot \<le> j" "j = num_of_slots p"
      "\<And>k. 0 \<le> k \<Longrightarrow> k < num_of_slots p \<Longrightarrow> end_exec (slot_entry c p k) \<le> t"
      "\<And>k. 0 \<le> k \<Longrightarrow> k < j \<Longrightarrow> k < num_of_slots p \<Longrightarrow> end_exec (slot_entry c p k) \<le> t"
      "slot_decision c s p t slot = Some (j, None, major_frame p)"
    | (inside) j where "slot \<le> j" "j < num_of_slots p" "slot_loop c p t slot = (j, True)"
      "slot < num_of_slots p"
      "\<And>k. 0 \<le> k \<Longrightarrow> k < j \<Longrightarrow> end_exec (slot_entry c p k) \<le> t" "t < end_exec (slot_entry c p j)"
proof (cases "slot < num_of_slots p")
  case False
  then show thesis using assms by (intro nowhere [of slot]) (auto simp: slot_decision_def Let_def)
next
  case True
  then obtain j inside where j: "slot_loop c p t slot = (j, inside)" "slot \<le> j" "j \<le> num_of_slots p"
    "\<forall>k. slot \<le> k \<and> k < j \<longrightarrow> end_exec (slot_entry c p k) \<le> t"
    "inside \<longleftrightarrow> j < num_of_slots p" "inside \<longrightarrow> t < end_exec (slot_entry c p j)"
    using slot_loop_spec [of slot p c t] by blast
  have past: "end_exec (slot_entry c p k) \<le> t" if "0 \<le> k" "k < j" for k
    using that assms(3) j(4) by (cases "k < slot") auto
  show thesis
  proof (cases inside)
    case True2: True
    then show thesis using j True past by (intro inside [of j]) auto
  next
    case False
    then show thesis using j True past by (intro nowhere [of j]) (auto simp: slot_decision_def Let_def)
  qed
qed

lemma slot_idle_between:
  assumes wf: "plan_wf c p" and past: "\<And>k. 0 \<le> k \<Longrightarrow> k < j \<Longrightarrow> end_exec (slot_entry c p k) \<le> t"
    and j: "0 \<le> j" "j < num_of_slots p" and u: "t \<le> u" "u < start_exec (slot_entry c p j)"
  shows "plan_thread c s p u = None"
proof (rule plan_thread_idle)
  fix i assume i: "0 \<le> i" "i < num_of_slots p"
  show "\<not> slot_active c p u i"
  proof (cases i j rule: linorder_cases)
    case less
    then show ?thesis using past [of i] i u by (auto simp: slot_active_def)
  next
    case equal
    then show ?thesis using u by (auto simp: slot_active_def)
  next
    case greater
    then show ?thesis
      using slots_ordered [OF wf j(1) greater i(2)] plan_wfD(1) [OF wf j] u by (auto simp: slot_active_def)
  qed
qed

lemma slot_decision_correct:
  assumes wf: "plan_wf c p" "kernel_wf c s" and slot: "0 \<le> slot" "slot \<le> num_of_slots p"
    and past: "\<And>j. 0 \<le> j \<Longrightarrow> j < slot \<Longrightarrow> end_exec (slot_entry c p j) \<le> t"
    and t: "t < major_frame p"
  shows "\<exists>slot' next. slot_decision c s p t slot = Some (slot', plan_thread c s p t, next) \<and>
    t < next \<and> next \<le> major_frame p \<and> slot \<le> slot' \<and> slot' \<le> num_of_slots p \<and>
    (\<forall>j. 0 \<le> j \<and> j < slot' \<longrightarrow> end_exec (slot_entry c p j) \<le> t) \<and>
    (\<forall>u. t \<le> u \<and> u < next \<longrightarrow> plan_thread c s p u = plan_thread c s p t)"
proof (rule slot_loop_cases [of slot p c t s])
  show "0 \<le> slot" "slot \<le> num_of_slots p" by (rule slot)+
  show "\<And>j. 0 \<le> j \<Longrightarrow> j < slot \<Longrightarrow> end_exec (slot_entry c p j) \<le> t" by (rule past)
next
  fix j assume j: "slot \<le> j" "j = num_of_slots p"
    "\<And>k. 0 \<le> k \<Longrightarrow> k < num_of_slots p \<Longrightarrow> end_exec (slot_entry c p k) \<le> t"
    "slot_decision c s p t slot = Some (j, None, major_frame p)"
  have "plan_thread c s p u = None" if "t \<le> u" for u
    by (rule plan_thread_idle) (use j(3) that in \<open>fastforce simp: slot_active_def\<close>)
  then have "plan_thread c s p t = None" "\<forall>u. t \<le> u \<and> u < major_frame p \<longrightarrow> plan_thread c s p u = None" by simp_all
  then show ?thesis using j t by (intro exI [of _ j] exI [of _ "major_frame p"]) simp
next
  fix j assume j: "slot \<le> j" "j < num_of_slots p" "slot_loop c p t slot = (j, True)" "slot < num_of_slots p"
    "\<And>k. 0 \<le> k \<Longrightarrow> k < j \<Longrightarrow> end_exec (slot_entry c p k) \<le> t" "t < end_exec (slot_entry c p j)"
  let ?e = "slot_entry c p j"
  have j0: "0 \<le> j" using slot(1) j(1) by simp
  note W = plan_wfD [OF wf(1) j0 j(2)]
  show ?thesis
  proof (cases "start_exec ?e \<le> t")
    case False
    then have "slot_decision c s p t slot = Some (j, None, start_exec ?e)"
      using j(3,4) by (simp add: slot_decision_def Let_def)
    moreover have "plan_thread c s p u = None" if "t \<le> u" "u < start_exec ?e" for u
      using slot_idle_between [OF wf(1) j(5) j0 j(2) that] by simp
    moreover have "t < start_exec ?e" "start_exec ?e \<le> major_frame p" using False W(1,2) by simp_all
    ultimately show ?thesis using j(1,2,5) by (intro exI [of _ j] exI [of _ "start_exec ?e"]) simp
  next
    case True
    obtain k where k: "slot_thread c s p j = Some k"
      using kernel_wf_vcpu(1) [OF wf(2) W(4,5)] by (simp add: slot_thread_def)
    have run: "plan_thread c s p u = (if is_kthread_ready s (Some k) then Some k else None)"
      if "t \<le> u" "u < end_exec ?e" for u
      using plan_thread_active [OF wf(1) j0 j(2), of u s] that True k by (auto simp: slot_active_def)
    define nt where "nt = (if is_kthread_ready s (Some k) then end_exec ?e
      else if j + 1 < num_of_slots p then start_exec (slot_entry c p (j + 1)) else major_frame p)"
    have dec: "slot_decision c s p t slot = Some (j, plan_thread c s p t, nt)"
      using j(3,4) True W(4) k run [of t] j(6)
      by (auto simp: slot_decision_def Let_def nt_def slot_thread_def)
    have bounds: "end_exec ?e \<le> nt" "nt \<le> major_frame p"
      using W(2,3) plan_wfD(1,2) [OF wf(1), of "j + 1"] j0 by (auto simp: nt_def)
    have "plan_thread c s p u = plan_thread c s p t" if u: "t \<le> u" "u < nt" for u
    proof (cases "u < end_exec ?e")
      case True2: True
      then show ?thesis using run u j(6) by simp
    next
      case False
      then have nr: "\<not> is_kthread_ready s (Some k)" using u by (auto simp: nt_def)
      have "plan_thread c s p u = None"
      proof (cases "j + 1 < num_of_slots p")
        case True
        have "end_exec (slot_entry c p i) \<le> u" if "0 \<le> i" "i < j + 1" for i
          using that j(5) [of i] u(1) False by (cases "i = j") auto
        then show ?thesis
          using slot_idle_between [OF wf(1), of "j + 1" u u s] True j0 u(2) nr by (simp add: nt_def)
      next
        case last: False
        have "end_exec (slot_entry c p i) \<le> u" if "0 \<le> i" "i < num_of_slots p" for i
          using that j(5) [of i] u(1) False last by (cases "i = j") auto
        then show ?thesis by (intro plan_thread_idle) (fastforce simp: slot_active_def)
      qed
      then show ?thesis using run [of t] nr j(6) by simp
    qed
    moreover have "t < nt" using bounds(1) j(6) by simp
    moreover have "j \<le> num_of_slots p" using j(2) by simp
    ultimately show ?thesis using dec bounds(2) j(1,5) by (intro exI [of _ j] exI [of _ nt]) blast
  qed
qed

lemma frame_loop_eq:
  assumes "0 < len" "frame \<le> now"
  shows "frame_loop len now start frame =
    Some (frame + len * ((now - frame) div len), frame + len * ((now - frame) div len + 1))"
  using assms
proof (induction len now start frame rule: frame_loop.induct)
  case (1 len now start frame)
  show ?case
  proof (cases "frame + len \<le> now")
    case True
    have "(now - frame) div len = (now - (frame + len)) div len + 1"
      using 1(2) div_add_self2 [of len "now - frame - len"] by (simp add: algebra_simps)
    with 1 True show ?thesis by (subst frame_loop.simps) (simp add: algebra_simps)
  next
    case False
    with 1 have "(now - frame) div len = 0" by (simp add: div_pos_pos_trivial)
    with 1 False show ?thesis by (subst frame_loop.simps, subst frame_loop.simps) simp
  qed
qed

lemma frame_loop_bounds:
  assumes "0 < len" "frame \<le> (now :: int)"
  shows "frame + len * ((now - frame) div len) \<le> now" "now < frame + len * ((now - frame) div len + 1)"
proof -
  have e: "len * ((now - frame) div len) = now - frame - (now - frame) mod len"
    by (simp add: minus_mod_eq_mult_div)
  have "0 \<le> (now - frame) mod len" "(now - frame) mod len < len" using assms by simp_all
  then show "frame + len * ((now - frame) div len) \<le> now" "now < frame + len * ((now - frame) div len + 1)"
    unfolding distrib_left e by simp_all
qed

section \<open>A scheduling decision\<close>

text \<open>
  The scheduler's own invariant at clock reading \<open>now\<close>: the requested plan is well formed; the
  running one, once there is one, is too, its frame has begun, and the slots before the current
  one are over.
\<close>

definition sched_inv :: "prtos_conf \<Rightarrow> nat \<Rightarrow> int \<Rightarrow> kstate \<Rightarrow> bool" where
  "sched_inv c this now s \<longleftrightarrow> (let d = lp_sched_data (cpus s this) in
     (\<exists>q. plan_new d = Some q \<and> plan_wf c (get_plan c q)) \<and>
     (case plan_current d of
        None \<Rightarrow> sd_major_frame d \<le> now \<and> sd_next_act d \<le> now
      | Some p \<Rightarrow> plan_wf c (get_plan c p) \<and> 0 \<le> sd_slot d \<and> sd_slot d \<le> num_of_slots (get_plan c p) \<and>
          sd_start_exec d \<le> now \<and>
          sd_major_frame d = sd_start_exec d + uint (major_frame (get_plan c p)) \<and>
          (\<forall>j. 0 \<le> j \<and> j < sd_slot d \<longrightarrow>
             sd_start_exec d + uint (end_exec (slot_entry c (get_plan c p) j)) \<le> now)))"

lemma sched_inv_mono: "sched_inv c this now s \<Longrightarrow> now \<le> now' \<Longrightarrow> sched_inv c this now' s"
  by (force simp: sched_inv_def Let_def split: option.splits)

lemma sched_inv_cong:
  "lp_sched_data (cpus s' this) = lp_sched_data (cpus s this) \<Longrightarrow> sched_inv c this now s' = sched_inv c this now s"
  by (simp add: sched_inv_def)

lemma plan_thread_cong:
  assumes "\<And>k. k_flags (kthreads s' k) = k_flags (kthreads s k)" "kshape s' = kshape s"
  shows "plan_thread c s' p t = plan_thread c s p t"
proof -
  have "slot_thread c s' p i = slot_thread c s p i" for i
    using kshape_part_kthread [OF assms(2)] by (simp add: slot_thread_def)
  moreover have "is_kthread_ready s' k = is_kthread_ready s k" for k
    using assms(1) by (simp add: is_kthread_ready_def are_kthread_flags_set_def split: option.splits)
  ultimately show ?thesis by (simp add: plan_thread_def split: option.splits)
qed

text \<open>Changes that concern neither timers nor scheduling.\<close>

definition tame :: "kstate \<Rightarrow> kstate \<Rightarrow> bool" where
  "tame s s' \<longleftrightarrow> timers s' = timers s \<and> kshape s' = kshape s \<and> vt_view s' = vt_view s \<and>
     theap s' = theap s \<and> clk s' = clk s \<and> clk_pos s' = clk_pos s \<and> cpus s' = cpus s"

lemma tame_trans: "tame s s' \<Longrightarrow> tame s' s'' \<Longrightarrow> tame s s''"
  by (simp add: tame_def)

lemma tame_timers_inv: "tame s s' \<Longrightarrow> timers_inv s' = timers_inv s"
  by (rule timers_inv_cong) (simp_all add: tame_def)

lemma tame_queues_ok: "tame s s' \<Longrightarrow> queues_ok this s' = queues_ok this s"
  using kshape_None [of s' s] by (simp add: tame_def queues_ok_def)

lemma tame_upd_g:
  "(\<And>g. g_id (f g) = g_id g \<and> g_vclock (f g) = g_vclock g \<and> g_vtimer (f g) = g_vtimer g) \<Longrightarrow> tame s (upd_g k f s)"
  by (simp add: tame_def kshape_upd_g)
    (auto simp: upd_g_def upd_k_def vt_view_def guest_of_def fun_eq_iff option.map_comp comp_def)

lemma tame_upd_pct: "tame s (upd_pct k f s)"
  unfolding upd_pct_def by (rule tame_upd_g) simp

lemma tame_set_ext_irq_pending:
  assumes "guest_of s k = Some g" "0 \<le> irq" "irq \<le> 31"
  shows "\<exists>s'. set_ext_irq_pending k irq s = Some s' \<and> tame s s'"
  using set_ext_irq_pending_runs [of s k irq] assms set_ext_irq_pending_eq [OF assms]
  by (auto simp: tame_def quiet_def upd_k_def)

lemma announce_slot_runs: "\<exists>s'. announce_slot c plan slot k s = Some s' \<and> tame s s'"
proof (cases "\<exists>r g. k = Some r \<and> guest_of s r = Some g")
  case False
  then show ?thesis by (auto simp: announce_slot_def tame_def split: option.splits)
next
  case True
  then obtain r g where k: "k = Some r" "guest_of s r = Some g" by auto
  define s1 where "s1 = upd_g r (\<lambda>g. g\<lparr>g_op_mode := PRTOS_OPMODE_NORMAL\<rparr>) s"
  define s2 where "s2 = upd_pct r (\<lambda>t. t\<lparr>sched_info := \<lparr>csi_num_of_slots = word_of_int slot,
     csi_id = slot_id (slot_entry c plan slot),
     csi_slot_duration = end_exec (slot_entry c plan slot) - start_exec (slot_entry c plan slot)\<rparr>\<rparr>) s1"
  have "tame s s1" unfolding s1_def by (rule tame_upd_g) simp
  moreover have "tame s1 s2" unfolding s2_def by (rule tame_upd_pct)
  ultimately have t: "tame s s2" by (rule tame_trans)
  then have "guest_of s2 r \<noteq> None" using k kshape_None [of s2 s r] by (simp add: tame_def)
  then obtain g2 where "guest_of s2 r = Some g2" by auto
  then obtain s3 where "set_ext_irq_pending r 8 s2 = Some s3" "tame s2 s3"
    using tame_set_ext_irq_pending [of s2 r g2 8] by auto
  then show ?thesis using k t tame_trans
    by (auto simp: announce_slot_def Let_def s1_def [symmetric] s2_def [symmetric] vt_defs)
qed

lemma arm_sched_timer_runs:
  assumes "timers_inv s" "queues_ok this s" "clock_ok s B" "min_interval hw \<le> max_interval hw"
    and "0 \<le> v" "2 * nat (B - clk s (clk_pos s)) + 1 < fuel"
  shows "\<exists>s'. arm_ktimer hw this fuel (TSched this) v 0 s = Some (0, s') \<and> timers_inv s' \<and>
    queues_ok this s' \<and> calm s s'"
proof -
  let ?s = "upd_timer (TSched this) (\<lambda>k. k\<lparr>kt_value := v, kt_interval := 0, kt_flags := kt_flags k OR KTIMER_ARMED\<rparr>) s"
  have t: "theap ?s = theap s" "clk ?s = clk s" "clk_pos ?s = clk_pos s" "cpus ?s = cpus s"
    "guest_of ?s = guest_of s" by (simp_all add: upd_timer_def guest_of_def fun_eq_iff)
  have wf: "timers_wf ?s"
    using assms(1) by (auto simp: timers_inv_def timers_wf_def dest: spec [of _ "TSched this"])
  have "timer_ready ?s t" for t
  proof (cases "t = TSched this")
    case False
    then show ?thesis using assms(1) by (simp add: timers_inv_def timer_ready_def)
  qed (use assms(5) in \<open>simp add: timer_ready_def\<close>)
  then have "timers_inv ?s" using wf by (simp add: timers_inv_def)
  moreover have "queues_ok this ?s" using assms(2) by (simp add: queues_ok_def t)
  moreover have "clock_ok ?s B" using assms(3) by (simp add: clock_ok_def t)
  moreover have "2 * nat (B - clk ?s (clk_pos ?s)) + 1 < fuel" using assms(6) by (simp add: t)
  ultimately obtain s' where s': "set_hw_timer hw this fuel v ?s = Some s'" "timers_inv s'" "queues_ok this s'" "calm ?s s'"
    using set_hw_timer_total [of ?s this B hw v fuel] assms(4,5) by blast
  have "calm s ?s" using quiet_calm [OF quiet_upd_timer] .
  with s' have "calm s s'" using calm_trans by blast
  with s' show ?thesis by (simp add: arm_ktimer_def Let_def)
qed

text \<open>Changes to the scheduler's data and the counters only.\<close>

definition sched_only :: "kstate \<Rightarrow> kstate \<Rightarrow> bool" where
  "sched_only s s' \<longleftrightarrow> timers s' = timers s \<and> kthreads s' = kthreads s \<and>
     partition_table s' = partition_table s \<and> theap s' = theap s \<and> clk s' = clk s \<and> clk_pos s' = clk_pos s \<and>
     (\<forall>c. current_kthread (cpus s' c) = current_kthread (cpus s c) \<and>
          idle_kthread (cpus s' c) = idle_kthread (cpus s c))"

lemma sched_only_refl [simp]: "sched_only s s"
  by (simp add: sched_only_def)

lemma sched_only_trans: "sched_only s s' \<Longrightarrow> sched_only s' s'' \<Longrightarrow> sched_only s s''"
  by (simp add: sched_only_def)

lemma sched_only_upd_sched [simp]: "sched_only s (upd_sched c f s)"
  by (simp add: sched_only_def upd_sched_def upd_cpu_def)

lemma sched_only_misc [simp]:
  "sched_only s (raise_audit_event m e p s)" "sched_only s (s\<lparr>system_status := ss\<rparr>)"
  by (simp_all add: sched_only_def raise_audit_event_def)

lemma sched_only_steps:
  assumes "sched_only s s'"
  shows "sched_only s (upd_sched c f s')" "sched_only s (raise_audit_event m e p s')"
    "sched_only s (s'\<lparr>system_status := ss\<rparr>)"
  using assms sched_only_trans sched_only_upd_sched sched_only_misc by blast+

lemma sched_only_views:
  assumes "sched_only s s'"
  shows "kshape s' = kshape s" "vt_view s' = vt_view s" "guest_of s' = guest_of s"
    "timers_inv s' = timers_inv s" "queues_ok this s' = queues_ok this s"
    "kernel_wf c s' = kernel_wf c s" "plan_thread c s' p t = plan_thread c s p t"
    "clock_ok s' B = clock_ok s B"
proof -
  show k: "kshape s' = kshape s" and v: "vt_view s' = vt_view s" and "guest_of s' = guest_of s"
    using assms by (simp_all add: sched_only_def kshape_def vt_view_def guest_of_def fun_eq_iff)
  then show "queues_ok this s' = queues_ok this s" using assms by (simp add: sched_only_def queues_ok_def)
  show "timers_inv s' = timers_inv s" using assms k v by (intro timers_inv_cong) (simp_all add: sched_only_def)
  show "kernel_wf c s' = kernel_wf c s" by (rule kernel_wf_shape [OF k])
  show "plan_thread c s' p t = plan_thread c s p t"
    using assms by (intro plan_thread_cong k) (simp add: sched_only_def)
  show "clock_ok s' B = clock_ok s B" using assms by (simp add: clock_ok_def sched_only_def)
qed

lemma upd_sched_data [simp]:
  "lp_sched_data (cpus (upd_sched c f s) c) = f (lp_sched_data (cpus s c))"
  "lp_sched_data (cpus (raise_audit_event m e p s) c) = lp_sched_data (cpus s c)"
  by (simp_all add: upd_sched_def upd_cpu_def raise_audit_event_def)

lemma make_plan_switch_runs:
  assumes "plan_new (lp_sched_data (cpus s this)) = Some q" "0 < major_frame (get_plan c q)"
  shows "\<exists>s'. make_plan_switch c this now s = Some s' \<and> sched_only s s' \<and>
    lp_sched_data (cpus s' this) = (let d = lp_sched_data (cpus s this) in
      if plan_current d = Some q then d
      else d\<lparr>plan_prev := plan_current d, plan_current := Some q, sd_plan_switch_time := now,
             sd_slot := - 1, sd_major_frame := 0\<rparr>)"
  using assms
  by (auto simp: make_plan_switch_def Let_def intro!: sched_only_steps)

lemma frame_step_runs:
  assumes inv: "sched_inv c this now s"
  shows "\<exists>s' p. frame_step c this now s = Some s' \<and> sched_only s s' \<and> sched_inv c this now s' \<and>
    (let d = lp_sched_data (cpus s this); d' = lp_sched_data (cpus s' this) in
      plan_current d' = (if now < sd_major_frame d then plan_current d else plan_new d) \<and>
      plan_current d' = Some p \<and> plan_new d' = plan_new d \<and> sd_next_act d' = sd_next_act d \<and>
      sd_start_exec d' \<le> now \<and> now < sd_start_exec d' + uint (major_frame (get_plan c p)))"
proof -
  let ?d = "lp_sched_data (cpus s this)"
  obtain q where q: "plan_new ?d = Some q" "plan_wf c (get_plan c q)"
    using inv by (auto simp: sched_inv_def Let_def)
  have len': "0 < major_frame (get_plan c q)" using q(2) by (simp add: plan_wf_def)
  have len: "0 < uint (major_frame (get_plan c q))" and num: "0 \<le> num_of_slots (get_plan c q)"
    using q(2) by (auto simp: plan_wf_def word_less_def)
  show ?thesis
  proof (cases "sd_major_frame ?d \<le> now")
    case False
    then obtain p where "plan_current ?d = Some p"
      using inv by (auto simp: sched_inv_def Let_def split: option.splits)
    with False inv show ?thesis
      by (intro exI [of _ s] exI [of _ p]) (simp add: frame_step_def sched_inv_def Let_def)
  next
    case True
    obtain s1 where s1: "make_plan_switch c this now s = Some s1" "sched_only s s1"
      "lp_sched_data (cpus s1 this) = (if plan_current ?d = Some q then ?d
      else ?d\<lparr>plan_prev := plan_current ?d, plan_current := Some q, sd_plan_switch_time := now,
             sd_slot := - 1, sd_major_frame := 0\<rparr>)"
      using make_plan_switch_runs [OF q(1) len', of now] unfolding Let_def by blast
    show ?thesis
    proof (cases "plan_current ?d = Some q")
      case same: True
      then have d: "0 \<le> sd_slot ?d" "sd_slot ?d \<le> num_of_slots (get_plan c q)"
        using inv by (auto simp: sched_inv_def Let_def)
      let ?L = "uint (major_frame (get_plan c q))" and ?n = "(now - sd_major_frame ?d) div uint (major_frame (get_plan c q))"
      define s2 where "s2 = upd_sched this (\<lambda>d. d\<lparr>sd_start_exec := sd_major_frame ?d + ?L * ?n,
         sd_major_frame := sd_major_frame ?d + ?L * (?n + 1)\<rparr>) s1"
      define s3 where "s3 = s2\<lparr>system_status := (system_status s2)\<lparr>current_maf := current_maf (system_status s2) + 1\<rparr>\<rparr>"
      define s4 where "s4 = upd_sched this (\<lambda>d. d\<lparr>sd_slot := 0\<rparr>) s3"
      have "frame_step c this now s = Some s4"
        using True s1 same d frame_loop_eq [OF len True, of "sd_start_exec ?d"]
        by (simp add: frame_step_def Let_def s2_def s3_def s4_def)
      moreover have "sched_only s s4" unfolding s4_def s3_def s2_def
        by (intro sched_only_steps s1(2))
      moreover have "lp_sched_data (cpus s4 this) = ?d\<lparr>sd_start_exec := sd_major_frame ?d + ?L * ?n,
         sd_major_frame := sd_major_frame ?d + ?L * (?n + 1), sd_slot := 0\<rparr>"
        by (simp add: s4_def s3_def upd_sched_def upd_cpu_def) (simp add: s2_def s1(3) same)
      ultimately show ?thesis
        using True same q d frame_loop_bounds [OF len True]
        by (intro exI [of _ s4] exI [of _ q]) (simp add: sched_inv_def Let_def algebra_simps)
    next
      case changed: False
      define s2 where "s2 = upd_sched this (\<lambda>d. d\<lparr>sd_start_exec := now,
         sd_major_frame := uint (major_frame (get_plan c q)) + now\<rparr>) s1"
      define s4 where "s4 = upd_sched this (\<lambda>d. d\<lparr>sd_slot := 0\<rparr>) s2"
      have "frame_step c this now s = Some s4"
        using True s1 changed by (simp add: frame_step_def Let_def s2_def s4_def)
      moreover have "sched_only s s4" unfolding s4_def s2_def
        by (intro sched_only_steps s1(2))
      moreover have "lp_sched_data (cpus s4 this) = ?d\<lparr>plan_prev := plan_current ?d, plan_current := Some q,
         sd_plan_switch_time := now, sd_start_exec := now,
         sd_major_frame := uint (major_frame (get_plan c q)) + now, sd_slot := 0\<rparr>"
        by (simp add: s4_def s2_def s1(3) changed)
      ultimately show ?thesis
        using True q len num by (intro exI [of _ s4] exI [of _ q]) (simp add: sched_inv_def Let_def)
    qed
  qed
qed

lemma upd_sched_calm: "calm s s' \<Longrightarrow> lp_sched_data (cpus s' c) = lp_sched_data (cpus s c)"
  by (simp add: calm_def)

lemma get_ready_kthread_correct:
  assumes wf: "kernel_wf c s" and ti: "timers_inv s" and qo: "queues_ok this s" and ck: "clock_ok s B"
    and hw: "min_interval hw \<le> max_interval hw" and fuel: "2 * nat (B - clk s (clk_pos s)) + 1 < fuel"
    and si: "sched_inv c this (clk s (clk_pos s)) s"
  shows "\<exists>k s'. get_ready_kthread c hw this fuel s = Some (k, s') \<and>
    kernel_wf c s' \<and> timers_inv s' \<and> queues_ok this s' \<and> sched_inv c this (clk s (clk_pos s)) s' \<and>
    clk s' = clk s \<and> current_kthread (cpus s' this) = current_kthread (cpus s this) \<and>
    idle_kthread (cpus s' this) = idle_kthread (cpus s this) \<and>
    (let now = clk s (clk_pos s); d = lp_sched_data (cpus s this); d' = lp_sched_data (cpus s' this) in
      if now < sd_next_act d then k = get_current_kthread s (sd_kthread d) \<and> d' = d
      else now < sd_next_act d' \<and> sd_kthread d' = k \<and>
        plan_current d' = (if now < sd_major_frame d then plan_current d else plan_new d) \<and>
        (\<exists>p. plan_current d' = Some p \<and>
          (\<forall>u. now \<le> u \<and> u < sd_next_act d' \<longrightarrow>
             plan_thread c s (get_plan c p) (word_of_int (u - sd_start_exec d')) = k)))"
proof -
  let ?now = "clk s (clk_pos s)" and ?d = "lp_sched_data (cpus s this)"
  define s0 where "s0 = s\<lparr>clk_pos := Suc (clk_pos s)\<rparr>"
  have so: "get_sys_clock_usec s = (?now, s0)" by (simp add: get_sys_clock_usec_def s0_def)
  have v0: "kthreads s0 = kthreads s" "kshape s0 = kshape s" "vt_view s0 = vt_view s" "guest_of s0 = guest_of s"
    "timers s0 = timers s" "cpus s0 = cpus s" "theap s0 = theap s" "clk s0 = clk s" "clk_pos s0 = Suc (clk_pos s)"
    by (simp_all add: s0_def frame_simps vt_view_def guest_of_def fun_eq_iff)
  have i0: "kernel_wf c s0" "timers_inv s0" "queues_ok this s0" "clock_ok s0 B" "sched_inv c this ?now s0"
    using wf ti qo ck si kernel_wf_shape [OF v0(2)] timers_inv_cong [OF v0(5,2,3)]
    by (simp_all add: queues_ok_def v0 clock_ok_def sched_inv_def)
  have r0: "is_kthread_ready s0 k = is_kthread_ready s k" for k
    by (simp add: is_kthread_ready_def are_kthread_flags_set_def v0 split: option.splits)
  show ?thesis
  proof (cases "?now < sd_next_act ?d")
    case True
    then show ?thesis using i0 v0 so by (simp add: get_ready_kthread_def Let_def get_current_kthread_def r0)
  next
    case False
    obtain s1 p where s1: "frame_step c this ?now s0 = Some s1" "sched_only s0 s1" "sched_inv c this ?now s1"
      "plan_current (lp_sched_data (cpus s1 this)) =
        (if ?now < sd_major_frame ?d then plan_current ?d else plan_new ?d)"
      "plan_current (lp_sched_data (cpus s1 this)) = Some p"
      "sd_next_act (lp_sched_data (cpus s1 this)) = sd_next_act ?d"
      "sd_start_exec (lp_sched_data (cpus s1 this)) \<le> ?now"
      "?now < sd_start_exec (lp_sched_data (cpus s1 this)) + uint (major_frame (get_plan c p))"
      using frame_step_runs [OF i0(5)] unfolding Let_def v0(6) by blast
    let ?d1 = "lp_sched_data (cpus s1 this)" and ?pl = "get_plan c p"
    let ?t = "word_of_int (?now - sd_start_exec ?d1) :: u32"
    note V1 = sched_only_views [OF s1(2)]
    have pw: "plan_wf c ?pl" "0 \<le> sd_slot ?d1" "sd_slot ?d1 \<le> num_of_slots ?pl"
      "\<And>j. 0 \<le> j \<Longrightarrow> j < sd_slot ?d1 \<Longrightarrow> sd_start_exec ?d1 + uint (end_exec (slot_entry c ?pl j)) \<le> ?now"
      using s1(3,5) by (auto simp: sched_inv_def Let_def)
    have mfb: "uint (major_frame ?pl) < 2 ^ 32" using uint_lt2p [of "major_frame ?pl"] by simp
    have ut: "uint (word_of_int (u - sd_start_exec ?d1) :: u32) = u - sd_start_exec ?d1"
      if "?now \<le> u" "u < sd_start_exec ?d1 + uint (major_frame ?pl)" for u
      by (rule uint_word_of_int_u32) (use that s1(7) mfb in linarith)+
    have t: "?t < major_frame ?pl" using ut [of ?now] s1(8) by (simp add: word_less_def)
    have past: "end_exec (slot_entry c ?pl j) \<le> ?t" if "0 \<le> j" "j < sd_slot ?d1" for j
      using pw(4) [OF that] ut [of ?now] s1(8) by (simp add: word_le_def)
    have wf1: "kernel_wf c s1" using i0(1) V1(6) by simp
    obtain slot nx where dec: "slot_decision c s1 ?pl ?t (sd_slot ?d1) = Some (slot, plan_thread c s1 ?pl ?t, nx)"
      "?t < nx" "nx \<le> major_frame ?pl" "sd_slot ?d1 \<le> slot" "slot \<le> num_of_slots ?pl"
      "\<forall>j. 0 \<le> j \<and> j < slot \<longrightarrow> end_exec (slot_entry c ?pl j) \<le> ?t"
      "\<forall>u. ?t \<le> u \<and> u < nx \<longrightarrow> plan_thread c s1 ?pl u = plan_thread c s1 ?pl ?t"
      using slot_decision_correct [OF pw(1) wf1 pw(2,3) past t] by blast
    let ?next = "uint nx + sd_start_exec ?d1"
    have nx: "?now < ?next" "?next \<le> sd_start_exec ?d1 + uint (major_frame ?pl)"
      using dec(2,3) ut [of ?now] s1(8) by (simp_all add: word_less_def word_le_def)
    have pt: "plan_thread c s1 ?pl u = plan_thread c s ?pl u" for u
      using V1(7) plan_thread_cong [of s0 s c ?pl u, OF _ v0(2)] v0(1) by simp
    define k where "k = plan_thread c s ?pl ?t"
    define s2 where "s2 = upd_sched this (\<lambda>d. d\<lparr>sd_slot := slot, sd_next_act := ?next\<rparr>) s1"
    have so2: "sched_only s1 s2" by (simp add: s2_def)
    note V2 = sched_only_views [OF so2]
    have i2: "timers_inv s2" "queues_ok this s2" "clock_ok s2 B" "kernel_wf c s2" "clk s2 = clk s" "clk_pos s2 = Suc (clk_pos s)"
      using i0 V1 V2 s1(2) so2 v0 by (simp_all add: sched_only_def)
    have "0 \<le> clk s 0" "mono (clk s)" using ck by (simp_all add: clock_ok_def)
    then have clkb: "0 \<le> ?now" "clk s (clk_pos s) \<le> clk s (Suc (clk_pos s))"
      using monoD [of "clk s" 0 "clk_pos s"] monoD [of "clk s" "clk_pos s" "Suc (clk_pos s)"] by simp_all
    have "2 * nat (B - clk s2 (clk_pos s2)) + 1 < fuel" using fuel clkb(2) by (simp add: i2)
    then obtain s3 where s3: "arm_ktimer hw this fuel (TSched this) ?next 0 s2 = Some (0, s3)" "timers_inv s3"
      "queues_ok this s3" "calm s2 s3"
      using arm_sched_timer_runs [OF i2(1-3) hw, of ?next fuel] nx(1) clkb(1) by auto
    obtain s4 where s4: "announce_slot c ?pl slot k s3 = Some s4" "tame s3 s4"
      using announce_slot_runs by blast
    define s5 where "s5 = upd_sched this (\<lambda>d. d\<lparr>sd_kthread := k\<rparr>) s4"
    have so5: "sched_only s4 s5" by (simp add: s5_def)
    note V5 = sched_only_views [OF so5]
    have d5: "lp_sched_data (cpus s5 this) = ?d1\<lparr>sd_slot := slot, sd_next_act := ?next, sd_kthread := k\<rparr>"
      using s3(4) s4(2) by (simp add: s5_def calm_def tame_def s2_def)
    have run: "get_ready_kthread c hw this fuel s = Some (k, s5)"
      using False so s1(1,5,6) dec(1) nx(1) s3(1) s4(1) pt
      by (simp add: get_ready_kthread_def Let_def v0 s2_def k_def s5_def)
    have "kernel_wf c s5" "timers_inv s5" "queues_ok this s5" "clk s5 = clk s"
      "current_kthread (cpus s5 this) = current_kthread (cpus s this)"
      "idle_kthread (cpus s5 this) = idle_kthread (cpus s this)"
      using s3 s4(2) tame_timers_inv [OF s4(2)] tame_queues_ok [OF s4(2)] V5 so5 i2 so2 s1(2) v0
        kernel_wf_shape [of s3 s2 c] kernel_wf_shape [of s4 s3 c]
      by (simp_all add: calm_def tame_def sched_only_def)
    moreover have "sched_inv c this ?now s5"
    proof -
      have "\<exists>q. plan_new ?d1 = Some q \<and> plan_wf c (get_plan c q)"
        "sd_major_frame ?d1 = sd_start_exec ?d1 + uint (major_frame ?pl)"
        using s1(3,5) by (simp_all add: sched_inv_def Let_def)
      moreover have "sd_start_exec ?d1 + uint (end_exec (slot_entry c ?pl j)) \<le> ?now" if "0 \<le> j" "j < slot" for j
        using dec(6) [rule_format, of j] that ut [of ?now] s1(8) by (simp add: word_le_def)
      moreover have "0 \<le> slot" using pw(2) dec(4) by simp
      ultimately show ?thesis using s1(5,7) d5 pw(1) dec(5) by (simp add: sched_inv_def Let_def)
    qed
    moreover have thr: "plan_thread c s ?pl (word_of_int (u - sd_start_exec ?d1)) = k" if u: "?now \<le> u" "u < ?next" for u
    proof -
      have e: "uint (word_of_int (u - sd_start_exec ?d1) :: u32) = u - sd_start_exec ?d1"
        by (rule ut [OF u(1) order.strict_trans2 [OF u(2) nx(2)]])
      have "?t \<le> word_of_int (u - sd_start_exec ?d1)"
        unfolding word_le_def e ut [OF order.refl s1(8)] using u by simp
      moreover have "word_of_int (u - sd_start_exec ?d1) < nx"
        unfolding word_less_def e using u by simp
      ultimately have "plan_thread c s1 ?pl (word_of_int (u - sd_start_exec ?d1)) = plan_thread c s1 ?pl ?t"
        using dec(7) by blast
      then show ?thesis unfolding pt k_def .
    qed
    moreover have "plan_current (lp_sched_data (cpus s5 this)) =
        (if ?now < sd_major_frame ?d then plan_current ?d else plan_new ?d)"
      using d5 s1(4) by simp
    moreover have sel: "plan_current (lp_sched_data (cpus s5 this)) = Some p"
      "sd_next_act (lp_sched_data (cpus s5 this)) = ?next"
      "sd_start_exec (lp_sched_data (cpus s5 this)) = sd_start_exec ?d1" using d5 s1(5) by simp_all
    moreover have "\<exists>p. plan_current (lp_sched_data (cpus s5 this)) = Some p \<and>
          (\<forall>u. ?now \<le> u \<and> u < sd_next_act (lp_sched_data (cpus s5 this)) \<longrightarrow>
             plan_thread c s (get_plan c p) (word_of_int (u - sd_start_exec (lp_sched_data (cpus s5 this)))) = k)"
      unfolding sel using thr by blast
    moreover have "?now < sd_next_act (lp_sched_data (cpus s5 this))" "sd_kthread (lp_sched_data (cpus s5 this)) = k"
      using d5 nx(1) by simp_all
    ultimately show ?thesis unfolding Let_def if_not_P [OF False] using run
      by (intro exI [of _ k] exI [of _ s5] conjI)
  qed
qed

section \<open>The example system\<close>

lemma demo_plan_wf: "plan_wf demo_conf (get_plan demo_conf (PlanTab 0))"
proof -
  have "{0..<2 :: int} = {0, 1}" by auto
  then show ?thesis
    by (simp add: plan_wf_def get_plan_def slot_entry_def demo_defs Let_def nr_vcpus_def)
qed

lemma demo_sched_inv: "sched_inv demo_conf 0 450 demo_state"
  using demo_plan_wf by (simp add: sched_inv_def Let_def demo_state_def)

section \<open>Properties\<close>

text \<open>C1. A scheduling decision is the one the configured plan prescribes.  Before the next
  scheduling point it keeps the thread chosen last (or idles, if that one is no longer ready).
  Otherwise it chooses the thread whose slot contains the current offset of the frame, if it is
  ready, and idles if there is no such slot or thread; that choice is the one of the plan for every
  instant up to the next scheduling point, which lies in the future; the running plan changes only
  at the end of a major frame, and then to the requested one.\<close>

theorem get_ready_kthread_follows_plan:
  assumes "kernel_wf c s" "timers_inv s" "queues_ok this s" "clock_ok s B"
    and "min_interval hw \<le> max_interval hw" "2 * nat (B - clk s (clk_pos s)) + 1 < fuel"
    and "sched_inv c this (clk s (clk_pos s)) s"
  shows "\<exists>k s'. get_ready_kthread c hw this fuel s = Some (k, s') \<and>
    sched_inv c this (clk s (clk_pos s)) s' \<and>
    (let now = clk s (clk_pos s); d = lp_sched_data (cpus s this); d' = lp_sched_data (cpus s' this) in
      if now < sd_next_act d then k = get_current_kthread s (sd_kthread d) \<and> d' = d
      else now < sd_next_act d' \<and> sd_kthread d' = k \<and>
        plan_current d' = (if now < sd_major_frame d then plan_current d else plan_new d) \<and>
        (\<exists>p. plan_current d' = Some p \<and>
          (\<forall>u. now \<le> u \<and> u < sd_next_act d' \<longrightarrow>
             plan_thread c s (get_plan c p) (word_of_int (u - sd_start_exec d')) = k)))"
  using get_ready_kthread_correct [OF assms] by blast

theorem get_ready_kthread_follows_plan_witness:
  "\<exists>k s'. get_ready_kthread demo_conf \<lparr>min_interval = 2, max_interval = 1000000\<rparr> 0 2 demo_state = Some (k, s') \<and>
     450 < sd_next_act (lp_sched_data (cpus s' 0)) \<and>
     plan_current (lp_sched_data (cpus s' 0)) = Some (PlanTab 0)"
  using get_ready_kthread_follows_plan [OF demo_kernel_wf demo_timers_inv demo_queues_ok demo_clock_ok,
      of "\<lparr>min_interval = 2, max_interval = 1000000\<rparr>" 2] demo_sched_inv
  by (fastforce simp: demo_state_def Let_def)

end
