(* ===== verification/KString.thy ===== *)
theory KString
  imports Prelude
begin

text \<open>
  \<open>core/klibc/string.c\<close>.  A \<open>const char *\<close> that is only read is a \<open>cstr\<close>: the bytes at and after
  the pointer.  A routine that writes takes the memory, from addresses to bytes, and returns it
  updated.  Pointers are 32-bit words and wrap.  A scan for a terminating zero is a
  \<open>partial_function\<close>: the value \<open>None\<close> is a scan that does not end.  \<open>char\<close> is signed on x86.
\<close>

type_synonym cstr = "nat \<Rightarrow> u8"
type_synonym memory = "u32 \<Rightarrow> u8"

definition cstr_at :: "memory \<Rightarrow> u32 \<Rightarrow> cstr" where
  "cstr_at m p = (\<lambda>i. m (p + of_nat i))"

section \<open>Reading\<close>

partial_function (option) strlen_loop :: "cstr \<Rightarrow> nat \<Rightarrow> u32 \<Rightarrow> u32 option" where
  "strlen_loop s p i = (if s p = 0 then Some i else strlen_loop s (Suc p) (i + 1))"

definition strlen :: "cstr option \<Rightarrow> u32 option" where
  "strlen s = (case s of None \<Rightarrow> Some 0 | Some s \<Rightarrow> strlen_loop s 0 0)"

partial_function (option) strcmp_loop :: "cstr \<Rightarrow> cstr \<Rightarrow> nat \<Rightarrow> int option" where
  "strcmp_loop s t i = (if s i \<noteq> t i \<or> s i = 0 then Some (sint (s i) - sint (t i))
     else strcmp_loop s t (Suc i))"

definition strcmp :: "cstr \<Rightarrow> cstr \<Rightarrow> int option" where
  "strcmp s t = strcmp_loop s t 0"

text \<open>\<open>memcmp\<close> compares signed bytes, \<open>strncmp\<close> unsigned ones; the second argument of the loops
  is the number of bytes left.\<close>

fun memcmp_loop :: "cstr \<Rightarrow> cstr \<Rightarrow> nat \<Rightarrow> nat \<Rightarrow> int" where
  "memcmp_loop d s i 0 = 0"
| "memcmp_loop d s i (Suc k) =
     (let r = sint (d i) - sint (s i) in if r \<noteq> 0 then r else memcmp_loop d s (Suc i) k)"

definition memcmp :: "cstr \<Rightarrow> cstr \<Rightarrow> u32 \<Rightarrow> int" where
  "memcmp d s count = memcmp_loop d s 0 (unat count)"

fun strncmp_loop :: "cstr \<Rightarrow> cstr \<Rightarrow> nat \<Rightarrow> nat \<Rightarrow> int" where
  "strncmp_loop a b i 0 = 0"
| "strncmp_loop a b i (Suc k) =
     (let r = uint (a i) - uint (b i) in
      if r \<noteq> 0 then r else if a i = 0 then 0 else strncmp_loop a b (Suc i) k)"

definition strncmp :: "cstr \<Rightarrow> cstr \<Rightarrow> u32 \<Rightarrow> int" where
  "strncmp a b n = strncmp_loop a b 0 (unat n)"

text \<open>The position found, relative to the pointer given; the inner \<open>None\<close> is the null pointer.\<close>

partial_function (option) strrchr_loop :: "cstr \<Rightarrow> u8 \<Rightarrow> nat \<Rightarrow> nat option \<Rightarrow> nat option option" where
  "strrchr_loop t ch i l = (let l = (if t i = ch then Some i else l) in
     if t i = 0 then Some l else strrchr_loop t ch (Suc i) l)"

definition strrchr :: "cstr \<Rightarrow> int \<Rightarrow> nat option option" where
  "strrchr t c = strrchr_loop t (word_of_int c) 0 None"

partial_function (option) strchr_loop :: "cstr \<Rightarrow> u8 \<Rightarrow> nat \<Rightarrow> nat option option" where
  "strchr_loop t ch i = (if t i = ch then Some (Some i) else if t i = 0 then Some None
     else strchr_loop t ch (Suc i))"

definition strchr :: "cstr \<Rightarrow> int \<Rightarrow> nat option option" where
  "strchr t c = strchr_loop t (word_of_int c) 0"

fun strstr_loop :: "cstr \<Rightarrow> cstr \<Rightarrow> u32 \<Rightarrow> nat \<Rightarrow> nat \<Rightarrow> nat option" where
  "strstr_loop h n nl p 0 = None"
| "strstr_loop h n nl p (Suc i) =
     (if h p = n 0 \<and> memcmp (\<lambda>j. h (p + j)) n nl = 0 then Some p else strstr_loop h n nl (Suc p) i)"

definition strstr :: "cstr \<Rightarrow> cstr \<Rightarrow> nat option option" where
  "strstr h n = do {
     nl \<leftarrow> strlen (Some n);
     hl \<leftarrow> strlen (Some h);
     if nl = 0 then Some (Some 0)
     else if nl > hl then Some None
     else Some (strstr_loop h n nl 0 (unat (hl - nl + 1))) }"

section \<open>Writing\<close>

fun memset_loop :: "u32 \<Rightarrow> u8 \<Rightarrow> nat \<Rightarrow> memory \<Rightarrow> memory" where
  "memset_loop a s 0 m = m"
| "memset_loop a s (Suc k) m = memset_loop (a + 1) s k (m(a := s))"

text \<open>The counter is incremented before a loop that decrements it first: a count of
  \<open>0xffffffff\<close> wraps to zero and the loop runs \<open>2\<^sup>32 - 1\<close> times, as it should.\<close>

definition memset :: "u32 \<Rightarrow> int \<Rightarrow> u32 \<Rightarrow> memory \<Rightarrow> memory" where
  "memset dst s count m = memset_loop dst (word_of_int s) (unat count) m"

fun memcpy_loop :: "u32 \<Rightarrow> u32 \<Rightarrow> nat \<Rightarrow> memory \<Rightarrow> memory" where
  "memcpy_loop d s 0 m = m"
| "memcpy_loop d s (Suc k) m = memcpy_loop (d + 1) (s + 1) k (m(d := m s))"

definition memcpy :: "u32 \<Rightarrow> u32 \<Rightarrow> u32 \<Rightarrow> memory \<Rightarrow> memory" where
  "memcpy dst src count m = memcpy_loop dst src (unat count) m"

fun memmove_down :: "u32 \<Rightarrow> u32 \<Rightarrow> nat \<Rightarrow> memory \<Rightarrow> memory" where
  "memmove_down a b 0 m = m"
| "memmove_down a b (Suc k) m = memmove_down (a - 1) (b - 1) k (m(a := m b))"

definition memmove :: "u32 \<Rightarrow> u32 \<Rightarrow> u32 \<Rightarrow> memory \<Rightarrow> memory" where
  "memmove dst src count m =
     (if src = dst then m
      else if src > dst then memcpy_loop dst src (unat count) m
      else memmove_down (dst + (count - 1)) (src + (count - 1)) (unat count) m)"

partial_function (option) strcpy_loop :: "u32 \<Rightarrow> u32 \<Rightarrow> memory \<Rightarrow> memory option" where
  "strcpy_loop d s m = (let m' = m(d := m s) in
     if m s = 0 then Some m' else strcpy_loop (d + 1) (s + 1) m')"

definition strcpy :: "u32 \<Rightarrow> u32 \<Rightarrow> memory \<Rightarrow> memory option" where
  "strcpy dst src m = strcpy_loop dst src m"

text \<open>\<open>strncpy\<close>: the copying loop returns the position reached with the memory.\<close>

fun strncpy_loop :: "u32 \<Rightarrow> u32 \<Rightarrow> nat \<Rightarrow> nat \<Rightarrow> memory \<Rightarrow> nat \<times> memory" where
  "strncpy_loop dst src j 0 m = (j, m)"
| "strncpy_loop dst src j (Suc k) m =
     (if m (src + of_nat j) = 0 then (j, m)
      else strncpy_loop dst src (Suc j) k (m(dst + of_nat j := m (src + of_nat j))))"

definition strncpy :: "u32 \<Rightarrow> u32 \<Rightarrow> u32 \<Rightarrow> memory \<Rightarrow> memory" where
  "strncpy dst src n m =
     (let m = memset dst 0 n m;
          (j, m) = strncpy_loop dst src 0 (unat n) m
      in if j \<ge> unat n then m(dst + (n - 1) := 0) else m)"

definition strcat :: "u32 \<Rightarrow> u32 \<Rightarrow> memory \<Rightarrow> memory option" where
  "strcat s t m = do {
     n \<leftarrow> strlen (Some (cstr_at m s));
     strcpy_loop (s + n) t m }"

partial_function (option) strncat_loop :: "u32 \<Rightarrow> u32 \<Rightarrow> u32 \<Rightarrow> memory \<Rightarrow> memory option" where
  "strncat_loop s t mx m = (let m' = m(s := m t) in
     if m t = 0 then Some (m'(s := 0))
     else if s + 1 = mx then Some (m'(s + 1 := 0))
     else strncat_loop (s + 1) (t + 1) mx m')"

definition strncat :: "u32 \<Rightarrow> u32 \<Rightarrow> u32 \<Rightarrow> memory \<Rightarrow> memory option" where
  "strncat s t n m = do {
     l \<leftarrow> strlen (Some (cstr_at m s));
     let s = s + l;
     if s + n = s then Some m else strncat_loop s t (s + n) m }"

declare strlen_loop.simps [code] strcmp_loop.simps [code] strrchr_loop.simps [code]
  strchr_loop.simps [code] strcpy_loop.simps [code] strncat_loop.simps [code]

section \<open>Terminated strings\<close>

text \<open>\<open>cstr_is s xs\<close>: the terminated string at the pointer is \<open>xs\<close>.\<close>

definition cstr_is :: "cstr \<Rightarrow> u8 list \<Rightarrow> bool" where
  "cstr_is s xs \<longleftrightarrow> (\<forall>i < length xs. s i = xs ! i \<and> xs ! i \<noteq> 0) \<and> s (length xs) = 0"

definition bytes :: "u8 list \<Rightarrow> cstr" where
  "bytes xs i = (if i < length xs then xs ! i else 0)"

lemma cstr_is_bytes: "0 \<notin> set xs \<Longrightarrow> cstr_is (bytes xs) xs"
  by (auto simp: cstr_is_def bytes_def dest: nth_mem)

lemma strlen_loop_terminated:
  assumes "\<forall>j < n. s (p + j) \<noteq> 0" and "s (p + n) = 0"
  shows "strlen_loop s p i = Some (i + of_nat n)"
  using assms
proof (induction n arbitrary: p i)
  case 0
  then show ?case by (simp add: strlen_loop.simps)
next
  case (Suc n)
  have "s p \<noteq> 0" using Suc.prems(1) by force
  moreover have "strlen_loop s (Suc p) (i + 1) = Some (i + 1 + of_nat n)"
  proof (rule Suc.IH)
    show "\<forall>j<n. s (Suc p + j) \<noteq> 0" using Suc.prems(1) by force
    show "s (Suc p + n) = 0" using Suc.prems(2) by simp
  qed
  ultimately show ?case by (subst strlen_loop.simps) simp
qed

lemma strlen_cstr: "cstr_is s xs \<Longrightarrow> strlen (Some s) = Some (of_nat (length xs))"
  using strlen_loop_terminated [of "length xs" s 0 0] by (auto simp: strlen_def cstr_is_def)

lemma strncmp_loop_Suc_zero: "strncmp_loop a b i (Suc k) = 0 \<longleftrightarrow>
    a i = b i \<and> (a i = 0 \<or> strncmp_loop a b (Suc i) k = 0)"
  by (auto simp: Let_def word_uint_eq_iff)

lemma memcmp_loop_Suc_zero: "memcmp_loop d s i (Suc k) = 0 \<longleftrightarrow>
    d i = s i \<and> memcmp_loop d s (Suc i) k = 0"
  by (auto simp: Let_def signed_word_eqI)

declare strncmp_loop.simps(2) [simp del] memcmp_loop.simps(2) [simp del]

lemma strncmp_loop_zero:
  "strncmp_loop a b i k = 0 \<longleftrightarrow>
     (\<forall>j < k. a (i + j) = b (i + j) \<or> (\<exists>l < j. a (i + l) = 0 \<and> b (i + l) = 0))"
proof (induction k arbitrary: i)
  case (Suc k)
  have "(\<forall>j < Suc k. a (i + j) = b (i + j) \<or> (\<exists>l < j. a (i + l) = 0 \<and> b (i + l) = 0)) \<longleftrightarrow>
    a i = b i \<and> (a i = 0 \<or> (\<forall>j < k. a (Suc i + j) = b (Suc i + j) \<or> (\<exists>l < j. a (Suc i + l) = 0 \<and> b (Suc i + l) = 0)))"
    (is "?L \<longleftrightarrow> ?R")
  proof
    assume L: ?L
    then have h: "a i = b i" by force
    have "a (Suc i + j) = b (Suc i + j) \<or> (\<exists>l < j. a (Suc i + l) = 0 \<and> b (Suc i + l) = 0)"
      if "j < k" "a i \<noteq> 0" for j
      using spec [OF L, of "Suc j"] that by (force simp: less_Suc_eq_0_disj)
    with h show ?R by blast
  next
    assume R: ?R
    show ?L
    proof (intro allI impI)
      fix j assume "j < Suc k"
      show "a (i + j) = b (i + j) \<or> (\<exists>l < j. a (i + l) = 0 \<and> b (i + l) = 0)"
      proof (cases j)
        case 0 with R show ?thesis by simp
      next
        case (Suc j')
        show ?thesis
        proof (cases "a i = 0")
          case True with R Suc show ?thesis by (intro disjI2 exI [of _ 0]) simp
        next
          case False
          with R Suc \<open>j < Suc k\<close> consider "a (Suc i + j') = b (Suc i + j')"
            | l where "l < j'" "a (Suc i + l) = 0" "b (Suc i + l) = 0" by auto
          then show ?thesis
          proof cases
            case 1 with Suc show ?thesis by simp
          next
            case 2 with Suc show ?thesis by (intro disjI2 exI [of _ "Suc l"]) simp
          qed
        qed
      qed
    qed
  qed
  then show ?case using Suc.IH [of "Suc i"] by (simp add: strncmp_loop_Suc_zero)
qed simp

lemma memcmp_loop_zero: "memcmp_loop d s i k = 0 \<longleftrightarrow> (\<forall>j < k. d (i + j) = s (i + j))"
proof (induction k arbitrary: i)
  case (Suc k)
  have "(\<forall>j < Suc k. d (i + j) = s (i + j)) \<longleftrightarrow> d i = s i \<and> (\<forall>j < k. d (Suc i + j) = s (Suc i + j))"
    by (auto simp: less_Suc_eq_0_disj)
  then show ?case using Suc.IH [of "Suc i"] by (simp add: memcmp_loop_Suc_zero)
qed simp

section \<open>Block moves\<close>

lemma memcpy_loop_frame:
  "(\<And>j. j < k \<Longrightarrow> x \<noteq> d + of_nat j) \<Longrightarrow> memcpy_loop d s k m x = m x"
proof (induction k arbitrary: d s m)
  case (Suc k)
  have "x \<noteq> d" using Suc.prems [of 0] by simp
  moreover have "x \<noteq> d + 1 + of_nat j" if "j < k" for j
    using Suc.prems [of "Suc j"] that by (simp add: add.assoc)
  ultimately show ?case using Suc.IH by simp
qed simp

lemma memcpy_loop_moves:
  assumes "\<And>i j. i < j \<Longrightarrow> j < k \<Longrightarrow> d + of_nat i \<noteq> s + of_nat j"
    and "\<And>i j. i < j \<Longrightarrow> j < k \<Longrightarrow> d + of_nat i \<noteq> d + of_nat j"
    and "i < k"
  shows "memcpy_loop d s k m (d + of_nat i) = m (s + of_nat i)"
  using assms
proof (induction k arbitrary: d s i m)
  case (Suc k)
  have away: "d + 1 + of_nat i' \<noteq> d" if "i' < k" for i'
    using Suc.prems(2) [of 0 "Suc i'"] that by (simp add: add.assoc)
  show ?case
  proof (cases i)
    case 0
    with away memcpy_loop_frame [of k d "d + 1" "s + 1" "m(d := m s)"] show ?thesis by fastforce
  next
    case (Suc i')
    have "memcpy_loop (d + 1) (s + 1) k (m(d := m s)) (d + 1 + of_nat i') = (m(d := m s)) (s + 1 + of_nat i')"
    proof (rule Suc.IH)
      fix a b assume "a < b" "b < k"
      then show "d + 1 + of_nat a \<noteq> s + 1 + of_nat b" "d + 1 + of_nat a \<noteq> d + 1 + of_nat b"
        using Suc.prems(1,2) [of "Suc a" "Suc b"] by (simp_all add: add.assoc)
    qed (use Suc Suc.prems(3) in simp)
    moreover have "s + 1 + of_nat i' \<noteq> d"
      using Suc.prems(1) [of 0 "Suc i'"] Suc Suc.prems(3) by (simp add: add.assoc)
    ultimately show ?thesis using Suc by (simp add: add.assoc)
  qed
qed simp

lemma memmove_down_frame:
  "(\<And>j. j < k \<Longrightarrow> x \<noteq> a - of_nat j) \<Longrightarrow> memmove_down a b k m x = m x"
proof (induction k arbitrary: a b m)
  case (Suc k)
  have "x \<noteq> a" using Suc.prems [of 0] by simp
  moreover have "x \<noteq> a - 1 - of_nat j" if "j < k" for j
    using Suc.prems [of "Suc j"] that by (simp add: algebra_simps)
  ultimately show ?case using Suc.IH by simp
qed simp

lemma memmove_down_moves:
  assumes "\<And>i j. i < j \<Longrightarrow> j < k \<Longrightarrow> a - of_nat i \<noteq> b - of_nat j"
    and "\<And>i j. i < j \<Longrightarrow> j < k \<Longrightarrow> a - of_nat i \<noteq> a - of_nat j"
    and "i < k"
  shows "memmove_down a b k m (a - of_nat i) = m (b - of_nat i)"
  using assms
proof (induction k arbitrary: a b i m)
  case (Suc k)
  have away: "a - 1 - of_nat i' \<noteq> a" if "i' < k" for i'
    using Suc.prems(2) [of 0 "Suc i'"] that by (simp add: diff_diff_eq)
  show ?case
  proof (cases i)
    case 0
    with away memmove_down_frame [of k a "a - 1" "b - 1" "m(a := m b)"] show ?thesis by fastforce
  next
    case (Suc i')
    have "memmove_down (a - 1) (b - 1) k (m(a := m b)) (a - 1 - of_nat i') = (m(a := m b)) (b - 1 - of_nat i')"
    proof (rule Suc.IH)
      fix x y assume "x < y" "y < k"
      then show "a - 1 - of_nat x \<noteq> b - 1 - of_nat y" "a - 1 - of_nat x \<noteq> a - 1 - of_nat y"
        using Suc.prems(1,2) [of "Suc x" "Suc y"] by (simp_all add: diff_diff_eq)
    qed (use Suc Suc.prems(3) in simp)
    moreover have "b - 1 - of_nat i' \<noteq> a"
      using Suc.prems(1) [of 0 "Suc i'"] Suc Suc.prems(3) by (simp add: diff_diff_eq)
    ultimately show ?thesis using Suc by (simp add: diff_diff_eq)
  qed
qed simp

lemma block_addresses:
  fixes d n :: u32
  assumes "unat d + unat n \<le> 2 ^ 32" and "i < unat n"
  shows "unat (d + of_nat i) = unat d + i"
    and "d + (n - 1) - of_nat i = d + of_nat (unat n - 1 - i)"
proof -
  show "unat (d + of_nat i) = unat d + i" using assms by (intro unat_add_of_nat) simp
  have "(of_nat (unat n - Suc i) :: u32) = n - of_nat (Suc i)"
    using assms(2) by (subst of_nat_diff) simp_all
  then show "d + (n - 1) - of_nat i = d + of_nat (unat n - 1 - i)" by (simp add: algebra_simps)
qed

lemma block_distinct:
  assumes "unat (d :: u32) + n \<le> 2 ^ 32" and "i < n" "j < n"
  shows "d + of_nat i = d + of_nat j \<longleftrightarrow> i = j"
  using assms unat_add_of_nat [of d i] unat_add_of_nat [of d j] by (metis add_left_cancel add_less_cancel_left order_less_le_trans)

section \<open>Properties\<close>

text \<open>C27. \<open>memmove\<close> copies correctly whatever the overlap: when neither region wraps around the
  address space, every byte of the destination is the byte the source held before the call, and
  no other byte of the memory changes.\<close>

theorem memmove_correct:
  assumes dst: "unat dst + unat n \<le> 2 ^ 32" and src: "unat src + unat n \<le> 2 ^ 32"
  shows "(\<forall>i < unat n. memmove dst src n m (dst + of_nat i) = m (src + of_nat i)) \<and>
    (\<forall>x. (\<forall>i < unat n. x \<noteq> dst + of_nat i) \<longrightarrow> memmove dst src n m x = m x)"
proof -
  let ?a = "dst + (n - 1)" and ?b = "src + (n - 1)"
  note d = block_addresses [OF dst] and s = block_addresses [OF src]
  have apart: "dst + of_nat i \<noteq> src + of_nat j" if "i < unat n" "j < unat n"
    "i \<le> j \<and> dst < src \<or> j \<le> i \<and> src < dst" for i j
    using d(1) [OF that(1)] s(1) [OF that(2)] that(3) by (auto simp: word_less_nat_alt)
  have up: "memcpy_loop dst src (unat n) m (dst + of_nat i) = m (src + of_nat i)"
    if "dst < src" "i < unat n" for i
    using that apart block_distinct [OF dst] by (intro memcpy_loop_moves) auto
  have down: "memmove_down ?a ?b (unat n) m (dst + of_nat i) = m (src + of_nat i)"
    if "src < dst" "i < unat n" for i
  proof -
    let ?j = "unat n - 1 - i"
    have "memmove_down ?a ?b (unat n) m (?a - of_nat ?j) = m (?b - of_nat ?j)"
    proof (rule memmove_down_moves)
      fix x y assume xy: "x < y" "y < unat n"
      then have "unat n - 1 - y \<le> unat n - 1 - x" "unat n - 1 - y \<noteq> unat n - 1 - x" by linarith+
      with xy show "?a - of_nat x \<noteq> ?b - of_nat y" "?a - of_nat x \<noteq> ?a - of_nat y"
        using apart [of "unat n - 1 - x" "unat n - 1 - y"] that(1) d(2) s(2)
          block_distinct [OF dst, of "unat n - 1 - x" "unat n - 1 - y"] by simp_all
    qed (use that(2) in simp)
    moreover have "unat n - 1 - ?j = i" using that(2) by simp
    ultimately show ?thesis using d(2) [of ?j] s(2) [of ?j] that(2) by simp
  qed
  have "\<forall>i < unat n. memmove dst src n m (dst + of_nat i) = m (src + of_nat i)"
    using up down by (simp add: memmove_def not_less order_less_le)
  moreover have "memmove dst src n m x = m x" if x: "\<forall>i < unat n. x \<noteq> dst + of_nat i" for x
  proof -
    have "memcpy_loop dst src (unat n) m x = m x" using x by (simp add: memcpy_loop_frame)
    moreover have "memmove_down ?a ?b (unat n) m x = m x"
    proof (rule memmove_down_frame)
      fix j assume "j < unat n"
      then have "unat n - 1 - j < unat n" by linarith
      with x show "x \<noteq> ?a - of_nat j" unfolding d(2) [OF \<open>j < unat n\<close>] by blast
    qed
    ultimately show ?thesis by (simp add: memmove_def)
  qed
  ultimately show ?thesis by blast
qed

theorem memmove_correct_witness:
  "memmove 0xfffffffc 0xfffffffd 3 (\<lambda>x. ucast x) 0xfffffffd = 0xfe"
  using memmove_correct [of "0xfffffffc" 3 "0xfffffffd" "\<lambda>x. ucast x"]
  by (auto dest!: spec [where x = 1])

text \<open>C26. \<open>strstr\<close> on terminated strings shorter than the address space always returns: the
  position of the first occurrence of the needle, or null when there is none.\<close>

theorem strstr_first_occurrence:
  assumes h: "cstr_is h xs" and n: "cstr_is n ys" and len: "length xs < 2 ^ 32 - 1" "length ys < 2 ^ 32"
  shows "\<exists>r. strstr h n = Some r \<and> (case r of
      None \<Rightarrow> \<forall>p. p + length ys \<le> length xs \<longrightarrow> take (length ys) (drop p xs) \<noteq> ys
    | Some p \<Rightarrow> p + length ys \<le> length xs \<and> take (length ys) (drop p xs) = ys \<and>
        (\<forall>q < p. take (length ys) (drop q xs) \<noteq> ys))"
proof -
  let ?n = "length ys" and ?h = "length xs"
  have ul: "unat (of_nat ?n :: u32) = ?n" "unat (of_nat ?h :: u32) = ?h"
    using len by (simp_all add: unat_of_nat)
  have occ: "h p = n 0 \<and> memcmp (\<lambda>j. h (p + j)) n (of_nat ?n) = 0 \<longleftrightarrow> take ?n (drop p xs) = ys"
    if "p + ?n \<le> ?h" "ys \<noteq> []" for p
  proof -
    have rd: "h (p + j) = xs ! (p + j)" "n j = ys ! j" if "j < ?n" for j
      using that \<open>p + ?n \<le> ?h\<close> h n by (simp_all add: cstr_is_def)
    have eq: "take ?n (drop p xs) = ys \<longleftrightarrow> (\<forall>j < ?n. xs ! (p + j) = ys ! j)"
      using that(1) by (simp add: list_eq_iff_nth_eq)
    have "memcmp (\<lambda>j. h (p + j)) n (of_nat ?n) = 0 \<longleftrightarrow> take ?n (drop p xs) = ys"
      unfolding eq memcmp_def memcmp_loop_zero ul using rd by simp
    moreover have "h p = n 0" if "take ?n (drop p xs) = ys"
      using that [unfolded eq, rule_format, of 0] rd [of 0] \<open>ys \<noteq> []\<close> by simp
    ultimately show ?thesis by blast
  qed
  have loop: "case strstr_loop h n (of_nat ?n) p k of
      None \<Rightarrow> \<forall>q. p \<le> q \<and> q + ?n \<le> ?h \<longrightarrow> take ?n (drop q xs) \<noteq> ys
    | Some r \<Rightarrow> p \<le> r \<and> r + ?n \<le> ?h \<and> take ?n (drop r xs) = ys \<and>
        (\<forall>q. p \<le> q \<and> q < r \<longrightarrow> take ?n (drop q xs) \<noteq> ys)"
    if "p + ?n + k = Suc ?h" "ys \<noteq> []" for p k
    using that(1)
  proof (induction k arbitrary: p)
    case (Suc k)
    show ?case
    proof (cases "take ?n (drop p xs) = ys")
      case True
      with occ [of p] Suc.prems that(2) show ?thesis by simp
    next
      case False
      then have *: "p \<le> q \<and> take ?n (drop q xs) = ys \<longleftrightarrow> Suc p \<le> q \<and> take ?n (drop q xs) = ys" for q
        by (auto simp: le_eq_less_or_eq)
      from False occ [of p] Suc.prems that(2)
      have step: "strstr_loop h n (of_nat ?n) p (Suc k) = strstr_loop h n (of_nat ?n) (Suc p) k" by auto
      have "Suc p + ?n + k = Suc ?h" using Suc.prems by simp
      note IH = Suc.IH [OF this]
      show ?thesis
      proof (cases "strstr_loop h n (of_nat ?n) (Suc p) k")
        case None
        with IH have "\<forall>q. Suc p \<le> q \<and> q + ?n \<le> ?h \<longrightarrow> take ?n (drop q xs) \<noteq> ys" by simp
        then show ?thesis unfolding step None option.case using * by blast
      next
        case (Some r)
        with IH have "Suc p \<le> r" "r + ?n \<le> ?h" "take ?n (drop r xs) = ys"
          "\<forall>q. Suc p \<le> q \<and> q < r \<longrightarrow> take ?n (drop q xs) \<noteq> ys" by simp_all
        then show ?thesis unfolding step Some option.case using * Suc_leD by blast
      qed
    qed
  qed auto
  have z: "(of_nat ?n :: u32) = 0 \<longleftrightarrow> ys = []"
    using ul(1) by (cases ys) (auto simp: word_unat_eq_iff simp del: of_nat_Suc)
  show ?thesis
  proof (cases "ys = []")
    case True
    then show ?thesis using strlen_cstr [OF h] strlen_cstr [OF n] by (simp add: strstr_def)
  next
    case False
    note len1 = strlen_cstr [OF h] strlen_cstr [OF n]
    show ?thesis
    proof (cases "?h < ?n")
      case True
      then have "(of_nat ?n :: u32) > of_nat ?h" using ul by (simp add: word_less_nat_alt)
      with True False z show ?thesis by (simp add: strstr_def len1)
    next
      case False
      then have le: "\<not> (of_nat ?n :: u32) > of_nat ?h" using ul by (simp add: word_less_nat_alt)
      have "(of_nat ?h - of_nat ?n + 1 :: u32) = of_nat (?h - ?n + 1)"
        using False by (simp add: of_nat_diff)
      then have "unat (of_nat ?h - of_nat ?n + 1 :: u32) = ?h - ?n + 1"
        using len(1) by (simp add: unat_of_nat del: of_nat_diff of_nat_add of_nat_Suc)
      then have "strstr h n = Some (strstr_loop h n (of_nat ?n) 0 (?h - ?n + 1))"
        using le z \<open>ys \<noteq> []\<close> by (simp add: strstr_def len1)
      with loop [of 0 "?h - ?n + 1"] False \<open>ys \<noteq> []\<close> show ?thesis by (auto split: option.splits)
    qed
  qed
qed

theorem strstr_first_occurrence_witness:
  "strstr (bytes [1, 2, 2, 3]) (bytes [2, 3]) = Some (Some 2)"
proof -
  have "cstr_is (bytes [1, 2, 2, 3]) [1, 2, 2, 3]" "cstr_is (bytes [2, 3]) [2, 3]" by (simp_all add: cstr_is_bytes)
  moreover have len: "length [1, 2, 2, 3 :: u8] = 4" "length [2, 3 :: u8] = 2" by simp_all
  ultimately obtain r where r: "strstr (bytes [1, 2, 2, 3]) (bytes [2, 3]) = Some r"
    "case r of None \<Rightarrow> \<forall>p. p + 2 \<le> 4 \<longrightarrow> take 2 (drop p [1, 2, 2, 3 :: u8]) \<noteq> [2, 3]
     | Some p \<Rightarrow> p + 2 \<le> 4 \<and> take 2 (drop p [1, 2, 2, 3 :: u8]) = [2, 3] \<and> (\<forall>q < p. take 2 (drop q [1, 2, 2, 3 :: u8]) \<noteq> [2, 3])"
    using strstr_first_occurrence [of "bytes [1, 2, 2, 3]" "[1, 2, 2, 3]" "bytes [2, 3]" "[2, 3]", unfolded len] by auto
  show ?thesis
  proof (cases r)
    case None
    with r(2) show ?thesis by (auto dest: spec [of _ 2])
  next
    case (Some p)
    with r(2) have p: "p \<le> 2" "take 2 (drop p [1, 2, 2, 3 :: u8]) = [2, 3]" by auto
    then consider "p = 0" | "p = 1" | "p = 2" by linarith
    then show ?thesis using p(2) r(1) Some by cases simp_all
  qed
qed

text \<open>A loop that stores byte after byte.\<close>

lemma for_upto_store:
  "n \<le> 2 ^ 32 \<Longrightarrow> for_upto n (\<lambda>e m. m(p + of_nat e := b e)) m (a :: u32) =
     (if unat (a - p) < n then b (unat (a - p)) else m a)"
proof (induction n)
  case (Suc n)
  have "a = p + of_nat n \<longleftrightarrow> unat (a - p) = n"
  proof
    assume "unat (a - p) = n"
    then have "a - p = of_nat n" by (metis of_nat_unat ucast_id)
    then show "a = p + of_nat n" by (simp add: algebra_simps)
  qed (use Suc.prems unat_of_nat32 [of n] in simp)
  then show ?case using Suc by (auto simp: less_Suc_eq)
qed simp

end
