(* ===== verification/KStdlib.thy ===== *)
theory KStdlib
  imports KString
begin

text \<open>
  \<open>core/klibc/stdlib.c\<close> and the character classes of \<open>core/include/stdc.h\<close>: the conversions of
  digit strings to integers, and \<open>basename\<close>.  A \<open>char **endptr\<close> is the position it points to in
  the string, \<open>None\<close> when it points elsewhere; a routine returns its result with the new position.
  \<open>long\<close> has 32 bits.
\<close>

section \<open>Character classes\<close>

text \<open>Each argument is promoted to \<open>int\<close>; the differences are compared as \<open>prtos_u32_t\<close>.\<close>

definition chr_diff :: "int \<Rightarrow> int \<Rightarrow> u32" where
  "chr_diff ch x = word_of_int (ch - x)"

definition isdigit :: "int \<Rightarrow> bool" where
  "isdigit ch \<longleftrightarrow> chr_diff ch 48 < 10"

definition isspace :: "int \<Rightarrow> bool" where
  "isspace ch \<longleftrightarrow> chr_diff ch 9 < 5 \<or> ch = 32"

definition isxdigit :: "int \<Rightarrow> bool" where
  "isxdigit ch \<longleftrightarrow> chr_diff ch 48 < 10 \<or> chr_diff (or ch 0x20) 97 < 6"

definition isalnum :: "int \<Rightarrow> bool" where
  "isalnum ch \<longleftrightarrow> chr_diff (or ch 0x20) 97 < 26 \<or> chr_diff ch 48 < 10"

section \<open>Conversions\<close>

text \<open>The value of a character as a digit, in an \<open>unsigned char\<close>.\<close>

definition digit_val :: "u8 \<Rightarrow> u8" where
  "digit_val c = (if c \<ge> 97 then c - 97 + 10 else if c \<ge> 65 then c - 65 + 10
     else if c \<le> 57 then c - 48 else 0xff)"

partial_function (option) skip_space :: "cstr \<Rightarrow> nat \<Rightarrow> nat option" where
  "skip_space s p = (if isspace (sint (s p)) then skip_space s (Suc p) else Some p)"

definition ulong_step :: "int \<Rightarrow> u8 \<Rightarrow> u32 \<Rightarrow> bool \<Rightarrow> u32 \<times> bool" where
  "ulong_step base c v overflow =
     (let x = (v AND 0xff) * word_of_int base + ucast c;
          w = drop_bit 8 v * word_of_int base + drop_bit 8 x
      in (push_bit 8 w + (x AND 0xff), overflow \<or> w > drop_bit 8 0xffffffff))"

partial_function (option) ulong_loop ::
    "cstr \<Rightarrow> int \<Rightarrow> nat \<Rightarrow> u32 \<Rightarrow> bool \<Rightarrow> (nat \<times> u32 \<times> bool) option" where
  "ulong_loop s base p v overflow =
     (if s p = 0 then Some (p, v, overflow)
      else if uint (digit_val (s p)) \<ge> base then Some (p, v, overflow)
      else case ulong_step base (digit_val (s p)) v overflow of
        (v, overflow) \<Rightarrow> ulong_loop s base (Suc p) v overflow)"

text \<open>The prefix: sign, base, \<open>0x\<close>.  The result is the sign, the position \<open>orig\<close> after it, the
  position of the digits and the base; the inner \<open>None\<close> is the early return on an invalid base.\<close>

definition skip0x :: "cstr \<Rightarrow> nat \<Rightarrow> int \<Rightarrow> nat \<times> int" where
  "skip0x s p base = (if (s (p + 1) = 120 \<or> s (p + 1) = 88) \<and> isxdigit (sint (s (p + 2)))
     then (p + 2, 16) else (p, base))"

definition num_prefix :: "cstr \<Rightarrow> nat \<Rightarrow> int \<Rightarrow> (bool \<times> nat \<times> nat \<times> int) option option" where
  "num_prefix s ptr base = do {
     p \<leftarrow> skip_space s ptr;
     let (neg, p) = (if s p = 45 then (True, p + 1) else if s p = 43 then (False, p + 1) else (False, p));
     let orig = p;
     if base = 16 \<and> s p = 48 then let (p, base) = skip0x s p base in Some (Some (neg, orig, p, base))
     else if base \<noteq> 0 then
       if (word_of_int (base - 2) :: u32) > 34 then Some None else Some (Some (neg, orig, p, base))
     else if s p = 48 then let (p, base) = skip0x s p 8 in Some (Some (neg, orig, p, base))
     else Some (Some (neg, orig, p, 10)) }"

definition strtoul :: "cstr \<Rightarrow> nat \<Rightarrow> nat option \<Rightarrow> int \<Rightarrow> (u32 \<times> nat option) option" where
  "strtoul s ptr endp base = do {
     r \<leftarrow> num_prefix s ptr base;
     case r of None \<Rightarrow> Some (0, endp)
     | Some (neg, orig, p, base) \<Rightarrow> do {
         (p, v, overflow) \<leftarrow> ulong_loop s base p 0 False;
         let (p, v) = (if p = orig then (ptr, 0) else (p, v));
         Some (if overflow then 0xffffffff else if neg then - v else v, Some p) } }"

definition ABS_LONG_MIN :: u32 where "ABS_LONG_MIN = 2147483648"

definition strtol :: "cstr \<Rightarrow> nat \<Rightarrow> nat option \<Rightarrow> int \<Rightarrow> (int \<times> nat option) option" where
  "strtol s orig endp base = do {
     p \<leftarrow> skip_space s orig;
     let (neg, p) = (if s p = 45 \<and> isalnum (sint (s (p + 1))) then (True, p + 1) else (False, p));
     (v, endp) \<leftarrow> strtoul s p endp base;
     let endp = (if endp = Some p then Some orig else endp);
     if v \<ge> ABS_LONG_MIN then
       if v = ABS_LONG_MIN \<and> neg then Some (sint v, endp)
       else Some (if neg then - 2147483648 else 2147483647, endp)
     else Some (sint (if neg then - v else v), endp) }"

text \<open>\<open>v\<close> is a \<open>prtos_s64_t\<close>: its right shift is arithmetic.\<close>

definition ullong_step :: "int \<Rightarrow> u8 \<Rightarrow> u64 \<Rightarrow> bool \<Rightarrow> u64 \<times> bool" where
  "ullong_step base c v overflow =
     (let x = ucast ((v AND 0x1ff) * word_of_int base + ucast c) :: u32;
          w = signed_drop_bit 8 v * word_of_int base + ucast (drop_bit 8 x)
      in (push_bit 8 w + ucast (x AND 0xff), overflow \<or> w > drop_bit 8 0xffffffffffffffff))"

partial_function (option) ullong_loop ::
    "cstr \<Rightarrow> int \<Rightarrow> nat \<Rightarrow> u64 \<Rightarrow> bool \<Rightarrow> (nat \<times> u64 \<times> bool) option" where
  "ullong_loop s base p v overflow =
     (if s p = 0 then Some (p, v, overflow)
      else if uint (digit_val (s p)) \<ge> base then Some (p, v, overflow)
      else case ullong_step base (digit_val (s p)) v overflow of
        (v, overflow) \<Rightarrow> ullong_loop s base (Suc p) v overflow)"

definition strtoull :: "cstr \<Rightarrow> nat \<Rightarrow> nat option \<Rightarrow> int \<Rightarrow> (u64 \<times> nat option) option" where
  "strtoull s ptr endp base = do {
     r \<leftarrow> num_prefix s ptr base;
     case r of None \<Rightarrow> Some (0, endp)
     | Some (neg, orig, p, base) \<Rightarrow> do {
         (p, v, overflow) \<leftarrow> ullong_loop s base p 0 False;
         let (p, v) = (if p = orig then (ptr, 0) else (p, v));
         Some (if overflow then 0xffffffffffffffff else if neg then - v else v, Some p) } }"

definition strtoll :: "cstr \<Rightarrow> nat \<Rightarrow> nat option \<Rightarrow> int \<Rightarrow> (int \<times> nat option) option" where
  "strtoll s orig endp base = do {
     p \<leftarrow> skip_space s orig;
     let (neg, p) = (if s p = 45 \<and> isalnum (sint (s (p + 1))) then (True, p + 1) else (False, p));
     (v, endp) \<leftarrow> strtoull s p endp base;
     let endp = (if endp = Some p then Some orig else endp);
     if v > 9223372036854775807 then
       if v = 0x8000000000000000 \<and> neg then Some (sint v, endp)
       else Some (if neg then - 9223372036854775808 else 9223372036854775807, endp)
     else Some (sint (if neg then - v else v), endp) }"

text \<open>\<open>basename\<close> cuts trailing separators off the path it is given.\<close>

partial_function (option) basename :: "cstr \<Rightarrow> (cstr \<times> nat) option" where
  "basename path = do {
     c \<leftarrow> strrchr path 47;
     case c of None \<Rightarrow> Some (path, 0)
     | Some c \<Rightarrow> if path (c + 1) = 0 then if c = 0 then Some (path, c) else basename (path(c := 0))
                 else Some (path, c + 1) }"

declare skip_space.simps [code] ulong_loop.simps [code] ullong_loop.simps [code] basename.simps [code]

section \<open>Exactness of the digit step\<close>

text \<open>The value of the digits read so far: \<open>v\<close> holds it unless \<open>overflow\<close> says it does not fit.\<close>

definition ulong_holds :: "int \<Rightarrow> u32 \<Rightarrow> bool \<Rightarrow> bool" where
  "ulong_holds n v overflow \<longleftrightarrow> 0 \<le> n \<and> (overflow \<longleftrightarrow> 2 ^ 32 \<le> n) \<and> (\<not> overflow \<longrightarrow> uint v = n)"

lemma uint_and_255: "uint (y AND 0xff :: u32) = uint y mod 256"
proof -
  have "y AND 0xff = take_bit 8 y" by (simp add: take_bit_eq_mask mask_eq_exp_minus_1)
  then show ?thesis by (simp only: unsigned_take_bit_eq) (simp add: take_bit_eq_mod)
qed

lemma uint_drop_8: "uint (drop_bit 8 y :: u32) = uint y div 256"
  by (simp only: unsigned_drop_bit_eq) (simp add: drop_bit_eq_div take_bit_int_eq_self uint_lt2p [of y, simplified])

lemma ulong_step_holds:
  assumes "ulong_holds n v overflow" and "2 \<le> base" "base \<le> 36" and "uint c < base"
  shows "case ulong_step base c v overflow of (v', overflow') \<Rightarrow> ulong_holds (n * base + uint c) v' overflow'"
proof (cases overflow)
  case True
  with assms have "2 ^ 32 \<le> n" "0 \<le> n" by (simp_all add: ulong_holds_def)
  moreover have "n * 1 \<le> n * base" using assms(2) \<open>0 \<le> n\<close> by (intro mult_left_mono) simp_all
  ultimately have "2 ^ 32 \<le> n * base + uint c" using uint_ge_0 [of c] by linarith
  then show ?thesis using True by (simp add: ulong_step_def ulong_holds_def Let_def)
next
  case False
  with assms have n: "uint v = n" "0 \<le> n" "n < 2 ^ 32" by (auto simp: ulong_holds_def)
  let ?d = "uint c" and ?b = "n mod 256" and ?a = "n div 256"
  let ?x = "?b * base + ?d" and ?n = "n * base + ?d"
  define x where "x = (v AND 0xff) * word_of_int base + ucast c"
  define w where "w = drop_bit 8 v * word_of_int base + drop_bit 8 x"
  have d: "0 \<le> ?d" "?d < 36" using assms by simp_all
  have b: "0 \<le> ?b" "?b \<le> 255" and a: "0 \<le> ?a" "?a < 2 ^ 24" using n by simp_all
  have bb: "0 \<le> ?b * base" "?b * base \<le> 255 * 36"
    using b assms mult_mono [of ?b 255 base 36] by simp_all
  have ab: "0 \<le> ?a * base" "?a * base \<le> (2 ^ 24 - 1) * 36"
    using a assms mult_mono [of ?a "2 ^ 24 - 1" base 36] by simp_all
  have low: "uint (y AND 0xff) = uint y mod 256" and high: "uint (drop_bit 8 y) = uint y div 256" for y :: u32
    by (simp_all add: uint_and_255 uint_drop_8)
  have uc: "(ucast c :: u32) = word_of_int ?d" by (simp add: word_uint_eq_iff)
  have "v AND 0xff = word_of_int ?b" using low [of v] n(1) by (metis word_of_int_uint)
  then have xw: "x = word_of_int ?x" unfolding x_def uc by simp
  have x: "uint x = ?x" unfolding xw by (rule uint_word_of_int_u32) (use bb d in simp_all)
  have "drop_bit 8 v = word_of_int ?a" using high [of v] n(1) by (metis word_of_int_uint)
  moreover have "drop_bit 8 x = word_of_int (?x div 256)" using high [of x] x by (metis word_of_int_uint)
  ultimately have ww: "w = word_of_int (?a * base + ?x div 256)" unfolding w_def by simp
  have split_n: "?n = ?x + 256 * (?a * base)"
  proof -
    have "n * base = (256 * ?a + ?b) * base" by (simp only: mult_div_mod_eq)
    then show ?thesis unfolding distrib_right mult.assoc by linarith
  qed
  have split: "?a * base + ?x div 256 = ?n div 256" "?x mod 256 = ?n mod 256"
    unfolding split_n by simp_all
  have w: "uint w = ?n div 256" unfolding ww split(1)
  proof (rule uint_word_of_int_u32)
    have "0 \<le> ?n" "?n < 2 ^ 38" using bb d ab unfolding split_n by simp_all
    moreover have "0 \<le> N div 256 \<and> N div 256 < 2 ^ 32" if "0 \<le> N" "N < 2 ^ 38" for N :: int
      using that by simp linarith
    ultimately show "0 \<le> ?n div 256" "?n div 256 < 2 ^ 32" by blast+
  qed
  have step: "ulong_step base c v overflow = (push_bit 8 w + (x AND 0xff), w > 0xffffff)"
    using False by (simp add: ulong_step_def x_def w_def Let_def)
  define N where "N = ?n"
  have "0 \<le> ?n" using n(2) d assms(2) by simp
  then have N: "0 \<le> N" "uint w = N div 256" "uint (x AND 0xff) = N mod 256"
    using w low [of x] x split(2) by (simp_all add: N_def)
  have over: "w > 0xffffff \<longleftrightarrow> 2 ^ 32 \<le> N"
    unfolding word_less_def N(2) by simp linarith
  have "uint (push_bit 8 w + (x AND 0xff)) = N" if "\<not> 2 ^ 32 \<le> N"
  proof -
    have "w = word_of_int (N div 256)" "x AND 0xff = word_of_int (N mod 256)"
      using N(2,3) by (metis word_of_int_uint)+
    then have "push_bit 8 w + (x AND 0xff) = word_of_int (N div 256 * 256 + N mod 256)"
      by (simp only: push_bit_eq_mult of_int_add of_int_mult) simp
    also have "N div 256 * 256 + N mod 256 = N" by (rule div_mult_mod_eq)
    finally show ?thesis using that N(1) by (simp add: uint_word_of_int_u32)
  qed
  with over N(1) show ?thesis unfolding step ulong_holds_def by (simp add: N_def)
qed


section \<open>Digit strings\<close>

definition digits_of :: "int \<Rightarrow> u8 list \<Rightarrow> u8 list" where
  "digits_of base xs = takeWhile (\<lambda>c. uint (digit_val c) < base) xs"

definition digits_value :: "int \<Rightarrow> int \<Rightarrow> u8 list \<Rightarrow> int" where
  "digits_value base n ds = foldl (\<lambda>n c. n * base + uint (digit_val c)) n ds"

lemma ulong_loop_digits:
  assumes "cstr_is s xs" and "p \<le> length xs" and "2 \<le> base" "base \<le> 36" and "ulong_holds n v overflow"
  shows "\<exists>v' overflow'. ulong_loop s base p v overflow =
      Some (p + length (digits_of base (drop p xs)), v', overflow') \<and>
    ulong_holds (digits_value base n (digits_of base (drop p xs))) v' overflow'"
  using assms(2,5)
proof (induction "length xs - p" arbitrary: p n v overflow)
  case 0
  then have "p = length xs" by simp
  with 0 assms(1) show ?case
    by (subst ulong_loop.simps) (simp add: cstr_is_def digits_of_def digits_value_def)
next
  case (Suc k)
  then have p: "p < length xs" by simp
  then have drop: "drop p xs = xs ! p # drop (Suc p) xs" by (rule Cons_nth_drop_Suc [symmetric])
  have sp: "s p = xs ! p" "s p \<noteq> 0" using assms(1) p by (auto simp: cstr_is_def)
  show ?case
  proof (cases "uint (digit_val (xs ! p)) < base")
    case False
    then show ?thesis using Suc.prems sp
      by (subst ulong_loop.simps) (simp add: drop digits_of_def digits_value_def)
  next
    case True
    obtain v1 o1 where st: "ulong_step base (digit_val (xs ! p)) v overflow = (v1, o1)" by fastforce
    have "ulong_holds (n * base + uint (digit_val (xs ! p))) v1 o1"
      using ulong_step_holds [OF Suc.prems(2) assms(3,4) True] st by simp
    moreover have "k = length xs - Suc p" "Suc p \<le> length xs" using p Suc.hyps(2) by simp_all
    ultimately obtain v' o' where
      "ulong_loop s base (Suc p) v1 o1 = Some (Suc p + length (digits_of base (drop (Suc p) xs)), v', o')"
      "ulong_holds (digits_value base (n * base + uint (digit_val (xs ! p))) (digits_of base (drop (Suc p) xs))) v' o'"
      using Suc.hyps(1) by blast
    then show ?thesis using True sp st
      by (subst ulong_loop.simps) (simp add: drop digits_of_def digits_value_def)
  qed
qed

section \<open>Properties\<close>

text \<open>C24. On a terminated string that starts with a digit of the base, and has no \<open>0x\<close> prefix to
  skip, \<open>strtoul\<close> returns the value of its longest prefix of digits when that fits in 32 bits and
  \<open>ULONG_MAX\<close> when it does not, and leaves \<open>endptr\<close> after that prefix.\<close>

theorem strtoul_correct:
  assumes s: "cstr_is s (x # xs)" and base: "2 \<le> base" "base \<le> 36"
    and x: "uint (digit_val x) < base" "\<not> isspace (sint x)" "x \<noteq> 45" "x \<noteq> 43" "base = 16 \<longrightarrow> x \<noteq> 48"
  shows "\<exists>r. strtoul s 0 endp base = Some (r, Some (length (digits_of base (x # xs)))) \<and>
    uint r = (if digits_value base 0 (digits_of base (x # xs)) < 2 ^ 32
              then digits_value base 0 (digits_of base (x # xs)) else 2 ^ 32 - 1)"
proof -
  have s0: "s 0 = x" using s by (auto simp: cstr_is_def)
  have "(word_of_int (base - 2) :: u32) \<le> 34"
    unfolding word_le_def using base by (subst uint_word_of_int_u32) simp_all
  then have "num_prefix s 0 base = Some (Some (False, 0, 0, base))"
    using x base s0 by (auto simp: num_prefix_def skip_space.simps not_le)
  moreover obtain v ov where
    "ulong_loop s base 0 0 False = Some (length (digits_of base (x # xs)), v, ov)"
    "ulong_holds (digits_value base 0 (digits_of base (x # xs))) v ov"
    using ulong_loop_digits [OF s _ base, of 0 0 0 False] by (auto simp: ulong_holds_def)
  moreover have "digits_of base (x # xs) \<noteq> []" using x(1) by (simp add: digits_of_def)
  ultimately show ?thesis by (auto simp: strtoul_def ulong_holds_def not_less)
qed

theorem strtoul_correct_witness:
  "\<exists>r e. strtoul (bytes [52, 50, 57, 52, 57, 54, 55, 50, 57, 53, 33]) 0 None 10 = Some (r, e) \<and> uint r = 4294967295"
  using strtoul_correct [OF cstr_is_bytes, of 52 "[50, 57, 52, 57, 54, 55, 50, 57, 53, 33]" 10 None]
  by (auto simp: digit_val_def digits_of_def digits_value_def isspace_def chr_diff_def)


section \<open>The 64-bit digit step\<close>

text \<open>What \<open>ullong_step\<close> computes: the ninth bit of the value counts twice.\<close>

definition skew :: "int \<Rightarrow> int \<Rightarrow> int" where
  "skew base n = (if bit n 8 then 256 * base else 0)"

lemma skew_bounds: "0 \<le> base \<Longrightarrow> 0 \<le> skew base n" "0 \<le> base \<Longrightarrow> skew base n \<le> 256 * base"
  by (simp_all add: skew_def)

lemma mod_512: "n mod 512 = n mod 256 + (if bit n 8 then 256 else 0)" for n :: int
proof -
  have "bit n 8 \<longleftrightarrow> n div 256 mod 2 = 1" by (simp add: bit_iff_odd odd_iff_mod_2_eq_one)
  moreover have "n div 256 mod 2 = 0 \<or> n div 256 mod 2 = 1" by presburger
  moreover have "n mod 512 = 256 * (n div 256 mod 2) + n mod 256" using zmod_zmult2_eq [of 2 n 256] by simp
  ultimately show ?thesis by auto
qed

lemma uint_word_of_int_u64: "0 \<le> n \<Longrightarrow> n < 2 ^ 64 \<Longrightarrow> uint (word_of_int n :: u64) = n"
  by (simp add: unsigned_of_int take_bit_int_eq_self)

lemma uint_ucast_down: "uint y < 2 ^ 32 \<Longrightarrow> uint (ucast (y :: u64) :: u32) = uint y"
  by (simp add: unsigned_ucast_eq take_bit_int_eq_self)

lemma ullong_step_skews:
  assumes "uint v * base + uint c + skew base (uint v) < 2 ^ 63" and "2 \<le> base" "base \<le> 36" and "uint c < base"
  shows "\<exists>v'. ullong_step base c v overflow = (v', overflow) \<and>
    uint v' = uint v * base + uint c + skew base (uint v)"
proof -
  let ?n = "uint v" and ?d = "uint c"
  let ?b = "?n mod 512" and ?a = "?n div 256"
  let ?x = "?b * base + ?d"
  define N where "N = ?n * base + ?d + skew base ?n"
  have n: "0 \<le> ?n" "?n < 2 ^ 62"
  proof -
    have "?n * 2 \<le> ?n * base" using assms(2) by (intro mult_left_mono) simp_all
    moreover have "0 \<le> skew base ?n" using assms(2) by (simp add: skew_bounds)
    moreover have "(2 :: int) ^ 63 = 2 * 2 ^ 62" by simp
    ultimately show "?n < 2 ^ 62" using assms(1) uint_ge_0 [of c] by linarith
  qed simp
  have d: "0 \<le> ?d" "?d < 36" using assms by simp_all
  have b: "0 \<le> ?b" "?b \<le> 511" and a: "0 \<le> ?a" "?a < 2 ^ 54" using n by (simp_all add: pos_imp_zdiv_nonneg_iff)
  have bb: "0 \<le> ?b * base" "?b * base \<le> 511 * 36" using b assms mult_mono [of ?b 511 base 36] by simp_all
  have ab: "0 \<le> ?a * base" using a assms by simp
  have eq: "256 * (?a * base) + ?x = N"
  proof -
    have "?n * base = (256 * ?a + ?n mod 256) * base" by (simp only: mult_div_mod_eq)
    then have "?n * base = 256 * (?a * base) + (?n mod 256) * base" by (simp only: distrib_right mult.assoc)
    moreover have "?b * base = (?n mod 256) * base + skew base ?n"
      unfolding mod_512 skew_def by (simp add: distrib_right)
    ultimately show ?thesis unfolding N_def by linarith
  qed
  have N: "N < 2 ^ 63" using assms(1) by (simp add: N_def)
  define x where "x = (ucast ((v AND 0x1ff) * word_of_int base + ucast c) :: u32)"
  define w where "w = signed_drop_bit 8 v * word_of_int base + ucast (drop_bit 8 x)"
  have "v AND 0x1ff = take_bit 9 v" by (simp add: take_bit_eq_mask mask_eq_exp_minus_1)
  then have "uint (v AND 0x1ff) = ?b" by (simp only: unsigned_take_bit_eq) (simp add: take_bit_eq_mod)
  then have low: "v AND 0x1ff = word_of_int ?b" by (metis word_of_int_uint)
  have uc: "(ucast c :: u64) = word_of_int ?d" by (simp add: word_uint_eq_iff)
  have "(v AND 0x1ff) * word_of_int base + ucast c = word_of_int ?x" unfolding low uc by simp
  moreover have "uint (word_of_int ?x :: u64) = ?x" by (rule uint_word_of_int_u64) (use bb d in simp_all)
  ultimately have "uint ((v AND 0x1ff) * word_of_int base + ucast c) = ?x" by (simp only:)
  moreover have "?x < 2 ^ 32" using bb d by simp
  ultimately have ux: "uint x = ?x" unfolding x_def by (simp only: uint_ucast_down)
  have "- (2 ^ 63) \<le> (0 :: int)" by simp
  then have "- (2 ^ 63) \<le> ?n" using n(1) by (rule order_trans)
  moreover have "?n < 2 ^ 63" using n(2) by simp
  ultimately have "signed_take_bit 63 ?n = ?n" by (rule signed_take_bit_int_eq_self)
  then have "sint v = ?n" by (simp add: sint_uint)
  then have sd: "?a = sint (signed_drop_bit 8 v)" by (simp add: sint_signed_drop_bit_eq drop_bit_eq_div)
  have "signed_drop_bit 8 v = word_of_int ?a" unfolding sd by simp
  moreover have "(ucast (drop_bit 8 x) :: u64) = word_of_int (?x div 256)"
    by (simp add: ucast_eq uint_drop_8 ux)
  ultimately have ww: "w = word_of_int (?a * base + ?x div 256)" unfolding w_def by simp
  have nd: "?a * base + ?x div 256 = N div 256" "?x mod 256 = N mod 256" unfolding eq [symmetric] by simp_all
  have N0: "0 \<le> N" using eq ab bb d by linarith
  have uw: "uint w = N div 256" unfolding ww nd(1) using N0 N by (subst uint_word_of_int_u64) simp_all
  have "(ucast (x AND 0xff) :: u64) = word_of_int (N mod 256)" by (simp add: ucast_eq uint_and_255 ux nd(2))
  moreover have "w = word_of_int (N div 256)" using uw by (metis word_of_int_uint)
  ultimately have "push_bit 8 w + ucast (x AND 0xff) = word_of_int (N div 256 * 256 + N mod 256)"
    by (simp only: push_bit_eq_mult of_int_add of_int_mult) simp
  also have "N div 256 * 256 + N mod 256 = N" by (rule div_mult_mod_eq)
  finally have "uint (push_bit 8 w + ucast (x AND 0xff)) = N" using N0 N by (simp add: uint_word_of_int_u64)
  moreover have "\<not> w > drop_bit 8 0xffffffffffffffff" using N N0 by (simp add: word_less_def uw)
  ultimately show ?thesis unfolding ullong_step_def Let_def x_def [symmetric] w_def [symmetric] N_def by simp
qed


section \<open>What \<open>strtoull\<close> computes\<close>

definition skewed_value :: "int \<Rightarrow> int \<Rightarrow> u8 list \<Rightarrow> int" where
  "skewed_value base n ds = foldl (\<lambda>n c. n * base + uint (digit_val c) + skew base n) n ds"

lemma skewed_value_simps [simp]:
  "skewed_value base n [] = n"
  "skewed_value base n (c # ds) = skewed_value base (n * base + uint (digit_val c) + skew base n) ds"
  by (simp_all add: skewed_value_def)

lemma digits_value_simps [simp]:
  "digits_value base n [] = n" "digits_value base n (c # ds) = digits_value base (n * base + uint (digit_val c)) ds"
  by (simp_all add: digits_value_def)

lemma skewed_value_ge:
  assumes "2 \<le> base"
  shows "0 \<le> n \<Longrightarrow> n \<le> skewed_value base n ds"
proof (induction ds arbitrary: n)
  case (Cons c ds)
  have "n * 1 \<le> n * base" using Cons.prems assms by (intro mult_left_mono) simp_all
  moreover have "0 \<le> skew base n" using assms by (simp add: skew_bounds)
  ultimately have "n \<le> n * base + uint (digit_val c) + skew base n" using uint_ge_0 [of "digit_val c"] by linarith
  with Cons show ?case by (auto intro: order_trans)
qed simp

lemma ullong_loop_skews:
  assumes "cstr_is s xs" and "p \<le> length xs" and "2 \<le> base" "base \<le> 36"
    and "skewed_value base (uint v) (digits_of base (drop p xs)) < 2 ^ 63"
  shows "\<exists>v'. ullong_loop s base p v overflow = Some (p + length (digits_of base (drop p xs)), v', overflow) \<and>
    uint v' = skewed_value base (uint v) (digits_of base (drop p xs))"
  using assms(2,5)
proof (induction "length xs - p" arbitrary: p v)
  case 0
  then have "p = length xs" by simp
  with assms(1) show ?case by (subst ullong_loop.simps) (simp add: cstr_is_def digits_of_def)
next
  case (Suc k)
  then have p: "p < length xs" by simp
  then have drop: "drop p xs = xs ! p # drop (Suc p) xs" by (rule Cons_nth_drop_Suc [symmetric])
  have sp: "s p = xs ! p" "s p \<noteq> 0" using assms(1) p by (auto simp: cstr_is_def)
  show ?case
  proof (cases "uint (digit_val (xs ! p)) < base")
    case False
    then show ?thesis using sp by (subst ullong_loop.simps) (simp add: drop digits_of_def)
  next
    case True
    let ?n = "uint v * base + uint (digit_val (xs ! p)) + skew base (uint v)"
    have ds: "digits_of base (drop p xs) = xs ! p # digits_of base (drop (Suc p) xs)"
      using True by (simp add: drop digits_of_def)
    have bnd: "skewed_value base ?n (digits_of base (drop (Suc p) xs)) < 2 ^ 63" using Suc.prems(2) by (simp add: ds)
    have "0 \<le> skew base (uint v)" using assms(3) by (simp add: skew_bounds)
    then have "0 \<le> ?n" using assms(3) by simp
    with bnd have "?n < 2 ^ 63" using skewed_value_ge [OF assms(3), of ?n] by (meson le_less_trans)
    from ullong_step_skews [OF this assms(3,4) True] obtain v1 where
      st: "ullong_step base (digit_val (xs ! p)) v overflow = (v1, overflow)" "uint v1 = ?n" by blast
    have "k = length xs - Suc p" "Suc p \<le> length xs" using p Suc.hyps(2) by simp_all
    from Suc.hyps(1) [OF this, of v1, unfolded st(2), OF bnd] obtain v' where
      "ullong_loop s base (Suc p) v1 overflow = Some (Suc p + length (digits_of base (drop (Suc p) xs)), v', overflow)"
      "uint v' = skewed_value base ?n (digits_of base (drop (Suc p) xs))" by blast
    then show ?thesis using True sp st by (subst ullong_loop.simps) (simp add: ds)
  qed
qed

text \<open>Once two accumulations differ they stay apart.\<close>

lemma skewed_value_gt:
  assumes "2 \<le> base"
  shows "0 \<le> n \<Longrightarrow> n < n' \<Longrightarrow> digits_value base n ds < skewed_value base n' ds"
proof (induction ds arbitrary: n n')
  case (Cons c ds)
  have "n * base < n' * base" using Cons.prems assms by simp
  moreover have "0 \<le> skew base n'" using assms by (simp add: skew_bounds)
  moreover have "0 \<le> n * base" using Cons.prems assms by simp
  ultimately show ?case using Cons.IH [of "n * base + uint (digit_val c)" "n' * base + uint (digit_val c) + skew base n'"] by simp
qed simp

lemma skewed_value_exact:
  assumes "2 \<le> base"
  shows "0 \<le> n \<Longrightarrow> skewed_value base n ds = digits_value base n ds \<longleftrightarrow>
    (\<forall>k < length ds. \<not> bit (digits_value base n (take k ds)) 8)"
proof (induction ds arbitrary: n)
  case (Cons c ds)
  let ?n = "n * base + uint (digit_val c)"
  have n: "0 \<le> ?n" using Cons.prems assms by simp
  have all: "(\<forall>k < length (c # ds). \<not> bit (digits_value base n (take k (c # ds))) 8) \<longleftrightarrow>
      \<not> bit n 8 \<and> (\<forall>k < length ds. \<not> bit (digits_value base ?n (take k ds)) 8)"
    by (simp add: All_less_Suc2)
  show ?case
  proof (cases "bit n 8")
    case True
    then have "?n < ?n + skew base n" using assms by (simp add: skew_def)
    from skewed_value_gt [OF assms n this, of ds] show ?thesis using True all by simp
  next
    case False
    then show ?thesis using Cons.IH [OF n] all by (simp add: skew_def)
  qed
qed simp

section \<open>The ninth bit\<close>

text \<open>C25. \<open>strtoull\<close> does not convert digit strings exactly: it keeps nine bits of the value for the
  low part of the product and shifts the same ninth bit into the high part as well.  As long as
  nothing overflows, what it returns is the value in which every digit adds another 256 times the
  base when the ninth bit of the value so far is set, and that is the value of the string exactly
  when no proper prefix of its digits has a value with the ninth bit set; 2560 is the first decimal number
  that goes wrong.\<close>

theorem strtoull_skewed:
  assumes s: "cstr_is s (x # xs)" and base: "2 \<le> base" "base \<le> 36"
    and x: "uint (digit_val x) < base" "\<not> isspace (sint x)" "x \<noteq> 45" "x \<noteq> 43" "base = 16 \<longrightarrow> x \<noteq> 48"
    and ds: "ds = digits_of base (x # xs)" and fits: "skewed_value base 0 ds < 2 ^ 63"
  shows "\<exists>r. strtoull s 0 endp base = Some (r, Some (length ds)) \<and> uint r = skewed_value base 0 ds \<and>
    (uint r = digits_value base 0 ds \<longleftrightarrow> (\<forall>k < length ds. \<not> bit (digits_value base 0 (take k ds)) 8))"
proof -
  have s0: "s 0 = x" using s by (auto simp: cstr_is_def)
  have "(word_of_int (base - 2) :: u32) \<le> 34"
    unfolding word_le_def using base by (subst uint_word_of_int_u32) simp_all
  then have "num_prefix s 0 base = Some (Some (False, 0, 0, base))"
    using x base s0 by (auto simp: num_prefix_def skip_space.simps not_le)
  moreover obtain v where "ullong_loop s base 0 0 False = Some (length ds, v, False)" "uint v = skewed_value base 0 ds"
    using ullong_loop_skews [OF s _ base, of 0 0 False] fits by (auto simp: ds)
  moreover have "ds \<noteq> []" using x(1) by (simp add: ds digits_of_def)
  ultimately show ?thesis using skewed_value_exact [OF base(1), of 0 ds] by (auto simp: strtoull_def)
qed

theorem strtoull_skewed_witness:
  "\<exists>r. strtoull (bytes [50, 53, 54, 48]) 0 None 10 = Some (r, Some 4) \<and> uint r = 5120"
proof -
  let ?ds = "[50, 53, 54, 48] :: u8 list"
  have "digits_of 10 ?ds = ?ds" "skewed_value 10 0 ?ds = 5120" by code_simp+
  then show ?thesis
    using strtoull_skewed [OF cstr_is_bytes, of 50 "[53, 54, 48]" 10 ?ds None]
    by (auto simp: digit_val_def isspace_def chr_diff_def)
qed

end
