(* ===== verification/GuestAccess.thy ===== *)
theory GuestAccess
  imports KString Kthread
begin

text \<open>
  What the hypervisor shares with its guests: the bitmaps of \<open>core/include/guest.h\<close>, the bit
  searches of \<open>core/include/bitwise.h\<close>, the object descriptors of \<open>core/include/objdir.h\<close> and the
  check of guest pointers, \<open>core/include/gaccess.h\<close> with the page probes of
  \<open>core/include/x86/asm.h\<close>.  Whether an access to a page faults is decided by the page tables of
  the running guest: \<open>acc w a\<close> says that a read (a read and a write when \<open>w\<close>) at \<open>a\<close> succeeds.
\<close>

section \<open>Bitmaps\<close>

definition prtos_set_bit :: "(nat \<Rightarrow> u32) \<Rightarrow> u32 \<Rightarrow> int \<Rightarrow> (nat \<Rightarrow> u32)" where
  "prtos_set_bit bm bp max_bits =
     (let e = unat (drop_bit 5 bp); b = unat (bp AND 31) in
      if bp \<ge> word_of_int max_bits then bm else bm(e := bm e OR bit32 b))"

definition prtos_clear_bit :: "(nat \<Rightarrow> u32) \<Rightarrow> u32 \<Rightarrow> int \<Rightarrow> (nat \<Rightarrow> u32)" where
  "prtos_clear_bit bm bp max_bits =
     (let e = unat (drop_bit 5 bp); b = unat (bp AND 31) in
      if bp \<ge> word_of_int max_bits then bm else bm(e := bm e AND NOT (bit32 b)))"

definition bitmap_words :: "int \<Rightarrow> nat" where
  "bitmap_words max_bits = nat (if and max_bits 31 \<noteq> 0 then drop_bit 5 max_bits + 1 else drop_bit 5 max_bits)"

definition prtos_clear_bitmap :: "(nat \<Rightarrow> u32) \<Rightarrow> int \<Rightarrow> (nat \<Rightarrow> u32)" where
  "prtos_clear_bitmap bm max_bits = for_upto (bitmap_words max_bits) (\<lambda>e bm. bm(e := 0)) bm"

definition prtos_set_bitmap :: "(nat \<Rightarrow> u32) \<Rightarrow> int \<Rightarrow> (nat \<Rightarrow> u32)" where
  "prtos_set_bitmap bm max_bits = for_upto (bitmap_words max_bits) (\<lambda>e bm. bm(e := NOT 0)) bm"

definition prtos_is_bit_set :: "(nat \<Rightarrow> u32) \<Rightarrow> int \<Rightarrow> int \<Rightarrow> int" where
  "prtos_is_bit_set bm bp max_bits =
     (let e = unat (word_of_int (drop_bit 5 bp) :: u32); b = nat (and bp 31) in
      if bp \<ge> max_bits then - 1 else if bm e AND bit32 b \<noteq> 0 then 1 else 0)"

section \<open>Bit searches\<close>

text \<open>One step of \<open>_ffs\<close>: when the low \<open>n\<close> bits are clear, drop them.  The shift of the signed
  operand is arithmetic.\<close>

definition ffs_step :: "nat \<Rightarrow> u32 \<times> int \<Rightarrow> u32 \<times> int" where
  "ffs_step n = (\<lambda>(x, r). if x AND mask n = 0 then (signed_drop_bit n x, r + int n) else (x, r))"

definition ffs :: "u32 \<Rightarrow> int" where
  "ffs x = (if x = 0 then - 1
     else snd (ffs_step 1 (ffs_step 2 (ffs_step 4 (ffs_step 8 (ffs_step 16 (x, 0)))))))"

definition ffz :: "u32 \<Rightarrow> int" where
  "ffz x = ffs (NOT x)"

text \<open>One step of \<open>_fls\<close>: when the high \<open>n\<close> bits are clear, shift them out.\<close>

definition fls_step :: "nat \<Rightarrow> u32 \<times> int \<Rightarrow> u32 \<times> int" where
  "fls_step n = (\<lambda>(x, r). if x AND push_bit (32 - n) (mask n) = 0 then (push_bit n x, r - int n) else (x, r))"

definition fls :: "u32 \<Rightarrow> int" where
  "fls x = (if x = 0 then - 1
     else snd (fls_step 1 (fls_step 2 (fls_step 4 (fls_step 8 (fls_step 16 (x, 31)))))))"

section \<open>Object descriptors\<close>

definition OBJDESC_GET_CLASS :: "u32 \<Rightarrow> u32" where
  "OBJDESC_GET_CLASS d = drop_bit 24 d AND mask 7"

definition OBJDESC_GET_VCPUID :: "u32 \<Rightarrow> u32" where
  "OBJDESC_GET_VCPUID d = drop_bit 20 d AND mask 4"

definition OBJDESC_GET_PARTITIONID :: "u32 \<Rightarrow> u32" where
  "OBJDESC_GET_PARTITIONID d = drop_bit 10 d AND mask 10"

definition OBJDESC_GET_ID :: "u32 \<Rightarrow> u32" where
  "OBJDESC_GET_ID d = d AND mask 10"

definition OBJDESC_BUILD :: "u32 \<Rightarrow> u32 \<Rightarrow> u32 \<Rightarrow> u32" where
  "OBJDESC_BUILD cls p i = push_bit 24 (cls AND mask 7) OR push_bit 20 (0 AND mask 4) OR
     push_bit 10 (p AND mask 10) OR (i AND mask 10)"

definition OBJDESC_BUILD_VCPUID :: "u32 \<Rightarrow> u32 \<Rightarrow> u32 \<Rightarrow> u32 \<Rightarrow> u32" where
  "OBJDESC_BUILD_VCPUID cls v p i = push_bit 24 (cls AND mask 7) OR push_bit 20 (v AND mask 4) OR
     push_bit 10 (p AND mask 10) OR (i AND mask 10)"

lemma objdesc_fields:
  "OBJDESC_GET_CLASS (OBJDESC_BUILD_VCPUID cls v p i) = cls AND mask 7"
  "OBJDESC_GET_VCPUID (OBJDESC_BUILD_VCPUID cls v p i) = v AND mask 4"
  "OBJDESC_GET_PARTITIONID (OBJDESC_BUILD_VCPUID cls v p i) = p AND mask 10"
  "OBJDESC_GET_ID (OBJDESC_BUILD_VCPUID cls v p i) = i AND mask 10"
  unfolding OBJDESC_GET_CLASS_def OBJDESC_GET_VCPUID_def OBJDESC_GET_PARTITIONID_def OBJDESC_GET_ID_def
    OBJDESC_BUILD_VCPUID_def
  by (rule bit_word_eqI; auto simp: bit_simps)+

section \<open>Guest pointers\<close>

definition PAGE_SIZE :: u32 where "PAGE_SIZE = 4096"
definition PAGE_MASK :: u32 where "PAGE_MASK = NOT 0xfff"
definition CONFIG_PRTOS_OFFSET :: u32 where "CONFIG_PRTOS_OFFSET = 0xfc000000"

definition PFLAG_RW :: int where "PFLAG_RW = 1"
definition PFLAG_NOT_NULL :: int where "PFLAG_NOT_NULL = 2"

text \<open>The page loops.  \<open>ret\<close> is set to 1 once, before the loop: a successful access clears it, and
  an access that faults resumes after the instruction that would have cleared it, so \<open>ret\<close> keeps
  whatever the pages before have left.  The loops may run forever, when the range ends in the last
  page: \<open>None\<close>.\<close>

partial_function (option) page_check :: "(u32 \<Rightarrow> bool) \<Rightarrow> int \<Rightarrow> u32 \<Rightarrow> u32 \<Rightarrow> int option" where
  "page_check ok ret addr lim =
     (if addr < lim
      then let ret = (if ok addr then 0 else ret) in
        if ret \<noteq> 0 then Some (- 1) else page_check ok ret ((addr AND PAGE_MASK) + PAGE_SIZE) lim
      else Some 0)"

definition asm_rw_check :: "(bool \<Rightarrow> u32 \<Rightarrow> bool) \<Rightarrow> u32 \<Rightarrow> u32 \<Rightarrow> int option" where
  "asm_rw_check acc param sz = page_check (acc True) 1 param (param + sz)"

definition asm_ronly_check :: "(bool \<Rightarrow> u32 \<Rightarrow> bool) \<Rightarrow> u32 \<Rightarrow> u32 \<Rightarrow> int option" where
  "asm_ronly_check acc param sz = page_check (acc False) 1 param (param + sz)"

definition arch_check_gp_param :: "u32 \<Rightarrow> u32 \<Rightarrow> int" where
  "arch_check_gp_param param sz =
     (if param < CONFIG_PRTOS_OFFSET \<and> param + sz < CONFIG_PRTOS_OFFSET then 0 else - 1)"

definition check_gp_param :: "(bool \<Rightarrow> u32 \<Rightarrow> bool) \<Rightarrow> u32 \<Rightarrow> u32 \<Rightarrow> int \<Rightarrow> int option" where
  "check_gp_param acc param sz flags =
     (if and flags PFLAG_NOT_NULL \<noteq> 0 \<and> param = 0 then Some (- 1)
      else if arch_check_gp_param param sz \<noteq> 0 then Some (- 1)
      else if and flags PFLAG_RW \<noteq> 0 then asm_rw_check acc param sz
      else asm_ronly_check acc param sz)"

declare page_check.simps [code]

lemma page_of: "uint (a AND PAGE_MASK) = uint a div 4096 * 4096"
proof -
  have m: "(0xfff :: u32) = mask 12" by (simp add: mask_eq_exp_minus_1)
  have pm: "a AND PAGE_MASK = push_bit 12 (drop_bit 12 a)"
    unfolding PAGE_MASK_def m by (rule bit_word_eqI) (auto simp: bit_simps)
  have dr: "uint (drop_bit 12 a) = uint a div 4096"
    by (simp only: unsigned_drop_bit_eq) (simp add: drop_bit_eq_div take_bit_int_eq_self uint_lt2p [of a, simplified])
  have tb: "take_bit 32 (uint a div 4096 * 4096) = uint a div 4096 * 4096"
    using uint_lt2p [of a] by (intro take_bit_int_eq_self) (simp_all add: pos_imp_zdiv_nonneg_iff)
  show ?thesis unfolding pm unsigned_push_bit_eq dr using tb by (simp add: push_bit_eq_mult)
qed

lemma next_page:
  assumes "a < CONFIG_PRTOS_OFFSET"
  shows "uint ((a AND PAGE_MASK) + PAGE_SIZE) = uint a div 4096 * 4096 + 4096"
proof -
  have "uint a < 0xfc000000" using assms by (simp add: CONFIG_PRTOS_OFFSET_def word_less_def)
  moreover have "uint a div 4096 * 4096 \<le> uint a" by linarith
  ultimately show ?thesis
    using page_of [of a] by (simp add: PAGE_SIZE_def uint_plus_if_size word_size)
qed

text \<open>Once an access has succeeded, no later one is reported.\<close>

lemma page_check_passes:
  assumes "lim \<le> CONFIG_PRTOS_OFFSET"
  shows "page_check ok 0 a lim = Some 0"
proof (induction "nat (uint lim - uint a)" arbitrary: a rule: less_induct)
  case less
  show ?case
  proof (cases "a < lim")
    case True
    then have n: "uint ((a AND PAGE_MASK) + PAGE_SIZE) = uint a div 4096 * 4096 + 4096"
      using assms by (intro next_page) simp
    then have "nat (uint lim - uint ((a AND PAGE_MASK) + PAGE_SIZE)) < nat (uint lim - uint a)"
      using True by (simp add: word_less_def)
    with less True show ?thesis by (subst page_check.simps) simp
  qed (subst page_check.simps, simp)
qed

text \<open>So the outcome of the whole check is that of the first page.\<close>

lemma page_check_first:
  assumes "lim \<le> CONFIG_PRTOS_OFFSET"
  shows "page_check ok 1 a lim = Some (if a < lim \<and> \<not> ok a then - 1 else 0)"
  using page_check_passes [OF assms] by (subst page_check.simps) simp

text \<open>A check of a range above that returns 0 has at least found its first byte accessible.\<close>

lemma page_check_accepted:
  assumes "page_check ok 1 a lim = Some r" "0 \<le> r" "a < lim"
  shows "ok a"
  using assms by (subst (asm) page_check.simps) (simp split: if_splits)

section \<open>Bit searches find the extreme set bit\<close>

definition lowest_bit :: "u32 \<Rightarrow> nat \<Rightarrow> bool" where
  "lowest_bit x l \<longleftrightarrow> bit x l \<and> (\<forall>i < l. \<not> bit x i)"

definition highest_bit :: "u32 \<Rightarrow> nat \<Rightarrow> bool" where
  "highest_bit x h \<longleftrightarrow> bit x h \<and> (\<forall>i > h. \<not> bit x i)"

lemma ffs_step_low:
  assumes "lowest_bit y l" "l < 2 * n" "n \<le> 16"
  shows "\<exists>y' l'. ffs_step n (y, r) = (y', r + int l - int l') \<and> lowest_bit y' l' \<and> l' < n"
proof (cases "y AND mask n = 0")
  case True
  have z: "bit (y AND mask n) i = bit (0 :: u32) i" for i using True by simp
  then have low: "\<not> bit y i" if "i < n" for i using that z [of i] assms(3) by (simp add: bit_simps)
  have l: "bit y l" "l < 32" "n \<le> l" "\<And>i. i < l \<Longrightarrow> \<not> bit y i"
    using assms low bit_imp_le_length [of y l] by (auto simp: lowest_bit_def not_le [symmetric])
  have "lowest_bit (signed_drop_bit n y) (l - n)"
    using l by (auto simp: lowest_bit_def bit_simps min_def)
  moreover have "ffs_step n (y, r) = (signed_drop_bit n y, r + int l - int (l - n))" "l - n < n"
    using True l(3) assms(2) by (simp_all add: ffs_step_def of_nat_diff)
  ultimately show ?thesis by blast
next
  case False
  then obtain i where "bit (y AND mask n) i" by (metis bit_eq_iff bit_0_eq bot_apply bot_bool_def)
  then have "i < n" "bit y i" by (auto simp: bit_simps)
  with assms(1) have "l < n" by (metis lowest_bit_def not_less_iff_gr_or_eq order_less_trans)
  with assms False show ?thesis by (auto simp: ffs_step_def)
qed

lemma fls_step_high:
  assumes "highest_bit y h" "31 - h < 2 * n" "n \<le> 16"
  shows "\<exists>y' h'. fls_step n (y, r) = (y', r + int h - int h') \<and> highest_bit y' h' \<and> 31 - h' < n"
proof (cases "y AND push_bit (32 - n) (mask n) = 0")
  case True
  have h: "bit y h" "h < 32" "\<And>i. i > h \<Longrightarrow> \<not> bit y i"
    using assms bit_imp_le_length [of y h] by (auto simp: highest_bit_def)
  have z: "bit (y AND push_bit (32 - n) (mask n)) h = bit (0 :: u32) h" using True by simp
  then have "h < 32 - n" using h assms(3) by (auto simp: bit_simps)
  then have "highest_bit (push_bit n y) (h + n)" using h by (auto simp: highest_bit_def bit_simps)
  moreover have "fls_step n (y, r) = (push_bit n y, r + int h - int (h + n))" "31 - (h + n) < n"
    using True assms(2) by (simp_all add: fls_step_def)
  ultimately show ?thesis by blast
next
  case False
  then obtain i where "bit (y AND push_bit (32 - n) (mask n)) i" by (metis bit_eq_iff bit_0_eq bot_apply bot_bool_def)
  then have "32 - n \<le> i" "bit y i" by (auto simp: bit_simps)
  with assms(1) have "32 - n \<le> h" by (metis highest_bit_def not_less order_trans)
  moreover have "0 < n" using assms(2) by simp
  ultimately show ?thesis using assms False by (auto simp: fls_step_def)
qed

lemma lowest_bit_exists:
  assumes "x \<noteq> 0"
  shows "\<exists>l < 32. lowest_bit x l"
proof -
  obtain i where i: "i < 32" "bit x i" using word_neq_0_bit [of x] assms by auto
  let ?l = "LEAST i. bit x i"
  have "bit x ?l" "?l \<le> i" using i(2) by (rule LeastI, rule Least_le)
  moreover have "\<forall>j < ?l. \<not> bit x j" using not_less_Least by blast
  ultimately show ?thesis using i(1) unfolding lowest_bit_def by (meson le_less_trans)
qed

lemma highest_bit_exists:
  assumes "x \<noteq> 0"
  shows "\<exists>h < 32. highest_bit x h"
proof -
  obtain i where i: "bit x i" using word_neq_0_bit [of x] assms by auto
  have le: "\<forall>j. bit x j \<longrightarrow> j \<le> 31" using bit_imp_le_length [of x] by fastforce
  let ?h = "GREATEST i. bit x i"
  have "bit x ?h" using GreatestI_nat [of "bit x" i 31] i le by blast
  moreover have "j \<le> ?h" if "bit x j" for j using Greatest_le_nat [of "bit x" j 31] that le by blast
  moreover have "?h < 32" using \<open>bit x ?h\<close> le by fastforce
  ultimately show ?thesis unfolding highest_bit_def by (meson not_le)
qed

lemma ffs_lowest: "lowest_bit x l \<Longrightarrow> ffs x = int l"
proof -
  assume x: "lowest_bit x l"
  then have l: "l < 32" "x \<noteq> 0" using bit_imp_le_length [of x l] by (auto simp: lowest_bit_def)
  obtain y1 l1 where 1: "ffs_step 16 (x, 0) = (y1, 0 + int l - int l1)" "lowest_bit y1 l1" "l1 < 16"
    using ffs_step_low [OF x, of 16 0] l by auto
  obtain y2 l2 where 2: "ffs_step 8 (y1, 0 + int l - int l1) = (y2, 0 + int l - int l2)" "lowest_bit y2 l2" "l2 < 8"
    using ffs_step_low [OF 1(2), of 8 "0 + int l - int l1"] 1 by auto
  obtain y3 l3 where 3: "ffs_step 4 (y2, 0 + int l - int l2) = (y3, 0 + int l - int l3)" "lowest_bit y3 l3" "l3 < 4"
    using ffs_step_low [OF 2(2), of 4 "0 + int l - int l2"] 2 by auto
  obtain y4 l4 where 4: "ffs_step 2 (y3, 0 + int l - int l3) = (y4, 0 + int l - int l4)" "lowest_bit y4 l4" "l4 < 2"
    using ffs_step_low [OF 3(2), of 2 "0 + int l - int l3"] 3 by auto
  obtain y5 where "ffs_step 1 (y4, 0 + int l - int l4) = (y5, int l)"
    using ffs_step_low [OF 4(2), of 1 "0 + int l - int l4"] 4 by auto
  with 1 2 3 4 l show ?thesis by (simp add: ffs_def)
qed

lemma fls_highest: "highest_bit x h \<Longrightarrow> fls x = int h"
proof -
  assume x: "highest_bit x h"
  then have h: "h < 32" "x \<noteq> 0" using bit_imp_le_length [of x h] by (auto simp: highest_bit_def)
  let ?r = "\<lambda>j. 31 + int h - int j"
  have top: "31 - h < 2 * 16" by linarith
  obtain y1 l1 where 1: "fls_step 16 (x, 31) = (y1, ?r l1)" "highest_bit y1 l1" "31 - l1 < 16"
    using fls_step_high [OF x top, where r = 31] by auto
  obtain y2 l2 where 2: "fls_step 8 (y1, ?r l1) = (y2, ?r l2)" "highest_bit y2 l2" "31 - l2 < 8"
    using fls_step_high [OF 1(2), of 8 "?r l1"] 1 by auto
  obtain y3 l3 where 3: "fls_step 4 (y2, ?r l2) = (y3, ?r l3)" "highest_bit y3 l3" "31 - l3 < 4"
    using fls_step_high [OF 2(2), of 4 "?r l2"] 2 by auto
  obtain y4 l4 where 4: "fls_step 2 (y3, ?r l3) = (y4, ?r l4)" "highest_bit y4 l4" "31 - l4 < 2"
    using fls_step_high [OF 3(2), of 2 "?r l3"] 3 by auto
  obtain y5 l5 where 5: "fls_step 1 (y4, ?r l4) = (y5, ?r l5)" "highest_bit y5 l5" "31 - l5 < 1"
    using fls_step_high [OF 4(2), of 1 "?r l4"] 4 by auto
  then have "l5 = 31" using bit_imp_le_length [of y5 l5] by (auto simp: highest_bit_def)
  with 1 2 3 4 5 h show ?thesis by (simp add: fls_def)
qed

section \<open>Properties\<close>

text \<open>C28. The two bit searches agree with their specification: \<open>_ffs\<close> returns the position of the
  lowest set bit, \<open>_fls\<close> that of the highest, and both return -1 exactly when no bit is set.\<close>

theorem ffs_fls_correct:
  "if x = 0 then ffs x = - 1 \<and> fls x = - 1
   else \<exists>l h. ffs x = int l \<and> lowest_bit x l \<and> fls x = int h \<and> highest_bit x h \<and> l \<le> h \<and> h < 32"
proof (cases "x = 0")
  case False
  then obtain l h where "lowest_bit x l" "highest_bit x h" "h < 32"
    using lowest_bit_exists highest_bit_exists by blast
  moreover from this have "l \<le> h" by (auto simp: lowest_bit_def highest_bit_def not_le [symmetric])
  ultimately show ?thesis using False ffs_lowest fls_highest by auto
qed (simp add: ffs_def fls_def)

text \<open>C22. The check of a guest pointer always returns when the range does not wrap around the
  address space, and this is its exact verdict: a range is accepted when it lies below the
  hypervisor, is not null where that matters, and its \<^emph>\<open>first\<close> byte can be accessed the way asked for.
  Every byte of an accepted range lies below the hypervisor, and a range within one page is sound;
  the pages after the first one are probed, but a fault there is not reported.\<close>

theorem check_gp_param_first_page:
  assumes "unat param + unat sz < 2 ^ 32" and "rw = (and flags PFLAG_RW \<noteq> 0)"
  shows "\<exists>r. check_gp_param acc param sz flags = Some r \<and>
    r = (if (and flags PFLAG_NOT_NULL \<noteq> 0 \<and> param = 0) \<or> CONFIG_PRTOS_OFFSET \<le> param \<or>
          CONFIG_PRTOS_OFFSET \<le> param + sz \<or> (sz \<noteq> 0 \<and> \<not> acc rw param) then - 1 else 0) \<and>
    (r = 0 \<longrightarrow> (\<forall>i < unat sz. let x = param + of_nat i in x < CONFIG_PRTOS_OFFSET \<and>
      (uint x div 4096 = uint param div 4096 \<longrightarrow> (\<exists>y \<le> x. uint y div 4096 = uint x div 4096 \<and> acc rw y))))"
proof -
  let ?bad = "(and flags PFLAG_NOT_NULL \<noteq> 0 \<and> param = 0) \<or> CONFIG_PRTOS_OFFSET \<le> param \<or>
    CONFIG_PRTOS_OFFSET \<le> param + sz \<or> (sz \<noteq> 0 \<and> \<not> acc rw param)"
  have hi: "unat (param + sz) = unat param + unat sz" using unat_add_of_nat [of param "unat sz"] assms(1) by simp
  have "param < param + sz \<longleftrightarrow> 0 < unat sz" by (simp add: word_less_nat_alt hi)
  then have empty: "param < param + sz \<longleftrightarrow> sz \<noteq> 0" by (simp only: unat_gt_0)
  have exact: "check_gp_param acc param sz flags = Some (if ?bad then - 1 else 0)"
  proof (cases "param < CONFIG_PRTOS_OFFSET \<and> param + sz < CONFIG_PRTOS_OFFSET")
    case True
    then have "page_check (acc w) 1 param (param + sz) = Some (if sz \<noteq> 0 \<and> \<not> acc w param then - 1 else 0)" for w
      by (simp only: page_check_first [OF less_imp_le] empty)
    with True assms(2) show ?thesis
      by (auto simp: check_gp_param_def arch_check_gp_param_def asm_rw_check_def asm_ronly_check_def not_le)
  qed (auto simp: check_gp_param_def arch_check_gp_param_def not_less)
  have "param + of_nat i < CONFIG_PRTOS_OFFSET \<and> (uint (param + of_nat i) div 4096 = uint param div 4096 \<longrightarrow>
      (\<exists>y \<le> param + of_nat i. uint y div 4096 = uint (param + of_nat i) div 4096 \<and> acc rw y))"
    if "\<not> ?bad" and i: "i < unat sz" for i
  proof -
    have b: "param + sz < CONFIG_PRTOS_OFFSET" "acc rw param" using that by (auto simp: not_le)
    have le: "param \<le> param + of_nat i" and lt: "param + of_nat i < param + sz"
      using unat_add_of_nat [of param i] i assms(1) hi by (simp_all add: word_le_nat_alt word_less_nat_alt)
    have "param + of_nat i < CONFIG_PRTOS_OFFSET" using lt b(1) by (rule order.strict_trans)
    then show ?thesis using b(2) le by (intro conjI impI exI [of _ param]) simp_all
  qed
  then show ?thesis unfolding exact Let_def by auto
qed

text \<open>A range of two pages of which only the first can be written, and a range above it.\<close>

theorem check_gp_param_first_page_witness:
  "check_gp_param (\<lambda>w a. w = (a < 0x2000)) 0x1ff0 0x20 3 = Some 0 \<and>
   check_gp_param (\<lambda>w a. w = (a < 0x2000)) 0x2000 0x20 3 = Some (- 1)"
proof -
  have fl: "and 3 PFLAG_RW \<noteq> 0" "and 3 PFLAG_NOT_NULL \<noteq> (0 :: int)"
    by (simp_all add: PFLAG_RW_def PFLAG_NOT_NULL_def)
  then have rw: "True = (and 3 PFLAG_RW \<noteq> 0)" by simp
  from check_gp_param_first_page [OF _ rw, of "0x1ff0" "0x20" "\<lambda>w a. w = (a < 0x2000)"]
    check_gp_param_first_page [OF _ rw, of "0x2000" "0x20" "\<lambda>w a. w = (a < 0x2000)"]
  show ?thesis by (simp add: CONFIG_PRTOS_OFFSET_def)
qed

text \<open>C23. A range that wraps around the address space is accepted without any page being probed:
  the bound of the range is compared after a 32-bit addition.\<close>

theorem check_gp_param_accepts_wrap:
  assumes "0 < param" "param < CONFIG_PRTOS_OFFSET" and "2 ^ 32 \<le> unat param + unat sz"
  shows "check_gp_param (\<lambda>_ _. False) param sz flags = Some 0"
proof -
  have "unat (param + sz) = unat param + unat sz - 2 ^ 32"
    using assms(3) unat_lt32 [of param] unat_lt32 [of sz] by (simp add: unat_word_ariths mod_if)
  then have "param + sz < param" using unat_lt32 [of sz] assms(3) by (simp add: word_less_nat_alt)
  then show ?thesis using assms(1,2)
    by (auto simp: check_gp_param_def arch_check_gp_param_def asm_rw_check_def asm_ronly_check_def page_check.simps)
qed

theorem check_gp_param_accepts_wrap_witness:
  "check_gp_param (\<lambda>_ _. False) 0x1000 0xfffff800 (PFLAG_NOT_NULL + PFLAG_RW) = Some 0"
  by (rule check_gp_param_accepts_wrap) (simp_all add: CONFIG_PRTOS_OFFSET_def)

end
