(* ===== verification/CommPorts.thy ===== *)
theory CommPorts
  imports GuestAccess
begin

text \<open>
  Inter-partition communication, \<open>core/objects/commports.c\<close>: sampling ports, which hold the last
  message written, and queuing ports, whose channels keep a pool of messages on two kernel lists,
  the free ones and the received ones.  The buffers of a guest are read and written in \<open>gmem\<close>, its
  address space; the words after its partition control table, which hold the bitmap of its ports,
  are \<open>pct_tail\<close>.  \<open>union channel\<close> is the datatype \<open>channel\<close>, selected by the type the
  configuration gives the channel: access to the other member is a fault.  Every operation returns
  its result with the state, or \<open>None\<close> when an assertion fails, an unmapped pointer is followed or
  the hypervisor panics.
\<close>

section \<open>Constants and state\<close>

definition PRTOS_SOURCE_PORT :: int where "PRTOS_SOURCE_PORT = 2"
definition PRTOS_DESTINATION_PORT :: int where "PRTOS_DESTINATION_PORT = 1"
definition PRTOS_SAMPLING_PORT :: int where "PRTOS_SAMPLING_PORT = 0"
definition PRTOS_QUEUING_PORT :: int where "PRTOS_QUEUING_PORT = 1"
definition PRTOS_NULL_CHANNEL :: int where "PRTOS_NULL_CHANNEL = - 1"
definition PRTOS_INFINITE_TIME :: u32 where "PRTOS_INFINITE_TIME = - 1"
definition CONFIG_ID_STRING_LENGTH :: u32 where "CONFIG_ID_STRING_LENGTH = 16"

definition COMM_PORT_OPENED :: u32 where "COMM_PORT_OPENED = 1"
definition COMM_PORT_EMPTY :: u32 where "COMM_PORT_EMPTY = 0"
definition COMM_PORT_NEW_MSG :: u32 where "COMM_PORT_NEW_MSG = 2"
definition COMM_PORT_CONSUMED_MSG :: u32 where "COMM_PORT_CONSUMED_MSG = 4"
definition COMM_PORT_MSG_MASK :: u32 where "COMM_PORT_MSG_MASK = 6"
definition PRTOS_COMM_MSG_VALID :: u32 where "PRTOS_COMM_MSG_VALID = 1"
definition PRTOS_COMM_EMPTY_PORT :: u32 where "PRTOS_COMM_EMPTY_PORT = 0"
definition PRTOS_COMM_CONSUMED_MSG :: u32 where "PRTOS_COMM_CONSUMED_MSG = 2"
definition PRTOS_COMM_NEW_MSG :: u32 where "PRTOS_COMM_NEW_MSG = 4"

lemmas port_consts =
  PRTOS_SOURCE_PORT_def PRTOS_DESTINATION_PORT_def PRTOS_SAMPLING_PORT_def PRTOS_QUEUING_PORT_def
  PRTOS_NULL_CHANNEL_def COMM_PORT_OPENED_def COMM_PORT_EMPTY_def COMM_PORT_NEW_MSG_def
  COMM_PORT_CONSUMED_MSG_def COMM_PORT_MSG_MASK_def

text \<open>A \<open>partition_t *\<close> is the index of the partition, \<open>None\<close> the null pointer.\<close>

record sampling_channel =
  s_buffer :: "nat \<Rightarrow> u8"
  s_length :: int
  s_timestamp :: int
  s_receiver_table :: "nat \<Rightarrow> nat option"
  s_receiver_port_table :: "nat \<Rightarrow> int"
  s_receivers :: int
  s_sender :: "nat option"
  s_sender_port :: int

record msg =
  msg_buffer :: "nat \<Rightarrow> u8"
  msg_length :: int

datatype msg_list = FreeMsgs | RecvMsgs

record queuing_channel =
  msg_pool :: "nat \<Rightarrow> msg"
  msg_lists :: "(msg_list, nat) dheap"
  used_msgs :: int
  q_receiver :: "nat option"
  q_receiver_port :: int
  q_sender :: "nat option"
  q_sender_port :: int

datatype channel = Sampling sampling_channel | Queuing queuing_channel

record port =
  port_flags :: u32
  port_partition_id :: u32

record comms =
  kern :: kstate
  channel_table :: "nat \<Rightarrow> channel"
  port_table :: "nat \<Rightarrow> port"
  gmem :: memory

fun channel_s :: "channel \<Rightarrow> sampling_channel option" where
  "channel_s (Sampling ch) = Some ch"
| "channel_s (Queuing _) = None"

fun channel_q :: "channel \<Rightarrow> queuing_channel option" where
  "channel_q (Queuing ch) = Some ch"
| "channel_q (Sampling _) = None"

fun conf_s :: "prtos_conf_comm_channel \<Rightarrow> (int \<times> u32 \<times> int) option" where
  "conf_s (ConfSampling l p n) = Some (l, p, n)"
| "conf_s (ConfQueuing _ _) = None"

fun conf_q :: "prtos_conf_comm_channel \<Rightarrow> (int \<times> int) option" where
  "conf_q (ConfQueuing l n) = Some (l, n)"
| "conf_q (ConfSampling _ _ _) = None"

definition upd_port :: "nat \<Rightarrow> (port \<Rightarrow> port) \<Rightarrow> comms \<Rightarrow> comms" where
  "upd_port i f s = s\<lparr>port_table := (port_table s)(i := f (port_table s i))\<rparr>"

definition set_channel :: "nat \<Rightarrow> channel \<Rightarrow> comms \<Rightarrow> comms" where
  "set_channel i ch s = s\<lparr>channel_table := (channel_table s)(i := ch)\<rparr>"

text \<open>A call into the kernel state.\<close>

definition in_kern :: "(kstate \<Rightarrow> kstate option) \<Rightarrow> comms \<Rightarrow> comms option" where
  "in_kern f s = map_option (\<lambda>k. s\<lparr>kern := k\<rparr>) (f (kern s))"

section \<open>Access to the caller and to the guests\<close>

text \<open>\<open>KID2PARTID(processor_info->sched.current_kthread->ctrl.g->id)\<close>\<close>

definition caller :: "nat \<Rightarrow> comms \<Rightarrow> u32 option" where
  "caller this s = map_option (\<lambda>g. KID2PARTID (g_id g)) (guest_of (kern s) (current_kthread (cpus (kern s) this)))"

definition copy_to_guest :: "u32 \<Rightarrow> cstr \<Rightarrow> nat \<Rightarrow> memory \<Rightarrow> memory" where
  "copy_to_guest p b n m = for_upto n (\<lambda>i m. m(p + of_nat i := b i)) m"

definition copy_from_guest :: "memory \<Rightarrow> u32 \<Rightarrow> nat \<Rightarrow> cstr \<Rightarrow> cstr" where
  "copy_from_guest m p n b = (\<lambda>i. if i < n then m (p + of_nat i) else b i)"

text \<open>Where the code looks for the bitmap of a guest: after as many memory maps, of eight words, as
  the partition of the \<^emph>\<open>caller\<close> has memory areas.\<close>

definition bitmap_base :: "prtos_conf \<Rightarrow> u32 \<Rightarrow> nat" where
  "bitmap_base c p = 8 * nat (num_of_physical_memory_areas (partition_cfg c (unat p)))"

definition upd_bitmap ::
    "nat \<Rightarrow> ((nat \<Rightarrow> u32) \<Rightarrow> int \<Rightarrow> (nat \<Rightarrow> u32)) \<Rightarrow> partition_control_table \<Rightarrow> partition_control_table" where
  "upd_bitmap base f t = t\<lparr>pct_tail := \<lambda>i. if i < base then pct_tail t i
     else f (\<lambda>j. pct_tail t (base + j)) (pct_num_of_comm_ports t) (i - base)\<rparr>"

definition set_port_bit :: "nat \<Rightarrow> int \<Rightarrow> kref \<Rightarrow> kstate \<Rightarrow> kstate" where
  "set_port_bit base bp k = upd_pct k (upd_bitmap base (\<lambda>bm n. prtos_set_bit bm (word_of_int bp) n))"

definition clear_port_bit :: "nat \<Rightarrow> int \<Rightarrow> kref \<Rightarrow> kstate \<Rightarrow> kstate" where
  "clear_port_bit base bp k = upd_pct k (upd_bitmap base (\<lambda>bm n. prtos_clear_bit bm (word_of_int bp) n))"

text \<open>A loop over the threads of partition \<open>q\<close>, with the guest of each; the check is the assertion
  in its body.\<close>

definition for_vcpus ::
    "prtos_conf \<Rightarrow> nat \<Rightarrow> (guest \<Rightarrow> bool) \<Rightarrow> (kref \<Rightarrow> kstate \<Rightarrow> kstate) \<Rightarrow> kstate \<Rightarrow> kstate option" where
  "for_vcpus c q chk f = foldM (\<lambda>e s. do {
     k \<leftarrow> part_kthread s q e;
     g \<leftarrow> guest_of s k;
     _ \<leftarrow> ASSERT (chk g);
     Some (f k s) }) [0..<nr_vcpus c q]"

text \<open>The configuration of the ports of a partition: the search by name.\<close>

definition find_port :: "prtos_conf \<Rightarrow> nat \<Rightarrow> (cstr \<Rightarrow> bool) \<Rightarrow> nat" where
  "find_port c p same = search_from (unat (comm_ports_offset (partition_cfg c p)))
     (nat (num_of_ports (partition_cfg c p)))
     (\<lambda>i. same (\<lambda>j. string_tab c (unat (port_name_offset (comm_ports c i)) + j)))"

definition name_matches :: "comms \<Rightarrow> u32 \<Rightarrow> cstr \<Rightarrow> bool" where
  "name_matches s name t \<longleftrightarrow> strncmp (cstr_at (gmem s) name) t CONFIG_ID_STRING_LENGTH = 0"

section \<open>Sampling ports\<close>

text \<open>The common last step of the creation of a port.\<close>

definition open_port :: "nat \<Rightarrow> u32 \<Rightarrow> u32 \<Rightarrow> comms \<Rightarrow> comms" where
  "open_port port me flags = upd_port port (\<lambda>p. p\<lparr>port_flags := port_flags p OR flags, port_partition_id := me\<rparr>)"

definition create_sampling_port ::
    "prtos_conf \<Rightarrow> (bool \<Rightarrow> u32 \<Rightarrow> bool) \<Rightarrow> nat \<Rightarrow> u32 \<Rightarrow> u32 \<Rightarrow> u32 \<Rightarrow> u32 \<Rightarrow> int \<Rightarrow> comms \<Rightarrow> (int \<times> comms) option" where
  "create_sampling_port c acc this desc port_name max_msg_size direction valid_period s = do {
     me \<leftarrow> caller this s;
     let partition = partition_cfg c (unat me);
     if OBJDESC_GET_PARTITIONID desc \<noteq> part_id partition then Some (PRTOS_PERM_ERROR, s) else do {
     r \<leftarrow> check_gp_param acc port_name CONFIG_ID_STRING_LENGTH (or PFLAG_NOT_NULL PFLAG_RW);
     if r < 0 then Some (PRTOS_INVALID_PARAM, s) else
     if uint direction \<noteq> PRTOS_SOURCE_PORT \<and> uint direction \<noteq> PRTOS_DESTINATION_PORT
     then Some (PRTOS_INVALID_PARAM, s) else do {
     let port = find_port c (unat me) (name_matches s port_name);
     if int port \<ge> num_of_comm_ports c then Some (PRTOS_INVALID_PARAM, s) else
     let cp = comm_ports c port in
     if port_type cp \<noteq> PRTOS_SAMPLING_PORT then Some (PRTOS_INVALID_CONFIG, s) else
     if uint direction \<noteq> port_direction cp then Some (PRTOS_INVALID_CONFIG, s) else
     if port_flags (port_table s port) AND COMM_PORT_OPENED \<noteq> 0 then Some (PRTOS_NO_ACTION, s) else
     if port_channel_id cp \<noteq> PRTOS_NULL_CHANNEL then do {
       _ \<leftarrow> ASSERT (0 \<le> port_channel_id cp \<and> port_channel_id cp < num_of_comm_channels c);
       let i = nat (port_channel_id cp);
       (max_length, period, receivers) \<leftarrow> conf_s (comm_channel_table c i);
       if max_length \<noteq> uint max_msg_size then Some (PRTOS_INVALID_CONFIG, s) else
       if uint period \<noteq> valid_period then Some (PRTOS_INVALID_CONFIG, s) else do {
       ch \<leftarrow> channel_s (channel_table s i);
       let off = int port - uint (comm_ports_offset partition);
       if uint direction = PRTOS_DESTINATION_PORT then do {
         _ \<leftarrow> ASSERT (s_receivers ch < receivers);
         let n = nat (s_receivers ch);
         let ch = ch\<lparr>s_receiver_table := (s_receiver_table ch)(n := Some (unat me)),
                     s_receiver_port_table := (s_receiver_port_table ch)(n := off),
                     s_receivers := s_receivers ch + 1\<rparr>;
         Some (int port, open_port port me (COMM_PORT_OPENED OR COMM_PORT_EMPTY) (set_channel i (Sampling ch) s)) }
       else do {
         let ch = ch\<lparr>s_sender := Some (unat me), s_sender_port := off\<rparr>;
         Some (int port, open_port port me (COMM_PORT_OPENED OR COMM_PORT_EMPTY) (set_channel i (Sampling ch) s)) } } }
     else Some (int port, open_port port me (COMM_PORT_OPENED OR COMM_PORT_EMPTY) s) } } }"

text \<open>The checks of the descriptor and the port, common to the transfers: \<open>Some r\<close> is the early
  return with code \<open>r\<close>.\<close>

definition port_guards :: "prtos_conf \<Rightarrow> comms \<Rightarrow> u32 \<Rightarrow> nat \<Rightarrow> int \<Rightarrow> int \<Rightarrow> u32 \<Rightarrow> int option" where
  "port_guards c s me port ty direction msg_size =
     (if port_partition_id (port_table s port) \<noteq> me then Some PRTOS_INVALID_PARAM else
      if port_flags (port_table s port) AND COMM_PORT_OPENED = 0 then Some PRTOS_INVALID_PARAM else
      if port_type (comm_ports c port) \<noteq> ty then Some PRTOS_INVALID_PARAM else
      if port_direction (comm_ports c port) \<noteq> direction then Some PRTOS_INVALID_PARAM else
      if msg_size = 0 then Some PRTOS_INVALID_CONFIG else None)"

definition count_msg :: "(sys_status \<Rightarrow> sys_status) \<Rightarrow> (part_status \<Rightarrow> part_status) \<Rightarrow> nat \<Rightarrow> kstate \<Rightarrow> kstate" where
  "count_msg f g p k = k\<lparr>system_status := f (system_status k),
     partition_status := (partition_status k)(p := g (partition_status k p))\<rparr>"

definition mark_port :: "nat \<Rightarrow> u32 \<Rightarrow> comms \<Rightarrow> comms" where
  "mark_port port f = upd_port port (\<lambda>p. p\<lparr>port_flags := (port_flags p AND NOT COMM_PORT_MSG_MASK) OR f\<rparr>)"

text \<open>\<open>*flags\<close>: whether the message read is still fresh.  The clock is only read when it matters.\<close>

definition read_validity :: "sampling_channel \<Rightarrow> u32 \<Rightarrow> u32 \<Rightarrow> kstate \<Rightarrow> u32 \<times> kstate" where
  "read_validity ch period ret_size k =
     (if ret_size \<noteq> 0 \<and> period \<noteq> PRTOS_INFINITE_TIME then
        let (t, k) = get_sys_clock_usec k in
        (if s_timestamp ch + uint period > t then PRTOS_COMM_MSG_VALID else 0, k)
      else (0, k))"

definition store_word :: "u32 \<Rightarrow> u32 \<Rightarrow> memory \<Rightarrow> memory" where
  "store_word p w m = copy_to_guest p (\<lambda>i. ucast (drop_bit (8 * i) w)) 4 m"

definition read_sampling_port ::
    "prtos_conf \<Rightarrow> (bool \<Rightarrow> u32 \<Rightarrow> bool) \<Rightarrow> nat \<Rightarrow> u32 \<Rightarrow> u32 \<Rightarrow> u32 \<Rightarrow> u32 \<Rightarrow> comms \<Rightarrow> (int \<times> comms) option" where
  "read_sampling_port c acc this desc msg_ptr msg_size flags s = do {
     let port = unat (OBJDESC_GET_ID desc);
     me \<leftarrow> caller this s;
     if OBJDESC_GET_PARTITIONID desc \<noteq> me then Some (PRTOS_PERM_ERROR, s) else do {
     r \<leftarrow> check_gp_param acc flags 4 PFLAG_RW;
     if r < 0 then Some (PRTOS_INVALID_PARAM, s) else
     case port_guards c s me port PRTOS_SAMPLING_PORT PRTOS_DESTINATION_PORT msg_size of
       Some e \<Rightarrow> Some (e, s)
     | None \<Rightarrow>
     if port_channel_id (comm_ports c port) \<noteq> PRTOS_NULL_CHANNEL then do {
       let i = nat (port_channel_id (comm_ports c port));
       (max_length, period, _) \<leftarrow> conf_s (comm_channel_table c i);
       if msg_size > word_of_int max_length then Some (PRTOS_INVALID_CONFIG, s) else do {
       r \<leftarrow> check_gp_param acc msg_ptr msg_size (or PFLAG_NOT_NULL PFLAG_RW);
       if r < 0 then Some (PRTOS_INVALID_PARAM, s) else do {
       ch \<leftarrow> channel_s (channel_table s i);
       let len = word_of_int (s_length ch);
       let ret_size = (if msg_size < len then msg_size else len);
       let s = s\<lparr>gmem := copy_to_guest msg_ptr (s_buffer ch) (unat ret_size) (gmem s)\<rparr>;
       let s = mark_port port COMM_PORT_CONSUMED_MSG s;
       let s = s\<lparr>kern := count_msg (sampling_msgs_read_update (\<lambda>n. n + 1))
                  (part_sampling_msgs_read_update (\<lambda>n. n + 1)) (unat me) (kern s)\<rparr>;
       let k = current_kthread (cpus (kern s) this);
       let base = bitmap_base c me;
       let off = int port - uint (comm_ports_offset (partition_cfg c (unat me)));
       g \<leftarrow> guest_of (kern s) k;
       _ \<leftarrow> ASSERT ((word_of_int off :: u32) < word_of_int (pct_num_of_comm_ports (g_pct g)));
       let s = s\<lparr>kern := clear_port_bit base off k (kern s)\<rparr>;
       s \<leftarrow> (case s_sender ch of None \<Rightarrow> Some s
            | Some q \<Rightarrow> in_kern (\<lambda>k. do {
                k \<leftarrow> for_vcpus c q (\<lambda>_. True) (clear_port_bit base (s_sender_port ch)) k;
                set_part_ext_irq_pending c q PRTOS_VT_EXT_SAMPLING_PORT k }) s);
       let s = (if flags \<noteq> 0 then
           let (v, k) = read_validity ch period ret_size (kern s)
           in s\<lparr>kern := k, gmem := store_word flags v (gmem s)\<rparr> else s);
       Some (sint ret_size, s) } } }
     else Some (0, s) } }"

text \<open>The effect of a message on the receivers: for each of their threads the bit of the port, and
  the state of the port, which is indexed with the number the port has \<^emph>\<open>in its partition\<close>.\<close>

definition notify_receiver :: "prtos_conf \<Rightarrow> nat \<Rightarrow> sampling_channel \<Rightarrow> nat \<Rightarrow> comms \<Rightarrow> comms option" where
  "notify_receiver c base ch e s = (case s_receiver_table ch e of
     None \<Rightarrow> Some s
   | Some q \<Rightarrow> do {
       let rp = s_receiver_port_table ch e;
       s \<leftarrow> foldM (\<lambda>i s. do {
         k \<leftarrow> part_kthread (kern s) q i;
         g \<leftarrow> guest_of (kern s) k;
         _ \<leftarrow> ASSERT (rp < pct_num_of_comm_ports (g_pct g));
         let s = s\<lparr>kern := set_port_bit base rp k (kern s)\<rparr>;
         Some (mark_port (nat rp) COMM_PORT_NEW_MSG s) }) [0..<nr_vcpus c q] s;
       in_kern (set_part_ext_irq_pending c q PRTOS_VT_EXT_SAMPLING_PORT) s })"

definition write_sampling_port ::
    "prtos_conf \<Rightarrow> (bool \<Rightarrow> u32 \<Rightarrow> bool) \<Rightarrow> nat \<Rightarrow> u32 \<Rightarrow> u32 \<Rightarrow> u32 \<Rightarrow> comms \<Rightarrow> (int \<times> comms) option" where
  "write_sampling_port c acc this desc msg_ptr msg_size s = do {
     let port = unat (OBJDESC_GET_ID desc);
     me \<leftarrow> caller this s;
     if OBJDESC_GET_PARTITIONID desc \<noteq> me then Some (PRTOS_PERM_ERROR, s) else
     case port_guards c s me port PRTOS_SAMPLING_PORT PRTOS_SOURCE_PORT msg_size of
       Some e \<Rightarrow> Some (e, s)
     | None \<Rightarrow>
     if port_channel_id (comm_ports c port) \<noteq> PRTOS_NULL_CHANNEL then do {
       let i = nat (port_channel_id (comm_ports c port));
       (max_length, _, _) \<leftarrow> conf_s (comm_channel_table c i);
       if msg_size > word_of_int max_length then Some (PRTOS_INVALID_CONFIG, s) else do {
       r \<leftarrow> check_gp_param acc msg_ptr msg_size (or PFLAG_NOT_NULL PFLAG_RW);
       if r < 0 then Some (PRTOS_INVALID_PARAM, s) else do {
       ch \<leftarrow> channel_s (channel_table s i);
       let ch = ch\<lparr>s_buffer := copy_from_guest (gmem s) msg_ptr (unat msg_size) (s_buffer ch)\<rparr>;
       let s = s\<lparr>kern := count_msg (sampling_msgs_written_update (\<lambda>n. n + 1))
                  (part_sampling_msgs_written_update (\<lambda>n. n + 1)) (unat me) (kern s)\<rparr>;
       _ \<leftarrow> ASSERT (s_sender ch = Some (unat me));
       let base = bitmap_base c me;
       s \<leftarrow> in_kern (for_vcpus c (unat me) (\<lambda>_. True) (set_port_bit base (int port))) s;
       s \<leftarrow> foldM (notify_receiver c base ch) [0..<nat (s_receivers ch)] s;
       let (t, k) = get_sys_clock_usec (kern s);
       let ch = ch\<lparr>s_length := sint msg_size, s_timestamp := t\<rparr>;
       Some (PRTOS_OK, set_channel i (Sampling ch) (s\<lparr>kern := k\<rparr>)) } } }
     else Some (PRTOS_OK, s) }"

section \<open>Command blocks\<close>

text \<open>
  The arguments of the control operations lie in guest memory, with the layout of the 32-bit ABI,
  which aligns \<open>prtos_time_t\<close> to four bytes.  In \<open>union sampling_port_cmd\<close>, \<open>create\<close> has the name,
  the message size, the direction and the period at offsets 0, 4, 8 and 12; \<open>status\<close> the time stamp,
  the size and the flags at 0, 8 and 12; \<open>info\<close> the name, the period, the size and the direction
  at 0, 4, 12 and 16.
\<close>

definition load_word :: "memory \<Rightarrow> u32 \<Rightarrow> u32" where
  "load_word m p = ucast (m p) OR push_bit 8 (ucast (m (p + 1))) OR push_bit 16 (ucast (m (p + 2))) OR
     push_bit 24 (ucast (m (p + 3)))"

definition load_time :: "memory \<Rightarrow> u32 \<Rightarrow> int" where
  "load_time m p = sint (push_bit 32 (ucast (load_word m (p + 4))) OR ucast (load_word m p) :: u64)"

definition store_time :: "u32 \<Rightarrow> int \<Rightarrow> memory \<Rightarrow> memory" where
  "store_time p t m = store_word (p + 4) (ucast (drop_bit 32 (word_of_int t :: u64)))
     (store_word p (ucast (word_of_int t :: u64)) m)"

definition upd_gmem :: "(memory \<Rightarrow> memory) \<Rightarrow> comms \<Rightarrow> comms" where
  "upd_gmem f s = s\<lparr>gmem := f (gmem s)\<rparr>"

text \<open>\<open>strcmp\<close> over memory may not return.\<close>

fun find_portM :: "nat \<Rightarrow> nat \<Rightarrow> (nat \<Rightarrow> bool option) \<Rightarrow> nat option" where
  "find_portM i 0 t = Some i"
| "find_portM i (Suc k) t = do { b \<leftarrow> t i; if b then Some i else find_portM (Suc i) k t }"

definition find_port_exact :: "prtos_conf \<Rightarrow> nat \<Rightarrow> cstr \<Rightarrow> nat option" where
  "find_port_exact c p name = find_portM (unat (comm_ports_offset (partition_cfg c p)))
     (nat (num_of_ports (partition_cfg c p)))
     (\<lambda>i. map_option (\<lambda>r. r = 0) (strcmp name (\<lambda>j. string_tab c (unat (port_name_offset (comm_ports c i)) + j))))"

definition get_samping_port_info ::
    "prtos_conf \<Rightarrow> (bool \<Rightarrow> u32 \<Rightarrow> bool) \<Rightarrow> nat \<Rightarrow> u32 \<Rightarrow> u32 \<Rightarrow> comms \<Rightarrow> (int \<times> comms) option" where
  "get_samping_port_info c acc this desc info s = do {
     me \<leftarrow> caller this s;
     if OBJDESC_GET_PARTITIONID desc \<noteq> part_id (partition_cfg c (unat me)) then Some (PRTOS_PERM_ERROR, s) else do {
     let name = load_word (gmem s) info;
     r \<leftarrow> check_gp_param acc name CONFIG_ID_STRING_LENGTH PFLAG_NOT_NULL;
     if r < 0 then Some (PRTOS_INVALID_PARAM, s) else do {
     port \<leftarrow> find_port_exact c (unat me) (cstr_at (gmem s) name);
     if int port \<ge> num_of_comm_ports c then Some (PRTOS_INVALID_PARAM, s) else
     if port_type (comm_ports c port) \<noteq> PRTOS_SAMPLING_PORT then Some (PRTOS_INVALID_PARAM, s) else do {
     (period, len, dir) \<leftarrow>
       (if port_channel_id (comm_ports c port) \<noteq> PRTOS_NULL_CHANNEL then do {
          (max_length, period, _) \<leftarrow> conf_s (comm_channel_table c (nat (port_channel_id (comm_ports c port))));
          Some (uint period, word_of_int max_length, word_of_int (port_direction (comm_ports c port))) }
        else Some (uint PRTOS_INFINITE_TIME, 0, 0));
     Some (PRTOS_OK, upd_gmem (\<lambda>m. store_word (info + 16) dir (store_word (info + 12) len
       (store_time (info + 4) period m))) s) } } } }"

definition get_sampling_port_status ::
    "prtos_conf \<Rightarrow> nat \<Rightarrow> u32 \<Rightarrow> u32 \<Rightarrow> comms \<Rightarrow> (int \<times> comms) option" where
  "get_sampling_port_status c this desc status s = do {
     let port = unat (OBJDESC_GET_ID desc);
     me \<leftarrow> caller this s;
     if OBJDESC_GET_PARTITIONID desc \<noteq> me then Some (PRTOS_PERM_ERROR, s) else
     let flags = port_flags (port_table s port) in
     if port_partition_id (port_table s port) \<noteq> me then Some (PRTOS_INVALID_PARAM, s) else
     if flags AND COMM_PORT_OPENED = 0 then Some (PRTOS_INVALID_PARAM, s) else
     if port_type (comm_ports c port) \<noteq> PRTOS_SAMPLING_PORT then Some (PRTOS_INVALID_PARAM, s) else
     if port_channel_id (comm_ports c port) \<noteq> PRTOS_NULL_CHANNEL then do {
       let i = nat (port_channel_id (comm_ports c port));
       (_, period, _) \<leftarrow> conf_s (comm_channel_table c i);
       ch \<leftarrow> channel_s (channel_table s i);
       let st = (if flags AND COMM_PORT_NEW_MSG \<noteq> 0 then PRTOS_COMM_NEW_MSG
                 else if flags AND COMM_PORT_CONSUMED_MSG \<noteq> 0 then PRTOS_COMM_CONSUMED_MSG
                 else PRTOS_COMM_EMPTY_PORT);
       let (st, k) = (if s_timestamp ch \<noteq> 0 \<and> period \<noteq> PRTOS_INFINITE_TIME then
           let (t, k) = get_sys_clock_usec (kern s)
           in (if s_timestamp ch + uint period > t then st OR PRTOS_COMM_MSG_VALID else st, k)
         else (st, kern s));
       Some (PRTOS_OK, upd_gmem (\<lambda>m. store_word (status + 12) st (store_word (status + 8) (word_of_int (s_length ch))
         (store_time status (s_timestamp ch) m))) (s\<lparr>kern := k\<rparr>)) }
     else Some (PRTOS_OK, upd_gmem (memset status 0 16) s) }"

definition ctrl_sampling_port ::
    "prtos_conf \<Rightarrow> (bool \<Rightarrow> u32 \<Rightarrow> bool) \<Rightarrow> nat \<Rightarrow> u32 \<Rightarrow> u32 \<Rightarrow> u32 \<Rightarrow> comms \<Rightarrow> (int \<times> comms) option" where
  "ctrl_sampling_port c acc this desc cmd args s = do {
     r \<leftarrow> check_gp_param acc args 20 (or PFLAG_NOT_NULL PFLAG_RW);
     if r < 0 then Some (PRTOS_INVALID_PARAM, s) else
     let w = \<lambda>x. load_word (gmem s) (args + x) in
     if cmd = 0 then
       if w 0 = 0 then Some (PRTOS_INVALID_PARAM, s) else do {
       r \<leftarrow> check_gp_param acc (w 0) CONFIG_ID_STRING_LENGTH PFLAG_NOT_NULL;
       if r < 0 then Some (PRTOS_INVALID_PARAM, s) else
       create_sampling_port c acc this desc (w 0) (w 4) (w 8) (load_time (gmem s) (args + 12)) s }
     else if cmd = 1 then get_sampling_port_status c this desc args s
     else if cmd = 2 then get_samping_port_info c acc this desc args s
     else Some (PRTOS_INVALID_PARAM, s) }"

definition reset_part_ports :: "prtos_conf \<Rightarrow> nat \<Rightarrow> comms \<Rightarrow> comms" where
  "reset_part_ports c p s = fold (\<lambda>port. upd_port port (\<lambda>x. x\<lparr>port_flags := port_flags x AND NOT COMM_PORT_OPENED\<rparr>))
     [unat (comm_ports_offset (partition_cfg c p)) ..<
      unat (comm_ports_offset (partition_cfg c p)) + nat (num_of_ports (partition_cfg c p))] s"

section \<open>Queuing ports\<close>

definition create_queuing_port ::
    "prtos_conf \<Rightarrow> (bool \<Rightarrow> u32 \<Rightarrow> bool) \<Rightarrow> nat \<Rightarrow> u32 \<Rightarrow> u32 \<Rightarrow> int \<Rightarrow> int \<Rightarrow> u32 \<Rightarrow> comms \<Rightarrow> (int \<times> comms) option" where
  "create_queuing_port c acc this desc port_name max_num_of_msgs max_msg_size direction s = do {
     me \<leftarrow> caller this s;
     let partition = partition_cfg c (unat me);
     if OBJDESC_GET_PARTITIONID desc \<noteq> part_id partition then Some (PRTOS_PERM_ERROR, s) else do {
     r \<leftarrow> check_gp_param acc port_name CONFIG_ID_STRING_LENGTH (or PFLAG_NOT_NULL PFLAG_RW);
     if r < 0 then Some (PRTOS_INVALID_PARAM, s) else
     if uint direction \<noteq> PRTOS_SOURCE_PORT \<and> uint direction \<noteq> PRTOS_DESTINATION_PORT
     then Some (PRTOS_INVALID_PARAM, s) else do {
     let port = find_port c (unat me) (name_matches s port_name);
     if int port \<ge> num_of_comm_ports c then Some (PRTOS_INVALID_PARAM, s) else
     let cp = comm_ports c port in
     if port_type cp \<noteq> PRTOS_QUEUING_PORT then Some (PRTOS_INVALID_CONFIG, s) else
     if uint direction \<noteq> port_direction cp then Some (PRTOS_INVALID_CONFIG, s) else
     if port_flags (port_table s port) AND COMM_PORT_OPENED \<noteq> 0 then Some (PRTOS_NO_ACTION, s) else
     if port_channel_id cp \<noteq> PRTOS_NULL_CHANNEL then do {
       _ \<leftarrow> ASSERT (0 \<le> port_channel_id cp \<and> port_channel_id cp < num_of_comm_channels c);
       let i = nat (port_channel_id cp);
       ch \<leftarrow> channel_q (channel_table s i);
       (max_length, max_msgs) \<leftarrow> conf_q (comm_channel_table c i);
       let off = int port - uint (comm_ports_offset partition);
       let ch = (if uint direction = PRTOS_DESTINATION_PORT
                 then ch\<lparr>q_receiver := Some (unat me), q_receiver_port := off\<rparr>
                 else ch\<lparr>q_sender := Some (unat me), q_sender_port := off\<rparr>);
       let s = set_channel i (Queuing ch) s;
       if max_msgs \<noteq> max_num_of_msgs then Some (PRTOS_INVALID_CONFIG, s) else
       if max_length \<noteq> max_msg_size then Some (PRTOS_INVALID_CONFIG, s) else
       Some (int port, open_port port me COMM_PORT_OPENED s) }
     else Some (int port, open_port port me COMM_PORT_OPENED s) } } }"

text \<open>The list operations of a channel.\<close>

definition put_msg :: "msg_list \<Rightarrow> nat \<Rightarrow> queuing_channel \<Rightarrow> queuing_channel option" where
  "put_msg l m ch = map_option (\<lambda>(_, h). ch\<lparr>msg_lists := h\<rparr>) (dyn_list_insert_head l m (msg_lists ch))"

definition take_msg :: "msg_list \<Rightarrow> queuing_channel \<Rightarrow> (nat \<times> queuing_channel) option" where
  "take_msg l ch = (case dyn_list_remove_tail l (msg_lists ch) of
     Some (Some m, h) \<Rightarrow> Some (m, ch\<lparr>msg_lists := h\<rparr>) | _ \<Rightarrow> None)"

text \<open>What the kernel does to the channel for one message sent, and for one received.\<close>

definition enqueue :: "memory \<Rightarrow> u32 \<Rightarrow> u32 \<Rightarrow> queuing_channel \<Rightarrow> queuing_channel option" where
  "enqueue gm msg_ptr msg_size ch = do {
     (m, ch) \<leftarrow> take_msg FreeMsgs ch;
     let b = copy_from_guest gm msg_ptr (unat msg_size) (msg_buffer (msg_pool ch m));
     let ch = ch\<lparr>msg_pool := (msg_pool ch)(m := \<lparr>msg_buffer = b, msg_length = sint msg_size\<rparr>)\<rparr>;
     ch \<leftarrow> put_msg RecvMsgs m ch;
     Some (ch\<lparr>used_msgs := used_msgs ch + 1\<rparr>) }"

definition dequeue :: "u32 \<Rightarrow> u32 \<Rightarrow> memory \<Rightarrow> queuing_channel \<Rightarrow> (u32 \<times> memory \<times> queuing_channel) option" where
  "dequeue msg_ptr msg_size gm ch = do {
     (m, ch) \<leftarrow> take_msg RecvMsgs ch;
     let len = word_of_int (msg_length (msg_pool ch m));
     let ret_size = (if msg_size < len then msg_size else len);
     let gm = copy_to_guest msg_ptr (msg_buffer (msg_pool ch m)) (unat ret_size) gm;
     ch \<leftarrow> put_msg FreeMsgs m ch;
     Some (ret_size, gm, ch\<lparr>used_msgs := used_msgs ch - 1\<rparr>) }"

definition send_queuing_port ::
    "prtos_conf \<Rightarrow> (bool \<Rightarrow> u32 \<Rightarrow> bool) \<Rightarrow> nat \<Rightarrow> u32 \<Rightarrow> u32 \<Rightarrow> u32 \<Rightarrow> comms \<Rightarrow> (int \<times> comms) option" where
  "send_queuing_port c acc this desc msg_ptr msg_size s = do {
     let port = unat (OBJDESC_GET_ID desc);
     me \<leftarrow> caller this s;
     if OBJDESC_GET_PARTITIONID desc \<noteq> me then Some (PRTOS_PERM_ERROR, s) else
     case port_guards c s me port PRTOS_QUEUING_PORT PRTOS_SOURCE_PORT msg_size of
       Some e \<Rightarrow> Some (e, s)
     | None \<Rightarrow>
     if port_channel_id (comm_ports c port) \<noteq> PRTOS_NULL_CHANNEL then do {
       let i = nat (port_channel_id (comm_ports c port));
       (max_length, max_msgs) \<leftarrow> conf_q (comm_channel_table c i);
       if msg_size > word_of_int max_length then Some (PRTOS_INVALID_CONFIG, s) else do {
       r \<leftarrow> check_gp_param acc msg_ptr msg_size (or PFLAG_NOT_NULL PFLAG_RW);
       if r < 0 then Some (PRTOS_INVALID_PARAM, s) else do {
       ch \<leftarrow> channel_q (channel_table s i);
       if used_msgs ch < max_msgs then do {
         ch \<leftarrow> enqueue (gmem s) msg_ptr msg_size ch;
         let s = set_channel i (Queuing ch) (s\<lparr>kern := count_msg (queuing_msgs_sent_update (\<lambda>n. n + 1))
                  (part_queuing_msgs_sent_update (\<lambda>n. n + 1)) (unat me) (kern s)\<rparr>);
         let base = bitmap_base c me;
         s \<leftarrow> (case q_receiver ch of None \<Rightarrow> Some s
              | Some q \<Rightarrow> in_kern (\<lambda>k. do {
                  k \<leftarrow> for_vcpus c q (\<lambda>g. q_receiver_port ch < pct_num_of_comm_ports (g_pct g))
                         (set_port_bit base (q_receiver_port ch)) k;
                  set_part_ext_irq_pending c q PRTOS_VT_EXT_QUEUING_PORT k }) s);
         s \<leftarrow> in_kern (for_vcpus c (unat me) (\<lambda>_. q_sender ch = Some (unat me))
                (set_port_bit base (q_sender_port ch))) s;
         Some (PRTOS_OK, s) }
       else Some (PRTOS_OP_NOT_ALLOWED, s) } } }
     else Some (PRTOS_OK, s) }"

text \<open>When the last message is taken, the bits of the ports at both ends are cleared: at the receiver that
  of the bit number \<open>comm_ports_offset\<close>, whatever the port.\<close>

definition clear_drained :: "prtos_conf \<Rightarrow> u32 \<Rightarrow> nat \<Rightarrow> queuing_channel \<Rightarrow> comms \<Rightarrow> comms option" where
  "clear_drained c me port ch s = do {
     let base = bitmap_base c me;
     let first = comm_ports_offset (partition_cfg c (unat me));
     s \<leftarrow> in_kern (for_vcpus c (unat me)
            (\<lambda>g. of_nat port - first < word_of_int (pct_num_of_comm_ports (g_pct g)))
            (clear_port_bit base (uint first))) s;
     case q_sender ch of None \<Rightarrow> Some s
     | Some q \<Rightarrow> in_kern (for_vcpus c q (\<lambda>g. q_sender_port ch < pct_num_of_comm_ports (g_pct g))
                   (clear_port_bit base (q_sender_port ch))) s }"

definition receive_queuing_port ::
    "prtos_conf \<Rightarrow> (bool \<Rightarrow> u32 \<Rightarrow> bool) \<Rightarrow> nat \<Rightarrow> u32 \<Rightarrow> u32 \<Rightarrow> u32 \<Rightarrow> comms \<Rightarrow> (int \<times> comms) option" where
  "receive_queuing_port c acc this desc msg_ptr msg_size s = do {
     let port = unat (OBJDESC_GET_ID desc);
     me \<leftarrow> caller this s;
     if OBJDESC_GET_PARTITIONID desc \<noteq> me then Some (PRTOS_PERM_ERROR, s) else
     case port_guards c s me port PRTOS_QUEUING_PORT PRTOS_DESTINATION_PORT msg_size of
       Some e \<Rightarrow> Some (e, s)
     | None \<Rightarrow>
     if port_channel_id (comm_ports c port) \<noteq> PRTOS_NULL_CHANNEL then do {
       let i = nat (port_channel_id (comm_ports c port));
       (max_length, max_msgs) \<leftarrow> conf_q (comm_channel_table c i);
       if msg_size > word_of_int max_length then Some (PRTOS_INVALID_CONFIG, s) else do {
       r \<leftarrow> check_gp_param acc msg_ptr msg_size (or PFLAG_NOT_NULL PFLAG_RW);
       if r < 0 then Some (PRTOS_INVALID_PARAM, s) else do {
       ch \<leftarrow> channel_q (channel_table s i);
       if used_msgs ch > 0 then do {
         (ret_size, gm, ch) \<leftarrow> dequeue msg_ptr msg_size (gmem s) ch;
         let s = set_channel i (Queuing ch) (s\<lparr>gmem := gm, kern := count_msg (queuing_msgs_received_update (\<lambda>n. n + 1))
                  (part_queuing_msgs_received_update (\<lambda>n. n + 1)) (unat me) (kern s)\<rparr>);
         s \<leftarrow> (case q_sender ch of None \<Rightarrow> Some s
              | Some q \<Rightarrow> in_kern (set_part_ext_irq_pending c q PRTOS_VT_EXT_QUEUING_PORT) s);
         s \<leftarrow> (if used_msgs ch = 0 then clear_drained c me port ch s else Some s);
         Some (sint ret_size, s) }
       else Some (PRTOS_OP_NOT_ALLOWED, s) } } }
     else Some (0, s) }"

text \<open>In \<open>union queuing_port_cmd\<close>, \<open>create\<close> has the name, the number of messages, their size and the
  direction at offsets 0, 4, 8 and 12; \<open>status\<close> the number of messages at 0; \<open>info\<close> the name, the
  size, the number of messages and the direction at 0, 4, 8 and 12.  A status without a channel is
  cleared over the sixteen bytes of the status of a sampling port.\<close>

definition get_queuling_port_status ::
    "prtos_conf \<Rightarrow> nat \<Rightarrow> u32 \<Rightarrow> u32 \<Rightarrow> comms \<Rightarrow> (int \<times> comms) option" where
  "get_queuling_port_status c this desc status s = do {
     let port = unat (OBJDESC_GET_ID desc);
     me \<leftarrow> caller this s;
     if OBJDESC_GET_PARTITIONID desc \<noteq> me then Some (PRTOS_PERM_ERROR, s) else
     if port_partition_id (port_table s port) \<noteq> me then Some (PRTOS_INVALID_PARAM, s) else
     if port_flags (port_table s port) AND COMM_PORT_OPENED = 0 then Some (PRTOS_INVALID_PARAM, s) else
     if port_type (comm_ports c port) \<noteq> PRTOS_QUEUING_PORT then Some (PRTOS_INVALID_PARAM, s) else
     if port_channel_id (comm_ports c port) \<noteq> PRTOS_NULL_CHANNEL then do {
       ch \<leftarrow> channel_q (channel_table s (nat (port_channel_id (comm_ports c port))));
       Some (PRTOS_OK, upd_gmem (store_word status (word_of_int (used_msgs ch))) s) }
     else Some (PRTOS_OK, upd_gmem (memset status 0 16) s) }"

definition get_queuling_port_info ::
    "prtos_conf \<Rightarrow> (bool \<Rightarrow> u32 \<Rightarrow> bool) \<Rightarrow> nat \<Rightarrow> u32 \<Rightarrow> u32 \<Rightarrow> comms \<Rightarrow> (int \<times> comms) option" where
  "get_queuling_port_info c acc this desc info s = do {
     me \<leftarrow> caller this s;
     if OBJDESC_GET_PARTITIONID desc \<noteq> part_id (partition_cfg c (unat me)) then Some (PRTOS_PERM_ERROR, s) else do {
     let name = load_word (gmem s) info;
     r \<leftarrow> check_gp_param acc name CONFIG_ID_STRING_LENGTH PFLAG_NOT_NULL;
     if r < 0 then Some (PRTOS_INVALID_PARAM, s) else do {
     port \<leftarrow> find_port_exact c (unat me) (cstr_at (gmem s) name);
     if int port \<ge> num_of_comm_ports c then Some (PRTOS_INVALID_PARAM, s) else
     if port_type (comm_ports c port) \<noteq> PRTOS_QUEUING_PORT then Some (PRTOS_INVALID_PARAM, s) else do {
     (msgs, len, dir) \<leftarrow>
       (if port_channel_id (comm_ports c port) \<noteq> PRTOS_NULL_CHANNEL then do {
          (max_length, max_msgs) \<leftarrow> conf_q (comm_channel_table c (nat (port_channel_id (comm_ports c port))));
          Some (word_of_int max_msgs, word_of_int max_length, word_of_int (port_direction (comm_ports c port))) }
        else Some (0, 0, 0));
     Some (PRTOS_OK, upd_gmem (\<lambda>m. store_word (info + 12) dir (store_word (info + 4) len
       (store_word (info + 8) msgs m))) s) } } } }"

definition ctrl_queuing_port ::
    "prtos_conf \<Rightarrow> (bool \<Rightarrow> u32 \<Rightarrow> bool) \<Rightarrow> nat \<Rightarrow> u32 \<Rightarrow> u32 \<Rightarrow> u32 \<Rightarrow> comms \<Rightarrow> (int \<times> comms) option" where
  "ctrl_queuing_port c acc this desc cmd args s = do {
     r \<leftarrow> check_gp_param acc args 24 (or PFLAG_NOT_NULL PFLAG_RW);
     if r < 0 then Some (PRTOS_INVALID_PARAM, s) else
     let w = \<lambda>x. load_word (gmem s) (args + x) in
     if cmd = 0 then
       if w 0 = 0 then Some (PRTOS_INVALID_PARAM, s) else do {
       r \<leftarrow> check_gp_param acc (w 0) CONFIG_ID_STRING_LENGTH (or PFLAG_NOT_NULL PFLAG_RW);
       if r < 0 then Some (PRTOS_INVALID_PARAM, s) else
       create_queuing_port c acc this desc (w 0) (sint (w 4)) (sint (w 8)) (w 12) s }
     else if cmd = 1 then get_queuling_port_status c this desc args s
     else if cmd = 2 then get_queuling_port_info c acc this desc args s
     else Some (PRTOS_INVALID_PARAM, s) }"

section \<open>Boot\<close>

text \<open>\<open>setup_comm\<close> allocates the tables, filled with zeros, and puts every message of a pool on the
  list of free messages.\<close>

definition zero_sampling :: sampling_channel where
  "zero_sampling = \<lparr>s_buffer = \<lambda>_. 0, s_length = 0, s_timestamp = 0, s_receiver_table = \<lambda>_. None,
     s_receiver_port_table = \<lambda>_. 0, s_receivers = 0, s_sender = None, s_sender_port = 0\<rparr>"

definition zero_queuing :: queuing_channel where
  "zero_queuing = \<lparr>msg_pool = \<lambda>_. \<lparr>msg_buffer = \<lambda>_. 0, msg_length = 0\<rparr>,
     msg_lists = \<lparr>nodes = \<lambda>_. \<lparr>dn_list = None, dn_prev = None, dn_next = None\<rparr>,
       dlists = \<lambda>_. \<lparr>dl_head = None, dl_num = 0\<rparr>\<rparr>,
     used_msgs = 0, q_receiver = None, q_receiver_port = 0, q_sender = None, q_sender_port = 0\<rparr>"

definition fill_pool :: "nat \<Rightarrow> queuing_channel \<Rightarrow> queuing_channel option" where
  "fill_pool n ch = foldM (\<lambda>i ch. do {
     (r, h) \<leftarrow> dyn_list_insert_head FreeMsgs i (msg_lists ch);
     if r \<noteq> 0 then None else Some (ch\<lparr>msg_lists := h\<rparr>) }) [0..<n]
     (ch\<lparr>msg_lists := dyn_list_init RecvMsgs (dyn_list_init FreeMsgs (msg_lists ch))\<rparr>)"

definition setup_channel :: "prtos_conf_comm_channel \<Rightarrow> channel option" where
  "setup_channel cc = (case cc of
     ConfSampling _ _ _ \<Rightarrow> Some (Sampling zero_sampling)
   | ConfQueuing _ n \<Rightarrow> map_option Queuing (fill_pool (nat n) zero_queuing))"

definition setup_comm :: "prtos_conf \<Rightarrow> nat \<Rightarrow> comms \<Rightarrow> comms option" where
  "setup_comm c this s = do {
     _ \<leftarrow> ASSERT (this = 0);
     let s = s\<lparr>port_table := \<lambda>_. \<lparr>port_flags = 0, port_partition_id = 0\<rparr>\<rparr>;
     foldM (\<lambda>e s. do { ch \<leftarrow> setup_channel (comm_channel_table c e); Some (set_channel e ch s) })
       [0..<nat (num_of_comm_channels c)] s }"

section \<open>The messages of a queuing channel\<close>

definition guest_bytes :: "memory \<Rightarrow> u32 \<Rightarrow> nat \<Rightarrow> u8 list" where
  "guest_bytes m p n = map (\<lambda>i. m (p + of_nat i)) [0..<n]"

definition msg_bytes :: "msg \<Rightarrow> u8 list" where
  "msg_bytes m = map (msg_buffer m) [0..<nat (msg_length m)]"

text \<open>\<open>queue_is n len ch xs\<close>: the channel has \<open>n\<close> messages of at most \<open>len\<close> bytes, every one of them
  on exactly one of the two lists, and those received hold, oldest first, the contents \<open>xs\<close>.\<close>

definition queue_is :: "nat \<Rightarrow> int \<Rightarrow> queuing_channel \<Rightarrow> u8 list list \<Rightarrow> bool" where
  "queue_is n len ch xs \<longleftrightarrow> (\<exists>fr rc. dl_rep (msg_lists ch) FreeMsgs fr \<and> dl_rep (msg_lists ch) RecvMsgs rc \<and>
     set (fr @ rc) = {..<n} \<and> used_msgs ch = int (length rc) \<and>
     map (\<lambda>m. msg_bytes (msg_pool ch m)) (rev rc) = xs \<and>
     (\<forall>m \<in> set rc. 0 \<le> msg_length (msg_pool ch m) \<and> msg_length (msg_pool ch m) \<le> len))"

lemma queue_isE:
  assumes "queue_is n len ch xs"
  obtains fr rc where "dl_rep (msg_lists ch) FreeMsgs fr" "dl_rep (msg_lists ch) RecvMsgs rc"
    "set (fr @ rc) = {..<n}" "used_msgs ch = int (length rc)"
    "map (\<lambda>m. msg_bytes (msg_pool ch m)) (rev rc) = xs"
    "\<forall>m \<in> set rc. 0 \<le> msg_length (msg_pool ch m) \<and> msg_length (msg_pool ch m) \<le> len"
  using assms unfolding queue_is_def by (elim exE conjE) (rule that)

lemma queue_is_count:
  assumes "queue_is n len ch xs"
  shows "used_msgs ch = int (length xs) \<and> length xs \<le> n"
proof -
  from assms obtain fr rc where q: "dl_rep (msg_lists ch) FreeMsgs fr" "dl_rep (msg_lists ch) RecvMsgs rc"
    "set (fr @ rc) = {..<n}" "used_msgs ch = int (length rc)" "length rc = length xs"
    unfolding queue_is_def by (metis length_map length_rev)
  then have "distinct rc" "set rc \<subseteq> {..<n}" by (auto simp: dl_rep_def)
  then have "length rc \<le> n" by (metis distinct_card card_mono finite_lessThan card_lessThan)
  with q show ?thesis by simp
qed

lemma enqueue_correct:
  assumes q: "queue_is n len ch xs" and "length xs < n" and sz: "uint msg_size \<le> len" "len < 2 ^ 31"
  shows "\<exists>ch'. enqueue gm msg_ptr msg_size ch = Some ch' \<and>
    queue_is n len ch' (xs @ [guest_bytes gm msg_ptr (unat msg_size)]) \<and>
    q_receiver ch' = q_receiver ch \<and> q_receiver_port ch' = q_receiver_port ch \<and>
    q_sender ch' = q_sender ch \<and> q_sender_port ch' = q_sender_port ch"
proof -
  from q obtain fr rc where r: "dl_rep (msg_lists ch) FreeMsgs fr" "dl_rep (msg_lists ch) RecvMsgs rc"
    "set (fr @ rc) = {..<n}" "used_msgs ch = int (length rc)"
    "map (\<lambda>m. msg_bytes (msg_pool ch m)) (rev rc) = xs"
    "\<forall>m \<in> set rc. 0 \<le> msg_length (msg_pool ch m) \<and> msg_length (msg_pool ch m) \<le> len"
    by (rule queue_isE)
  have "length rc = length xs" using r(5) by (metis length_map length_rev)
  have "fr \<noteq> []"
  proof
    assume "fr = []"
    with r(3) have "card (set rc) = n" by simp
    with r(2) \<open>length rc = length xs\<close> assms(2) show False by (simp add: dl_rep_def distinct_card)
  qed
  then obtain fs m where fr: "fr = fs @ [m]" by (cases fr rule: rev_cases) auto
  obtain h1 h2 where h: "dyn_list_remove_tail FreeMsgs (msg_lists ch) = Some (Some m, h1)"
    "dyn_list_insert_head RecvMsgs m h1 = Some (0, h2)" "dl_rep h2 FreeMsgs fs" "dl_rep h2 RecvMsgs (m # rc)"
    using move_rep [of "msg_lists ch" FreeMsgs fs m RecvMsgs rc] r(1,2) fr by auto
  have new: "m \<notin> set rc" using h(4) by (simp add: dl_rep_def)
  have si: "sint msg_size = uint msg_size"
    using sz by (intro sint_small) simp
  let ?msg = "\<lparr>msg_buffer = copy_from_guest gm msg_ptr (unat msg_size) (msg_buffer (msg_pool ch m)), msg_length = sint msg_size\<rparr>"
  let ?ch = "ch\<lparr>msg_lists := h2, msg_pool := (msg_pool ch)(m := ?msg), used_msgs := used_msgs ch + 1\<rparr>"
  have "enqueue gm msg_ptr msg_size ch = Some ?ch"
    using h(1,2) by (simp add: enqueue_def take_msg_def put_msg_def)
  moreover have "queue_is n len ?ch (xs @ [guest_bytes gm msg_ptr (unat msg_size)])"
    unfolding queue_is_def
  proof (intro exI conjI)
    show "dl_rep (msg_lists ?ch) FreeMsgs fs" "dl_rep (msg_lists ?ch) RecvMsgs (m # rc)" using h by simp_all
    show "set (fs @ m # rc) = {..<n}" using r(3) fr by auto
    show "map (\<lambda>m. msg_bytes (msg_pool ?ch m)) (rev (m # rc)) = xs @ [guest_bytes gm msg_ptr (unat msg_size)]"
      using r(5) new by (auto simp: msg_bytes_def guest_bytes_def copy_from_guest_def si nat_uint_eq)
    show "\<forall>x \<in> set (m # rc). 0 \<le> msg_length (msg_pool ?ch x) \<and> msg_length (msg_pool ?ch x) \<le> len"
      using r(6) sz(1) by (auto simp: si)
  qed (use r(4) in simp)
  ultimately show ?thesis by simp
qed

lemma copy_to_guest_cong: "(\<And>i. i < n \<Longrightarrow> b i = b' i) \<Longrightarrow> copy_to_guest p b n m = copy_to_guest p b' n m"
  unfolding copy_to_guest_def by (induction n) simp_all

lemma copy_to_guest_read:
  assumes "unat p + n \<le> 2 ^ 32" and "k < n"
  shows "copy_to_guest p b n m (p + of_nat k) = b k"
  using assms
proof (induction n)
  case (Suc n)
  show ?case
  proof (cases "k = n")
    case False
    with Suc.prems have "k < n" "p + of_nat k \<noteq> p + of_nat n"
      using block_distinct [OF Suc.prems(1), of k n] by simp_all
    then show ?thesis using Suc by (simp add: copy_to_guest_def)
  qed (simp add: copy_to_guest_def)
qed simp

lemma guest_bytes_copy:
  "unat p + n \<le> 2 ^ 32 \<Longrightarrow> guest_bytes (copy_to_guest p b n m) p n = map b [0..<n]"
  by (simp add: guest_bytes_def copy_to_guest_read)

lemma dequeue_correct:
  assumes q: "queue_is n len ch (x # xs)" and len: "len < 2 ^ 31"
  shows "\<exists>ch'. dequeue msg_ptr msg_size gm ch = Some (of_nat (min (unat msg_size) (length x)),
      copy_to_guest msg_ptr (\<lambda>i. x ! i) (min (unat msg_size) (length x)) gm, ch') \<and>
    queue_is n len ch' xs \<and>
    q_receiver ch' = q_receiver ch \<and> q_receiver_port ch' = q_receiver_port ch \<and>
    q_sender ch' = q_sender ch \<and> q_sender_port ch' = q_sender_port ch"
proof -
  from q obtain fr rc where r: "dl_rep (msg_lists ch) FreeMsgs fr" "dl_rep (msg_lists ch) RecvMsgs rc"
    "set (fr @ rc) = {..<n}" "used_msgs ch = int (length rc)"
    "map (\<lambda>m. msg_bytes (msg_pool ch m)) (rev rc) = x # xs"
    "\<forall>m \<in> set rc. 0 \<le> msg_length (msg_pool ch m) \<and> msg_length (msg_pool ch m) \<le> len"
    by (rule queue_isE)
  obtain rs m where rc: "rc = rs @ [m]" using r(5) by (cases rc rule: rev_cases) auto
  obtain h1 h2 where h: "dyn_list_remove_tail RecvMsgs (msg_lists ch) = Some (Some m, h1)"
    "dyn_list_insert_head FreeMsgs m h1 = Some (0, h2)" "dl_rep h2 RecvMsgs rs" "dl_rep h2 FreeMsgs (m # fr)"
    using move_rep [of "msg_lists ch" RecvMsgs rs m FreeMsgs fr] r(1,2) rc by auto
  have x: "x = msg_bytes (msg_pool ch m)" "xs = map (\<lambda>m. msg_bytes (msg_pool ch m)) (rev rs)" using r(5) rc by auto
  have ml: "0 \<le> msg_length (msg_pool ch m)" "msg_length (msg_pool ch m) \<le> len" using r(6) rc by auto
  let ?w = "word_of_int (msg_length (msg_pool ch m)) :: u32" and ?n = "min (unat msg_size) (length x)"
  have "uint ?w = msg_length (msg_pool ch m)" using ml len by (simp add: uint_word_of_int_u32)
  then have w: "unat ?w = length x" by (simp add: x msg_bytes_def unat_eq_nat_uint)
  let ?r = "if msg_size < ?w then msg_size else ?w"
  have rn: "unat ?r = ?n" using w by (simp add: word_less_nat_alt min_def)
  then have rw: "?r = of_nat ?n" unfolding rn [symmetric] by simp
  let ?ch = "ch\<lparr>msg_lists := h2, used_msgs := used_msgs ch - 1\<rparr>"
  have cp: "copy_to_guest msg_ptr (msg_buffer (msg_pool ch m)) ?n gm = copy_to_guest msg_ptr (\<lambda>i. x ! i) ?n gm"
    by (rule copy_to_guest_cong) (simp add: x msg_bytes_def)
  have "dequeue msg_ptr msg_size gm ch = Some (?r, copy_to_guest msg_ptr (msg_buffer (msg_pool ch m)) (unat ?r) gm, ?ch)"
    using h(1,2) by (simp add: dequeue_def take_msg_def put_msg_def Let_def)
  then have "dequeue msg_ptr msg_size gm ch = Some (of_nat ?n, copy_to_guest msg_ptr (\<lambda>i. x ! i) ?n gm, ?ch)"
    unfolding rw rn [unfolded rw] cp .
  moreover have "queue_is n len ?ch xs" unfolding queue_is_def
  proof (intro exI conjI)
    show "dl_rep (msg_lists ?ch) FreeMsgs (m # fr)" "dl_rep (msg_lists ?ch) RecvMsgs rs" using h by simp_all
    show "set ((m # fr) @ rs) = {..<n}" using r(3) rc by auto
  qed (use r rc x in auto)
  ultimately show ?thesis by auto
qed

lemma fill_pool_correct:
  "\<exists>ch. fill_pool n zero_queuing = Some ch \<and> queue_is n len ch [] \<and> q_receiver ch = None \<and> q_sender ch = None"
proof -
  let ?h0 = "dyn_list_init RecvMsgs (dyn_list_init FreeMsgs (msg_lists zero_queuing))"
  let ?f = "\<lambda>i ch. do { (r, h) \<leftarrow> dyn_list_insert_head FreeMsgs i (msg_lists ch);
     if r \<noteq> 0 then None else Some (ch\<lparr>msg_lists := h\<rparr>) }"
  have "\<exists>h. foldM ?f [0..<k] (zero_queuing\<lparr>msg_lists := ?h0\<rparr>) = Some (zero_queuing\<lparr>msg_lists := h\<rparr>) \<and>
      dl_rep h FreeMsgs (rev [0..<k]) \<and> dl_rep h RecvMsgs [] \<and> (\<forall>i \<ge> k. dl_detached h i)" for k
  proof (induction k)
    case 0
    show ?case by (simp add: dl_rep_Nil dyn_list_init_def zero_queuing_def dl_detached_def)
  next
    case (Suc k)
    then obtain h where h: "foldM ?f [0..<k] (zero_queuing\<lparr>msg_lists := ?h0\<rparr>) = Some (zero_queuing\<lparr>msg_lists := h\<rparr>)"
      "dl_rep h FreeMsgs (rev [0..<k])" "dl_rep h RecvMsgs []" "\<forall>i \<ge> k. dl_detached h i" by blast
    obtain h' where h': "dyn_list_insert_head FreeMsgs k h = Some (0, h')" "dl_rep h' FreeMsgs (k # rev [0..<k])"
      "dl_frame FreeMsgs (insert k (set (rev [0..<k]))) h h'"
      using insert_head_rep [OF h(2), of k] h(4) by blast
    have "dn_list (nodes h' x) = Some FreeMsgs" if "x \<in> insert k (set (rev [0..<k]))" for x
      using that h'(2) by (auto simp: dl_rep_def)
    then have "dl_rep h' RecvMsgs []"
      by (intro dl_rep_frame [OF h'(3) h(3)]) simp_all
    moreover have "\<forall>i \<ge> Suc k. dl_detached h' i"
      using h(4) by (auto intro!: dl_detached_frame [OF h'(3)])
    ultimately show ?case using h h'(1,2) by (auto simp: foldM_append)
  qed
  then obtain h where "fill_pool n zero_queuing = Some (zero_queuing\<lparr>msg_lists := h\<rparr>)"
    "dl_rep h FreeMsgs (rev [0..<n])" "dl_rep h RecvMsgs []" unfolding fill_pool_def by blast
  moreover from this have "queue_is n len (zero_queuing\<lparr>msg_lists := h\<rparr>) []" unfolding queue_is_def
    by (intro exI [of _ "rev [0..<n]"] exI [of _ "[]"]) (auto simp: zero_queuing_def)
  ultimately show ?thesis by (simp add: zero_queuing_def)
qed

section \<open>A channel is a bounded queue\<close>

text \<open>
  The contract of a bounded queue of messages: \<open>count\<close> tells how full it is, \<open>put\<close> is called when it
  is not full and \<open>get\<close> when it is not empty.  The client sees every call that comes too early refused.
\<close>

datatype ('m, 'r) queue_op = Put 'm | Get 'r
datatype 'o queue_result = Refused | Accepted | Got 'o

fun queue_run :: "int \<Rightarrow> ('s \<Rightarrow> int) \<Rightarrow> ('m \<Rightarrow> 's \<Rightarrow> 's option) \<Rightarrow> ('r \<Rightarrow> 's \<Rightarrow> ('o \<times> 's) option) \<Rightarrow>
    ('m, 'r) queue_op list \<Rightarrow> 's \<Rightarrow> ('o queue_result list \<times> 's) option" where
  "queue_run cap count put get [] s = Some ([], s)"
| "queue_run cap count put get (Put m # ops) s =
     (if count s < cap then do {
        s \<leftarrow> put m s; (rs, s) \<leftarrow> queue_run cap count put get ops s; Some (Accepted # rs, s) }
      else do { (rs, s) \<leftarrow> queue_run cap count put get ops s; Some (Refused # rs, s) })"
| "queue_run cap count put get (Get r # ops) s =
     (if count s > 0 then do {
        (x, s) \<leftarrow> get r s; (rs, s) \<leftarrow> queue_run cap count put get ops s; Some (Got x # rs, s) }
      else do { (rs, s) \<leftarrow> queue_run cap count put get ops s; Some (Refused # rs, s) })"

fun queue_spec :: "nat \<Rightarrow> ('m \<Rightarrow> 'v) \<Rightarrow> ('r \<Rightarrow> 'v \<Rightarrow> 'o) \<Rightarrow> ('m, 'r) queue_op list \<Rightarrow> 'v list \<Rightarrow>
    'o queue_result list \<times> 'v list" where
  "queue_spec cap val see [] xs = ([], xs)"
| "queue_spec cap val see (Put m # ops) xs =
     (if length xs < cap then let (rs, ys) = queue_spec cap val see ops (xs @ [val m]) in (Accepted # rs, ys)
      else let (rs, ys) = queue_spec cap val see ops xs in (Refused # rs, ys))"
| "queue_spec cap val see (Get r # ops) [] =
     (let (rs, ys) = queue_spec cap val see ops [] in (Refused # rs, ys))"
| "queue_spec cap val see (Get r # ops) (x # xs) =
     (let (rs, ys) = queue_spec cap val see ops xs in (Got (see r x) # rs, ys))"

locale bounded_queue =
  fixes rep :: "'s \<Rightarrow> 'v list \<Rightarrow> bool" and cap :: nat and okm :: "'m \<Rightarrow> bool" and val :: "'m \<Rightarrow> 'v"
    and see :: "'r \<Rightarrow> 'v \<Rightarrow> 'o"
    and count :: "'s \<Rightarrow> int" and put :: "'m \<Rightarrow> 's \<Rightarrow> 's option" and get :: "'r \<Rightarrow> 's \<Rightarrow> ('o \<times> 's) option"
  assumes count_law: "rep s xs \<Longrightarrow> count s = int (length xs) \<and> length xs \<le> cap"
    and put_law: "rep s xs \<Longrightarrow> okm m \<Longrightarrow> length xs < cap \<Longrightarrow> \<exists>s'. put m s = Some s' \<and> rep s' (xs @ [val m])"
    and get_law: "rep s (x # xs) \<Longrightarrow> \<exists>s'. get r s = Some (see r x, s') \<and> rep s' xs"
begin

lemma run_refines:
  "rep s xs \<Longrightarrow> \<forall>m. Put m \<in> set ops \<longrightarrow> okm m \<Longrightarrow>
    \<exists>s'. queue_run (int cap) count put get ops s = Some (fst (queue_spec cap val see ops xs), s') \<and>
      rep s' (snd (queue_spec cap val see ops xs))"
proof (induction ops arbitrary: s xs)
  case (Cons op ops)
  note c = count_law [OF Cons.prems(1)]
  have rest: "\<forall>m. Put m \<in> set ops \<longrightarrow> okm m" using Cons.prems(2) by auto
  show ?case
  proof (cases op)
    case (Put m)
    show ?thesis
    proof (cases "length xs < cap")
      case True
      moreover obtain s1 where "put m s = Some s1" "rep s1 (xs @ [val m])"
        using put_law [OF Cons.prems(1) _ True, of m] Cons.prems(2) Put by auto
      ultimately show ?thesis using Cons.IH [of s1 "xs @ [val m]"] rest c Put by (auto split: prod.splits)
    next
      case False
      then show ?thesis using Cons.IH [OF Cons.prems(1) rest] c Put by (auto split: prod.splits)
    qed
  next
    case (Get r)
    show ?thesis
    proof (cases xs)
      case Nil
      then show ?thesis using Cons.IH [OF Cons.prems(1) rest] c Get by (auto split: prod.splits)
    next
      case (Cons x ys)
      moreover obtain s1 where "get r s = Some (see r x, s1)" "rep s1 ys"
        using get_law [of s x ys r] Cons.prems(1) Cons by auto
      ultimately show ?thesis using Cons.IH [of s1 ys] rest c Get by (auto split: prod.splits)
    qed
  qed
qed simp

end

text \<open>A message to send is the memory of the sender, the pointer and the size; a request to receive
  the pointer, the size and the memory of the receiver, of which it sees the bytes received.\<close>

definition send_op :: "memory \<times> u32 \<times> u32 \<Rightarrow> queuing_channel \<Rightarrow> queuing_channel option" where
  "send_op m = enqueue (fst m) (fst (snd m)) (snd (snd m))"

definition sent :: "memory \<times> u32 \<times> u32 \<Rightarrow> u8 list" where
  "sent m = guest_bytes (fst m) (fst (snd m)) (unat (snd (snd m)))"

definition receive_op :: "u32 \<times> u32 \<times> memory \<Rightarrow> queuing_channel \<Rightarrow> ((u32 \<times> memory) \<times> queuing_channel) option" where
  "receive_op r ch = map_option (\<lambda>(n, m, ch). ((n, m), ch)) (dequeue (fst r) (fst (snd r)) (snd (snd r)) ch)"

definition received :: "u32 \<times> u32 \<times> memory \<Rightarrow> u8 list \<Rightarrow> u32 \<times> memory" where
  "received r x = (let n = min (unat (fst (snd r))) (length x)
     in (of_nat n, copy_to_guest (fst r) (\<lambda>i. x ! i) n (snd (snd r))))"

text \<open>The bound on the size, \<open>len\<close>, is cut to the range of the type that holds it.\<close>

interpretation chan_queue: bounded_queue "queue_is n (min len (2 ^ 31 - 1))" n
    "\<lambda>m. uint (snd (snd m)) \<le> min len (2 ^ 31 - 1)" sent received used_msgs send_op receive_op
  for n len
proof
  fix s xs assume "queue_is n (min len (2 ^ 31 - 1)) s xs"
  then show "used_msgs s = int (length xs) \<and> length xs \<le> n" by (rule queue_is_count)
next
  fix s xs and m :: "memory \<times> u32 \<times> u32"
  assume "queue_is n (min len (2 ^ 31 - 1)) s xs" "uint (snd (snd m)) \<le> min len (2 ^ 31 - 1)" "length xs < n"
  from enqueue_correct [OF this(1,3,2), of "fst m" "fst (snd m)"]
  show "\<exists>s'. send_op m s = Some s' \<and> queue_is n (min len (2 ^ 31 - 1)) s' (xs @ [sent m])"
    by (auto simp: send_op_def sent_def min_def)
next
  fix s x xs and r :: "u32 \<times> u32 \<times> memory"
  assume "queue_is n (min len (2 ^ 31 - 1)) s (x # xs)"
  from dequeue_correct [OF this, of "fst r" "fst (snd r)" "snd (snd r)"]
  show "\<exists>s'. receive_op r s = Some (received r x, s') \<and> queue_is n (min len (2 ^ 31 - 1)) s' xs"
    by (auto simp: receive_op_def received_def Let_def min_def)
qed

section \<open>Loops over the threads of a partition\<close>

definition pct_thread :: "(partition_control_table \<Rightarrow> partition_control_table) \<Rightarrow> kthread \<Rightarrow> kthread" where
  "pct_thread f t = t\<lparr>k_g := map_option (\<lambda>g. g\<lparr>g_pct := f (g_pct g)\<rparr>) (k_g t)\<rparr>"

lemma pct_thread_shape [simp]:
  "k_magic1 (pct_thread f t) = k_magic1 t" "k_magic2 (pct_thread f t) = k_magic2 t"
  "map_option g_id (k_g (pct_thread f t)) = map_option g_id (k_g t)" "k_flags (pct_thread f t) = k_flags t"
  by (simp_all add: pct_thread_def option.map_comp comp_def)

lemma upd_pct_eq: "upd_pct k f s = upd_k k (pct_thread f) s"
  by (simp add: upd_pct_def upd_g_def pct_thread_def [abs_def])

lemma for_vcpus_eq:
  assumes wf: "kernel_wf c s" "int q < num_of_partitions c"
    and chk: "\<And>v g. v < nr_vcpus c q \<Longrightarrow> guest_of s (KGuest q v) = Some g \<Longrightarrow> chk g"
  shows "for_vcpus c q chk (\<lambda>k. upd_pct k f) s = Some (vcpu_map c q (pct_thread f) s)"
  unfolding for_vcpus_def vcpu_map_def
proof (rule vcpu_loop)
  fix v s' assume v: "v < nr_vcpus c q" "part_kthread s' q v = Some (KGuest q v)"
    "kthreads s' (KGuest q v) = kthreads s (KGuest q v)"
  obtain g where "guest_of s (KGuest q v) = Some g" using kernel_wfD [OF wf v(1)] by blast
  with v chk show "do { k \<leftarrow> part_kthread s' q v; g \<leftarrow> guest_of s' k; _ \<leftarrow> ASSERT (chk g);
       Some (upd_pct k f s') } = Some (upd_k (KGuest q v) (pct_thread f) s')"
    by (simp add: guest_of_def upd_pct_eq)
qed (use kernel_wfD [OF wf] in blast)

lemma kernel_wf_vcpu_map [intro]:
  assumes "kernel_wf c s" and "\<And>t. k_magic1 (h t) = k_magic1 t" "\<And>t. k_magic2 (h t) = k_magic2 t"
    "\<And>t. map_option g_id (k_g (h t)) = map_option g_id (k_g t)"
  shows "kernel_wf c (vcpu_map c p h s)"
  using kernel_wf_shape [OF kshape_vcpu_map [of h, OF assms(2-)]] assms(1) by blast

lemma kernel_wf_count_msg [simp]: "kernel_wf c (count_msg f g p s) = kernel_wf c s"
  by (rule kernel_wf_shape) (simp add: kshape_def count_msg_def guest_of_def)

lemma caller_eq:
  assumes "kernel_wf c (kern s)" "current_kthread (cpus (kern s) this) = KGuest p v"
    "int p < num_of_partitions c" "v < nr_vcpus c p"
  shows "caller this s = Some (of_nat p)" and "unat (of_nat p :: u32) = p"
proof -
  obtain g where "guest_of (kern s) (KGuest p v) = Some g" "KID2PARTID (g_id g) = of_nat p" "p < 255"
    using kernel_wfD [OF assms(1,3,4)] by blast
  then show "caller this s = Some (of_nat p)" "unat (of_nat p :: u32) = p"
    using assms(2) by (simp_all add: caller_def unat_of_nat)
qed

text \<open>What the transfers assume of the open port \<open>port\<close> of partition \<open>p\<close>: it leads to channel \<open>i\<close>, of
  \<open>n\<close> messages of at most \<open>len\<close> bytes, and the ends of the channel are ports of configured partitions.\<close>

definition queuing_port_ready ::
    "prtos_conf \<Rightarrow> comms \<Rightarrow> nat \<Rightarrow> nat \<Rightarrow> int \<Rightarrow> nat \<Rightarrow> nat \<Rightarrow> nat \<Rightarrow> int \<Rightarrow> queuing_channel \<Rightarrow> bool" where
  "queuing_port_ready c s this p dir port i n len ch \<longleftrightarrow>
     kernel_wf c (kern s) \<and> int p < num_of_partitions c \<and>
     (\<exists>v < nr_vcpus c p. current_kthread (cpus (kern s) this) = KGuest p v) \<and>
     port_partition_id (port_table s port) = of_nat p \<and>
     port_flags (port_table s port) AND COMM_PORT_OPENED \<noteq> 0 \<and>
     comm_ports c port = (comm_ports c port)\<lparr>port_channel_id := int i, port_direction := dir, port_type := PRTOS_QUEUING_PORT\<rparr> \<and>
     comm_channel_table c i = ConfQueuing len (int n) \<and> len < 2 ^ 31 \<and> channel_table s i = Queuing ch \<and>
     (\<forall>q. q_receiver ch = Some q \<longrightarrow> int q < num_of_partitions c \<and>
        (\<forall>v < nr_vcpus c q. \<forall>g. guest_of (kern s) (KGuest q v) = Some g \<longrightarrow>
           q_receiver_port ch < pct_num_of_comm_ports (g_pct g))) \<and>
     (\<forall>q. q_sender ch = Some q \<longrightarrow> int q < num_of_partitions c \<and>
        (\<forall>v < nr_vcpus c q. \<forall>g. guest_of (kern s) (KGuest q v) = Some g \<longrightarrow>
           q_sender_port ch < pct_num_of_comm_ports (g_pct g)))"

text \<open>The threads of a partition that are not halted have the interrupt pending and are ready.\<close>

definition thread_notified :: "int \<Rightarrow> kthread \<Rightarrow> bool" where
  "thread_notified irq t \<longleftrightarrow> halted t \<or> k_flags t AND KTHREAD_READY_F \<noteq> 0 \<and>
     (\<exists>g. k_g t = Some g \<and> bit (ext_irqs_pend (g_pct g)) (nat irq))"

definition notified :: "prtos_conf \<Rightarrow> nat \<Rightarrow> int \<Rightarrow> kstate \<Rightarrow> bool" where
  "notified c q irq k \<longleftrightarrow> (\<forall>v < nr_vcpus c q. thread_notified irq (kthreads k (KGuest q v)))"

lemma vcpu_map_kthreads: "kthreads (vcpu_map c p h k) (KGuest q v) =
    (if q = p \<and> v < nr_vcpus c p then h (kthreads k (KGuest q v)) else kthreads k (KGuest q v))"
  by (simp add: vcpu_map_def)

lemma notified_vcpu_map:
  "notified c q irq k \<Longrightarrow> (\<And>t. thread_notified irq t \<Longrightarrow> thread_notified irq (h t)) \<Longrightarrow>
     notified c q irq (vcpu_map c p h k)"
  by (auto simp: notified_def vcpu_map_kthreads)

lemma thread_notified_pct:
  "(\<And>t. ext_irqs_pend (f t) = ext_irqs_pend t) \<Longrightarrow> thread_notified irq t \<Longrightarrow> thread_notified irq (pct_thread f t)"
  by (auto simp: thread_notified_def halted_def pct_thread_def)

lemma notified_pending:
  assumes "kernel_wf c k" "int q < num_of_partitions c" "0 \<le> irq" "irq \<le> 31"
  shows "notified c q irq (vcpu_map c q (\<lambda>t. if halted t then t else pend_ext (nat irq) t) k)"
  unfolding notified_def
proof (intro allI impI)
  fix v assume v: "v < nr_vcpus c q"
  then obtain g where g: "k_g (kthreads k (KGuest q v)) = Some g"
    using kernel_wfD [OF assms(1,2)] unfolding guest_of_def by blast
  have "bit ((f OR KTHREAD_READY_F) AND KTHREAD_READY_F) 4" for f
    by (simp add: KTHREAD_READY_F_def bit_simps)
  then have "(f OR KTHREAD_READY_F) AND KTHREAD_READY_F \<noteq> 0" for f by (metis bit_0_eq bot_apply bot_bool_def)
  with g v assms(3,4) show "thread_notified irq (kthreads (vcpu_map c q (\<lambda>t. if halted t then t else pend_ext (nat irq) t) k) (KGuest q v))"
    by (auto simp: vcpu_map_kthreads thread_notified_def pend_ext_def or_flags_def bit_simps)
qed

lemma ready_guards:
  assumes "queuing_port_ready c s this p dir port i n len ch" and "msg_size \<noteq> 0"
  shows "port_guards c s (of_nat p) port PRTOS_QUEUING_PORT dir msg_size = None"
    and "port_channel_id (comm_ports c port) = int i"
proof -
  have "comm_ports c port = (comm_ports c port)\<lparr>port_channel_id := int i, port_direction := dir, port_type := PRTOS_QUEUING_PORT\<rparr>"
    using assms(1) by (simp only: queuing_port_ready_def simp_thms)
  then have *: "port_channel_id (comm_ports c port) = int i" "port_direction (comm_ports c port) = dir"
    "port_type (comm_ports c port) = PRTOS_QUEUING_PORT"
    by (metis (no_types) prtos_conf_comm_port.select_convs prtos_conf_comm_port.surjective prtos_conf_comm_port.update_convs)+
  then show "port_guards c s (of_nat p) port PRTOS_QUEUING_PORT dir msg_size = None"
    and "port_channel_id (comm_ports c port) = int i"
    using assms by (auto simp: port_guards_def queuing_port_ready_def)
qed

lemma ready_caller:
  assumes "queuing_port_ready c s this p dir port i n len ch"
  shows "caller this s = Some (of_nat p)" "unat (of_nat p :: u32) = p"
proof -
  obtain v where "kernel_wf c (kern s)" "int p < num_of_partitions c" "v < nr_vcpus c p"
    "current_kthread (cpus (kern s) this) = KGuest p v" using assms unfolding queuing_port_ready_def by blast
  then show "caller this s = Some (of_nat p)" "unat (of_nat p :: u32) = p" by (auto intro: caller_eq)
qed

lemma upd_bitmap_pend [simp]: "ext_irqs_pend (upd_bitmap b f t) = ext_irqs_pend t"
  "pct_num_of_comm_ports (upd_bitmap b f t) = pct_num_of_comm_ports t"
  by (simp_all add: upd_bitmap_def)

lemma set_bits_eq:
  assumes "kernel_wf c k" "int q < num_of_partitions c"
    and "\<And>v g. v < nr_vcpus c q \<Longrightarrow> guest_of k (KGuest q v) = Some g \<Longrightarrow> chk g"
  shows "for_vcpus c q chk (set_port_bit b bp) k =
      Some (vcpu_map c q (pct_thread (upd_bitmap b (\<lambda>bm n. prtos_set_bit bm (word_of_int bp) n))) k)"
    and "for_vcpus c q chk (clear_port_bit b bp) k =
      Some (vcpu_map c q (pct_thread (upd_bitmap b (\<lambda>bm n. prtos_clear_bit bm (word_of_int bp) n))) k)"
  using for_vcpus_eq [OF assms] by (simp_all add: set_port_bit_def [abs_def] clear_port_bit_def [abs_def])

definition portnum :: "kstate \<Rightarrow> kref \<Rightarrow> int option" where
  "portnum k r = map_option (\<lambda>g. pct_num_of_comm_ports (g_pct g)) (guest_of k r)"

lemma portnum_vcpu_map:
  assumes "\<And>t. map_option (\<lambda>g. pct_num_of_comm_ports (g_pct g)) (k_g (h t)) =
    map_option (\<lambda>g. pct_num_of_comm_ports (g_pct g)) (k_g t)"
  shows "portnum (vcpu_map c p h k) = portnum k"
  using assms by (auto simp: portnum_def guest_of_def vcpu_map_def fun_eq_iff split: kref.splits)

lemma portnum_count_msg [simp]: "portnum (count_msg f g p k) = portnum k"
  by (simp add: portnum_def guest_of_def count_msg_def fun_eq_iff)

lemma portnum_thread [simp]:
  "map_option (\<lambda>g. pct_num_of_comm_ports (g_pct g)) (k_g (pend_ext i t)) =
     map_option (\<lambda>g. pct_num_of_comm_ports (g_pct g)) (k_g t)"
  "map_option (\<lambda>g. pct_num_of_comm_ports (g_pct g)) (k_g (pct_thread (upd_bitmap b f) t)) =
     map_option (\<lambda>g. pct_num_of_comm_ports (g_pct g)) (k_g t)"
  by (simp_all add: pend_ext_def or_flags_def pct_thread_def option.map_comp comp_def upd_bitmap_def)

lemma pend_correct:
  assumes "kernel_wf c k" "int q < num_of_partitions c" "0 \<le> irq" "irq \<le> 31"
  shows "\<exists>k'. set_part_ext_irq_pending c q irq k = Some k' \<and> kernel_wf c k' \<and> notified c q irq k' \<and>
    portnum k' = portnum k"
proof -
  let ?k = "vcpu_map c q (\<lambda>t. if halted t then t else pend_ext (nat irq) t) k"
  have "portnum ?k = portnum k" by (rule portnum_vcpu_map) simp
  moreover have "kernel_wf c ?k" by (rule kernel_wf_vcpu_map [OF assms(1)]) simp_all
  ultimately show ?thesis using set_part_ext_irq_pending_eq [OF assms] notified_pending [OF assms] by simp
qed

text \<open>The words behind a control table, where the bitmap of the ports is looked for, and what setting
  a bit does to them.\<close>

definition thread_tail :: "kthread \<Rightarrow> (int \<times> (nat \<Rightarrow> u32)) option" where
  "thread_tail t = map_option (\<lambda>g. (pct_num_of_comm_ports (g_pct g), pct_tail (g_pct g))) (k_g t)"

definition mark_bit :: "nat \<Rightarrow> int \<Rightarrow> int \<times> (nat \<Rightarrow> u32) \<Rightarrow> int \<times> (nat \<Rightarrow> u32)" where
  "mark_bit b bp = (\<lambda>(n, t). (n, \<lambda>i. if i < b then t i else prtos_set_bit (\<lambda>j. t (b + j)) (word_of_int bp) n (i - b)))"

lemma thread_tail_simps [simp]:
  "thread_tail (pend_ext i t) = thread_tail t"
  "thread_tail (pct_thread (upd_bitmap b (\<lambda>bm n. prtos_set_bit bm (word_of_int bp) n)) t) = map_option (mark_bit b bp) (thread_tail t)"
  by (simp_all add: thread_tail_def pend_ext_def or_flags_def pct_thread_def option.map_comp comp_def upd_bitmap_def mark_bit_def)

lemma wake_correct:
  assumes "kernel_wf c k" "int q < num_of_partitions c" "0 \<le> irq" "irq \<le> 31"
    and "\<And>v g. v < nr_vcpus c q \<Longrightarrow> guest_of k (KGuest q v) = Some g \<Longrightarrow> chk g"
  shows "\<exists>k'. for_vcpus c q chk (set_port_bit b bp) k \<bind> set_part_ext_irq_pending c q irq = Some k' \<and>
    kernel_wf c k' \<and> notified c q irq k' \<and>
    (\<forall>v < nr_vcpus c q. thread_tail (kthreads k' (KGuest q v)) = map_option (mark_bit b bp) (thread_tail (kthreads k (KGuest q v))))"
proof -
  let ?k1 = "vcpu_map c q (pct_thread (upd_bitmap b (\<lambda>bm n. prtos_set_bit bm (word_of_int bp) n))) k"
  let ?k2 = "vcpu_map c q (\<lambda>t. if halted t then t else pend_ext (nat irq) t) ?k1"
  have 1: "for_vcpus c q chk (set_port_bit b bp) k = Some ?k1" by (rule set_bits_eq(1)) (use assms in auto)
  have wf: "kernel_wf c ?k1" using assms(1) by auto
  have 2: "set_part_ext_irq_pending c q irq ?k1 = Some ?k2" by (rule set_part_ext_irq_pending_eq [OF wf assms(2-4)])
  have "kernel_wf c ?k2" by (rule kernel_wf_vcpu_map [OF wf]) simp_all
  moreover have "thread_tail (kthreads ?k2 (KGuest q v)) = map_option (mark_bit b bp) (thread_tail (kthreads k (KGuest q v)))"
    if "v < nr_vcpus c q" for v using that by (simp add: vcpu_map_kthreads)
  ultimately show ?thesis using 1 2 notified_pending [OF wf assms(2-4)] by (intro exI [of _ ?k2]) (simp only: bind.bind_lunit, blast)
qed

section \<open>Sending\<close>

lemma send_queuing_port_runs:
  assumes ready: "queuing_port_ready c s this p PRTOS_SOURCE_PORT port i n len ch"
    and q: "queue_is n len ch xs" and snd: "q_sender ch = Some p"
    and desc: "OBJDESC_GET_PARTITIONID desc = of_nat p" "unat (OBJDESC_GET_ID desc) = port"
    and sz: "msg_size \<noteq> 0" "uint msg_size \<le> len"
    and chk: "check_gp_param acc msg_ptr msg_size (or PFLAG_NOT_NULL PFLAG_RW) = Some 0"
  shows "if length xs < n then \<exists>s' ch'. send_queuing_port c acc this desc msg_ptr msg_size s = Some (PRTOS_OK, s') \<and>
      channel_table s' = (channel_table s)(i := Queuing ch') \<and>
      queue_is n len ch' (xs @ [guest_bytes (gmem s) msg_ptr (unat msg_size)]) \<and>
      gmem s' = gmem s \<and> port_table s' = port_table s \<and> kernel_wf c (kern s') \<and>
      (\<forall>q. q_receiver ch = Some q \<longrightarrow> notified c q PRTOS_VT_EXT_QUEUING_PORT (kern s')) \<and>
      (\<forall>q v. q_receiver ch = Some q \<longrightarrow> q \<noteq> p \<longrightarrow> v < nr_vcpus c q \<longrightarrow> thread_tail (kthreads (kern s') (KGuest q v)) =
         map_option (mark_bit (bitmap_base c (of_nat p)) (q_receiver_port ch)) (thread_tail (kthreads (kern s) (KGuest q v))))
    else send_queuing_port c acc this desc msg_ptr msg_size s = Some (PRTOS_OP_NOT_ALLOWED, s)"
proof -
  note r = ready [unfolded queuing_port_ready_def]
  note me = ready_caller [OF ready] and g = ready_guards [OF ready sz(1)]
  have wf: "kernel_wf c (kern s)" "int p < num_of_partitions c" and len: "len < 2 ^ 31"
    and cc: "comm_channel_table c i = ConfQueuing len (int n)" "channel_table s i = Queuing ch" using r by auto
  have "\<not> msg_size > word_of_int len"
    using sz(2) len by (simp add: word_less_def uint_word_of_int_u32 order_trans [OF uint_ge_0])
  note simps = send_queuing_port_def me desc g cc chk this PRTOS_NULL_CHANNEL_def
  have used: "used_msgs ch = int (length xs)" using queue_is_count [OF q] by simp
  show ?thesis
  proof (cases "length xs < n")
    case False
    then show ?thesis using used by (simp add: simps)
  next
    case True
    obtain ch' where ch': "enqueue (gmem s) msg_ptr msg_size ch = Some ch'"
      "queue_is n len ch' (xs @ [guest_bytes (gmem s) msg_ptr (unat msg_size)])"
      "q_receiver ch' = q_receiver ch" "q_receiver_port ch' = q_receiver_port ch"
      "q_sender ch' = q_sender ch" "q_sender_port ch' = q_sender_port ch"
      using enqueue_correct [OF q True sz(2) len] by blast
    let ?k0 = "count_msg (queuing_msgs_sent_update (\<lambda>n. n + 1)) (part_queuing_msgs_sent_update (\<lambda>n. n + 1)) p (kern s)"
    let ?b = "bitmap_base c (of_nat p)"
    have k0: "kernel_wf c ?k0" using wf by simp
    have g0: "guest_of ?k0 = guest_of (kern s)" "kthreads ?k0 = kthreads (kern s)"
      by (simp_all add: guest_of_def count_msg_def fun_eq_iff)
    let ?s0 = "set_channel i (Queuing ch') (s\<lparr>kern := ?k0\<rparr>)"
    obtain k1 where k1: "kernel_wf c k1" "\<forall>q. q_receiver ch = Some q \<longrightarrow> notified c q PRTOS_VT_EXT_QUEUING_PORT k1"
      "\<forall>q v. q_receiver ch = Some q \<longrightarrow> v < nr_vcpus c q \<longrightarrow> thread_tail (kthreads k1 (KGuest q v)) =
        map_option (mark_bit ?b (q_receiver_port ch)) (thread_tail (kthreads (kern s) (KGuest q v)))"
      "(case q_receiver ch' of None \<Rightarrow> Some ?s0 | Some q \<Rightarrow> in_kern (\<lambda>k. do {
          k \<leftarrow> for_vcpus c q (\<lambda>g. q_receiver_port ch' < pct_num_of_comm_ports (g_pct g))
                 (set_port_bit ?b (q_receiver_port ch')) k;
          set_part_ext_irq_pending c q PRTOS_VT_EXT_QUEUING_PORT k }) ?s0) = Some (?s0\<lparr>kern := k1\<rparr>)"
    proof (cases "q_receiver ch")
      case None
      then show ?thesis using that [of ?k0] k0 ch' by (simp add: set_channel_def)
    next
      case (Some q)
      then have q: "int q < num_of_partitions c" "\<And>v g. v < nr_vcpus c q \<Longrightarrow> guest_of ?k0 (KGuest q v) = Some g \<Longrightarrow>
          q_receiver_port ch < pct_num_of_comm_ports (g_pct g)" using r g0 by auto
      have irq: "0 \<le> PRTOS_VT_EXT_QUEUING_PORT" "PRTOS_VT_EXT_QUEUING_PORT \<le> 31" by (simp_all add: vt_defs)
      have "\<exists>k'. for_vcpus c q (\<lambda>g. q_receiver_port ch < pct_num_of_comm_ports (g_pct g))
          (set_port_bit ?b (q_receiver_port ch)) ?k0 \<bind> set_part_ext_irq_pending c q PRTOS_VT_EXT_QUEUING_PORT = Some k' \<and>
        kernel_wf c k' \<and> notified c q PRTOS_VT_EXT_QUEUING_PORT k' \<and>
        (\<forall>v < nr_vcpus c q. thread_tail (kthreads k' (KGuest q v)) = map_option (mark_bit ?b (q_receiver_port ch)) (thread_tail (kthreads ?k0 (KGuest q v))))"
        by (rule wake_correct [OF k0 q(1) irq q(2)])
      then obtain k' where "for_vcpus c q (\<lambda>g. q_receiver_port ch < pct_num_of_comm_ports (g_pct g))
          (set_port_bit ?b (q_receiver_port ch)) ?k0 \<bind> set_part_ext_irq_pending c q PRTOS_VT_EXT_QUEUING_PORT = Some k'"
        "kernel_wf c k'" "notified c q PRTOS_VT_EXT_QUEUING_PORT k'"
        "\<forall>v < nr_vcpus c q. thread_tail (kthreads k' (KGuest q v)) = map_option (mark_bit ?b (q_receiver_port ch)) (thread_tail (kthreads ?k0 (KGuest q v)))"
        by (elim exE conjE)
      then show ?thesis using that [of k'] Some ch' by (simp add: in_kern_def set_channel_def g0(2))
    qed
    let ?k2 = "vcpu_map c p (pct_thread (upd_bitmap ?b (\<lambda>bm n. prtos_set_bit bm (word_of_int (q_sender_port ch')) n))) k1"
    have k2: "for_vcpus c p (\<lambda>_. q_sender ch' = Some p) (set_port_bit ?b (q_sender_port ch')) k1 = Some ?k2"
      by (rule set_bits_eq(1) [OF k1(1) wf(2)]) (simp add: ch' snd)
    have "send_queuing_port c acc this desc msg_ptr msg_size s =
        Some (PRTOS_OK, ?s0\<lparr>kern := ?k2\<rparr>)"
      using True used by (simp add: simps ch'(1) k1(4)) (simp add: in_kern_def k2)
    moreover have "notified c q PRTOS_VT_EXT_QUEUING_PORT ?k2" if "q_receiver ch = Some q" for q
      using k1(2) that by (intro notified_vcpu_map thread_notified_pct) simp_all
    moreover have "kernel_wf c ?k2" using k1(1) by auto
    moreover have "thread_tail (kthreads ?k2 (KGuest q v)) =
        map_option (mark_bit ?b (q_receiver_port ch)) (thread_tail (kthreads (kern s) (KGuest q v)))"
      if "q_receiver ch = Some q" "q \<noteq> p" "v < nr_vcpus c q" for q v
      using k1(3) that by (simp add: vcpu_map_kthreads)
    ultimately show ?thesis using True ch'(2) by (auto simp: set_channel_def)
  qed
qed

section \<open>Properties\<close>

text \<open>C2. A queuing channel, from the state in which boot leaves it, is a bounded FIFO of messages:
  for every sequence of sends, none of them longer than the channel allows, and receives, no list
  operation fails, a send is refused exactly when the channel holds as many messages as configured, a
  receive exactly when it holds none, and every receive yields the oldest message not yet received,
  cut to the size asked for.\<close>

theorem queuing_channel_is_bounded_fifo:
  assumes "len < 2 ^ 31" and "\<forall>gm p sz. Put (gm, p, sz) \<in> set ops \<longrightarrow> uint sz \<le> len"
  shows "\<exists>ch ch'. fill_pool n zero_queuing = Some ch \<and>
    queue_run (int n) used_msgs send_op receive_op ops ch =
      Some (fst (queue_spec n sent received ops []), ch') \<and>
    queue_is n len ch' (snd (queue_spec n sent received ops []))"
proof -
  have len: "min len (2 ^ 31 - 1) = len" using assms(1) by simp
  obtain ch where ch: "fill_pool n zero_queuing = Some ch" "queue_is n len ch []"
    using fill_pool_correct by blast
  have "\<forall>m. Put m \<in> set ops \<longrightarrow> uint (snd (snd m)) \<le> min len (2 ^ 31 - 1)"
    unfolding len using assms(2) by auto
  with ch chan_queue.run_refines [of n len ch "[]" ops] show ?thesis unfolding len by auto
qed

theorem queuing_channel_is_bounded_fifo_witness:
  "\<exists>ch ch'. fill_pool 1 zero_queuing = Some ch \<and>
    queue_run 1 used_msgs send_op receive_op [Put (\<lambda>_. 7, 0, 2), Put (\<lambda>_. 8, 0, 1), Get (0, 1, \<lambda>_. 0)] ch =
      Some ([Accepted, Refused, Got (received (0, 1, \<lambda>_. 0) [7, 7])], ch')"
proof -
  let ?ops = "[Put (\<lambda>_. 7, 0, 2), Put (\<lambda>_. 8, 0, 1), Get (0, 1, \<lambda>_. 0)]"
  have spec: "fst (queue_spec 1 sent received ?ops []) = [Accepted, Refused, Got (received (0, 1, \<lambda>_. 0) [7, 7])]"
    by (simp add: sent_def guest_bytes_def upt_rec)
  have "\<forall>gm p sz. Put (gm, p, sz) \<in> set ?ops \<longrightarrow> uint sz \<le> 4" by auto
  then show ?thesis using queuing_channel_is_bounded_fifo [of 4 ?ops 1] unfolding spec by auto
qed

text \<open>C3. Sending on an open queuing port whose buffer passes the checks: while the channel is not full the
  message is appended to its queue, the sender's memory and every other channel and port are as before, the
  threads of the receiver that are not halted are woken with the interrupt of queuing ports pending, and
  the call returns \<open>PRTOS_OK\<close>; on a full channel it returns \<open>PRTOS_OP_NOT_ALLOWED\<close> and changes nothing.\<close>

theorem send_queuing_port_correct:
  assumes ready: "queuing_port_ready c s this p PRTOS_SOURCE_PORT port i n len ch"
    and q: "queue_is n len ch xs" and snd: "q_sender ch = Some p"
    and desc: "OBJDESC_GET_PARTITIONID desc = of_nat p" "unat (OBJDESC_GET_ID desc) = port"
    and sz: "msg_size \<noteq> 0" "uint msg_size \<le> len"
    and chk: "check_gp_param acc msg_ptr msg_size (or PFLAG_NOT_NULL PFLAG_RW) = Some 0"
  shows "if length xs < n then \<exists>s' ch'. send_queuing_port c acc this desc msg_ptr msg_size s = Some (PRTOS_OK, s') \<and>
      channel_table s' = (channel_table s)(i := Queuing ch') \<and>
      queue_is n len ch' (xs @ [guest_bytes (gmem s) msg_ptr (unat msg_size)]) \<and>
      gmem s' = gmem s \<and> port_table s' = port_table s \<and> kernel_wf c (kern s') \<and>
      (\<forall>q. q_receiver ch = Some q \<longrightarrow> notified c q PRTOS_VT_EXT_QUEUING_PORT (kern s'))
    else send_queuing_port c acc this desc msg_ptr msg_size s = Some (PRTOS_OP_NOT_ALLOWED, s)"
proof (cases "length xs < n")
  case True
  with send_queuing_port_runs [OF assms] show ?thesis by auto
next
  case False
  with send_queuing_port_runs [OF assms] show ?thesis by simp
qed

section \<open>The example system, with both ends of its channels open\<close>

definition demo_comms :: "channel \<Rightarrow> channel \<Rightarrow> nat \<Rightarrow> comms" where
  "demo_comms ch0 ch1 p = \<lparr>kern = demo_state\<lparr>cpus := (\<lambda>i. (cpus demo_state i)\<lparr>current_kthread := KGuest p 0\<rparr>)\<rparr>,
     channel_table = (\<lambda>i. if i = 0 then ch0 else ch1),
     port_table = (\<lambda>i. \<lparr>port_flags = COMM_PORT_OPENED, port_partition_id = of_nat (i div 2)\<rparr>), gmem = (\<lambda>_. 7)\<rparr>"

definition connect :: "nat \<Rightarrow> nat \<Rightarrow> queuing_channel \<Rightarrow> queuing_channel" where
  "connect p q ch = ch\<lparr>q_sender := Some p, q_sender_port := 1, q_receiver := Some q, q_receiver_port := 1\<rparr>"

lemma queue_is_connect: "queue_is n len (connect p q ch) xs = queue_is n len ch xs"
  by (simp add: queue_is_def connect_def)

lemma demo_comms_wf: "kernel_wf demo_conf (kern (demo_comms ch0 ch1 p))"
proof -
  have "kshape (kern (demo_comms ch0 ch1 p)) = kshape demo_state"
    by (simp add: demo_comms_def kshape_def guest_of_def)
  then have "kernel_wf demo_conf (kern (demo_comms ch0 ch1 p)) = kernel_wf demo_conf demo_state"
    by (rule kernel_wf_shape)
  with demo_kernel_wf show ?thesis by blast
qed

lemma demo_queuing_ready:
  assumes "p = 0 \<and> port = 1 \<and> dir = PRTOS_SOURCE_PORT \<or> p = 1 \<and> port = 3 \<and> dir = PRTOS_DESTINATION_PORT"
  shows "queuing_port_ready demo_conf (demo_comms ch0 (Queuing (connect 0 1 ch)) p) 0 p dir port 1 2 16 (connect 0 1 ch)"
  using assms demo_comms_wf [of ch0 "Queuing (connect 0 1 ch)" p] unfolding queuing_port_ready_def
  by (auto simp: demo_comms_def nr_vcpus_def guest_of_def port_consts connect_def demo_defs)

theorem send_queuing_port_correct_witness:
  "\<exists>ch s' ch'. fill_pool 2 zero_queuing = Some ch \<and>
    send_queuing_port demo_conf (\<lambda>_ _. True) 0 1 0x1000 3 (demo_comms (Sampling zero_sampling) (Queuing (connect 0 1 ch)) 0) = Some (PRTOS_OK, s') \<and>
    channel_table s' 1 = Queuing ch' \<and> queue_is 2 16 ch' [[7, 7, 7]] \<and>
    notified demo_conf 1 PRTOS_VT_EXT_QUEUING_PORT (kern s')"
proof -
  obtain ch where ch: "fill_pool 2 zero_queuing = Some ch" "queue_is 2 16 ch []"
    using fill_pool_correct by blast
  let ?s = "demo_comms (Sampling zero_sampling) (Queuing (connect 0 1 ch)) 0"
  have q: "queue_is 2 16 (connect 0 1 ch) []" using ch(2) by (simp add: queue_is_connect)
  have b: "guest_bytes (gmem ?s) 0x1000 (unat (3 :: u32)) = [7, 7, 7]"
    by (simp add: demo_comms_def guest_bytes_def upt_rec)
  have d: "OBJDESC_GET_PARTITIONID 1 = of_nat 0" "unat (OBJDESC_GET_ID 1) = 1"
    "check_gp_param (\<lambda>_ _. True) 0x1000 3 (or PFLAG_NOT_NULL PFLAG_RW) = Some 0" by code_simp+
  have r: "queuing_port_ready demo_conf ?s 0 0 PRTOS_SOURCE_PORT 1 1 2 16 (connect 0 1 ch)"
    by (rule demo_queuing_ready) simp
  have c: "q_sender (connect 0 1 ch) = Some 0" "q_receiver (connect 0 1 ch) = Some 1" by (simp_all add: connect_def)
  obtain s' ch' where "send_queuing_port demo_conf (\<lambda>_ _. True) 0 1 0x1000 3 ?s = Some (PRTOS_OK, s')"
    "channel_table s' = (channel_table ?s)(1 := Queuing ch')" "queue_is 2 16 ch' ([] @ [guest_bytes (gmem ?s) 0x1000 (unat (3 :: u32))])"
    "notified demo_conf 1 PRTOS_VT_EXT_QUEUING_PORT (kern s')"
    using send_queuing_port_correct [OF r q c(1) d(1,2) _ _ d(3)] c(2) by auto
  then show ?thesis using ch(1) unfolding b by (auto intro!: exI [of _ ch] exI [of _ s'] exI [of _ ch'])
qed

text \<open>C6. Receiving on an open queuing port whose buffer passes the checks: while the channel holds a
  message the oldest one, cut to the size of the buffer, is copied to it and leaves the queue, every other
  channel and port is as before, the threads of the sender that are not halted are woken, and the call
  returns the number of bytes copied; on an empty channel it returns \<open>PRTOS_OP_NOT_ALLOWED\<close> and changes
  nothing.\<close>

theorem receive_queuing_port_correct:
  assumes ready: "queuing_port_ready c s this p PRTOS_DESTINATION_PORT port i n len ch"
    and q: "queue_is n len ch xs"
    and own: "\<forall>v < nr_vcpus c p. \<forall>g. guest_of (kern s) (KGuest p v) = Some g \<longrightarrow>
      of_nat port - comm_ports_offset (partition_cfg c p) < word_of_int (pct_num_of_comm_ports (g_pct g))"
    and desc: "OBJDESC_GET_PARTITIONID desc = of_nat p" "unat (OBJDESC_GET_ID desc) = port"
    and sz: "msg_size \<noteq> 0" "uint msg_size \<le> len"
    and chk: "check_gp_param acc msg_ptr msg_size (or PFLAG_NOT_NULL PFLAG_RW) = Some 0"
  shows "case xs of
      x # ys \<Rightarrow> \<exists>s' ch'. receive_queuing_port c acc this desc msg_ptr msg_size s =
          Some (int (min (unat msg_size) (length x)), s') \<and>
        channel_table s' = (channel_table s)(i := Queuing ch') \<and> queue_is n len ch' ys \<and>
        gmem s' = copy_to_guest msg_ptr (\<lambda>i. x ! i) (min (unat msg_size) (length x)) (gmem s) \<and>
        port_table s' = port_table s \<and> kernel_wf c (kern s') \<and>
        (\<forall>q. q_sender ch = Some q \<longrightarrow> notified c q PRTOS_VT_EXT_QUEUING_PORT (kern s'))
    | [] \<Rightarrow> receive_queuing_port c acc this desc msg_ptr msg_size s = Some (PRTOS_OP_NOT_ALLOWED, s)"
proof -
  note r = ready [unfolded queuing_port_ready_def]
  note me = ready_caller [OF ready] and g = ready_guards [OF ready sz(1)]
  have wf: "kernel_wf c (kern s)" "int p < num_of_partitions c" and len: "len < 2 ^ 31"
    and cc: "comm_channel_table c i = ConfQueuing len (int n)" "channel_table s i = Queuing ch" using r by auto
  have "\<not> msg_size > word_of_int len"
    using sz(2) len by (simp add: word_less_def uint_word_of_int_u32 order_trans [OF uint_ge_0])
  note simps = receive_queuing_port_def me desc g cc chk this PRTOS_NULL_CHANNEL_def
  have used: "used_msgs ch = int (length xs)" using queue_is_count [OF q] by simp
  show ?thesis
  proof (cases xs)
    case Nil
    then show ?thesis using used by (simp add: simps)
  next
    case (Cons x ys)
    let ?n = "min (unat msg_size) (length x)"
    let ?m = "copy_to_guest msg_ptr (\<lambda>i. x ! i) ?n (gmem s)"
    obtain ch' where ch': "dequeue msg_ptr msg_size (gmem s) ch = Some (of_nat ?n, ?m, ch')" "queue_is n len ch' ys"
      "q_sender ch' = q_sender ch" "q_sender_port ch' = q_sender_port ch"
      using dequeue_correct [OF q [unfolded Cons] len] by blast
    have "unat msg_size < 2 ^ 31" by (rule unat_lt31) (rule order_le_less_trans [OF sz(2) len])
    then have "?n < 2 ^ 31" by (rule order_le_less_trans [rotated]) simp
    then have ret: "sint (of_nat ?n :: u32) = int ?n" by (rule sint_of_nat32)
    let ?k0 = "count_msg (queuing_msgs_received_update (\<lambda>n. n + 1)) (part_queuing_msgs_received_update (\<lambda>n. n + 1)) p (kern s)"
    let ?s0 = "set_channel i (Queuing ch') (s\<lparr>gmem := ?m, kern := ?k0\<rparr>)"
    let ?b = "bitmap_base c (of_nat p)" and ?first = "comm_ports_offset (partition_cfg c p)"
    have k0: "kernel_wf c ?k0" using wf by simp
    have g0: "guest_of ?k0 = guest_of (kern s)" by (simp add: guest_of_def count_msg_def fun_eq_iff)
    have irq: "0 \<le> PRTOS_VT_EXT_QUEUING_PORT" "PRTOS_VT_EXT_QUEUING_PORT \<le> 31" by (simp_all add: vt_defs)
    have tail: "\<exists>k2. kernel_wf c k2 \<and> (\<forall>q. q_sender ch = Some q \<longrightarrow> notified c q PRTOS_VT_EXT_QUEUING_PORT k2) \<and>
      (if used_msgs ch' = 0 then clear_drained c (of_nat p) port ch' (?s0\<lparr>kern := k1\<rparr>) else Some (?s0\<lparr>kern := k1\<rparr>)) =
        Some (?s0\<lparr>kern := k2\<rparr>)"
      if k1: "kernel_wf c k1" "\<forall>q. q_sender ch = Some q \<longrightarrow> notified c q PRTOS_VT_EXT_QUEUING_PORT k1"
        "portnum k1 = portnum (kern s)" for k1
    proof (cases "used_msgs ch' = 0")
      case False
      then show ?thesis using k1 by auto
    next
      case True
      have pn: "\<exists>g'. guest_of (kern s) r = Some g' \<and> pct_num_of_comm_ports (g_pct g') = pct_num_of_comm_ports (g_pct g)"
        if "guest_of k r = Some g" "portnum k = portnum (kern s)" for k r g
        using that(1) fun_cong [OF that(2), of r] by (cases "guest_of (kern s) r") (auto simp: portnum_def)
      let ?clr = "\<lambda>bp. pct_thread (upd_bitmap ?b (\<lambda>bm n. prtos_clear_bit bm (word_of_int bp) n))"
      let ?k2 = "vcpu_map c p (?clr (uint ?first)) k1"
      have own': "for_vcpus c p (\<lambda>g. of_nat port - ?first < word_of_int (pct_num_of_comm_ports (g_pct g)))
          (clear_port_bit ?b (uint ?first)) k1 = Some ?k2"
      proof (rule set_bits_eq(2) [OF k1(1) wf(2)])
        fix v g assume v: "v < nr_vcpus c p" "guest_of k1 (KGuest p v) = Some g"
        obtain g' where g': "guest_of (kern s) (KGuest p v) = Some g'"
          "pct_num_of_comm_ports (g_pct g') = pct_num_of_comm_ports (g_pct g)" using pn [OF v(2) k1(3)] by blast
        from own [rule_format, OF v(1) g'(1)] show "of_nat port - ?first < word_of_int (pct_num_of_comm_ports (g_pct g))"
          unfolding g'(2) .
      qed
      have k2: "kernel_wf c ?k2" "\<forall>q. q_sender ch = Some q \<longrightarrow> notified c q PRTOS_VT_EXT_QUEUING_PORT ?k2"
        "portnum ?k2 = portnum (kern s)"
        using k1 by (auto intro!: notified_vcpu_map thread_notified_pct simp: portnum_vcpu_map)
      show ?thesis
      proof (cases "q_sender ch'")
        case None
        with True own' k2 me(2) show ?thesis by (intro exI [of _ ?k2]) (simp add: in_kern_def clear_drained_def Let_def)
      next
        case (Some q)
        let ?k3 = "vcpu_map c q (?clr (q_sender_port ch')) ?k2"
        have q: "int q < num_of_partitions c" using r Some ch' by auto
        have "for_vcpus c q (\<lambda>g. q_sender_port ch' < pct_num_of_comm_ports (g_pct g))
            (clear_port_bit ?b (q_sender_port ch')) ?k2 = Some ?k3"
        proof (rule set_bits_eq(2) [OF k2(1) q])
          fix v g assume v: "v < nr_vcpus c q" "guest_of ?k2 (KGuest q v) = Some g"
          obtain g' where "guest_of (kern s) (KGuest q v) = Some g'"
            "pct_num_of_comm_ports (g_pct g') = pct_num_of_comm_ports (g_pct g)" using pn [OF v(2) k2(3)] by blast
          with r Some ch' v(1) show "q_sender_port ch' < pct_num_of_comm_ports (g_pct g)" by metis
        qed
        moreover have "kernel_wf c ?k3" using k2(1) by auto
        moreover have "\<forall>q'. q_sender ch = Some q' \<longrightarrow> notified c q' PRTOS_VT_EXT_QUEUING_PORT ?k3"
        proof (intro allI impI)
          fix q' assume "q_sender ch = Some q'"
          with k2(2) have "notified c q' PRTOS_VT_EXT_QUEUING_PORT ?k2" by blast
          then show "notified c q' PRTOS_VT_EXT_QUEUING_PORT ?k3"
            by (rule notified_vcpu_map) (rule thread_notified_pct; simp)
        qed
        ultimately show ?thesis using True own' Some me(2)
          by (intro exI [of _ ?k3]) (simp add: in_kern_def clear_drained_def Let_def)
      qed
    qed
    have "\<exists>k1. kernel_wf c k1 \<and> (\<forall>q. q_sender ch = Some q \<longrightarrow> notified c q PRTOS_VT_EXT_QUEUING_PORT k1) \<and>
      portnum k1 = portnum (kern s) \<and> (case q_sender ch' of None \<Rightarrow> Some ?s0
        | Some q \<Rightarrow> in_kern (set_part_ext_irq_pending c q PRTOS_VT_EXT_QUEUING_PORT) ?s0) = Some (?s0\<lparr>kern := k1\<rparr>)"
    proof (cases "q_sender ch'")
      case None
      then show ?thesis using k0 ch'(3) by (intro exI [of _ ?k0]) (simp add: set_channel_def)
    next
      case (Some q)
      then have "int q < num_of_partitions c" using r ch' by auto
      from pend_correct [OF k0 this irq] obtain k1 where k1:
        "set_part_ext_irq_pending c q PRTOS_VT_EXT_QUEUING_PORT ?k0 = Some k1" "kernel_wf c k1"
        "notified c q PRTOS_VT_EXT_QUEUING_PORT k1" "portnum k1 = portnum ?k0" by (elim exE conjE)
      then show ?thesis using Some ch'(3)
        by (intro exI [of _ k1]) (simp add: in_kern_def set_channel_def)
    qed
    then obtain k1 where k1: "kernel_wf c k1" "\<forall>q. q_sender ch = Some q \<longrightarrow> notified c q PRTOS_VT_EXT_QUEUING_PORT k1"
      "portnum k1 = portnum (kern s)" "(case q_sender ch' of None \<Rightarrow> Some ?s0
        | Some q \<Rightarrow> in_kern (set_part_ext_irq_pending c q PRTOS_VT_EXT_QUEUING_PORT) ?s0) = Some (?s0\<lparr>kern := k1\<rparr>)"
      by (elim exE conjE)
    from tail [OF k1(1-3)] obtain k2 where k2: "kernel_wf c k2"
      "\<forall>q. q_sender ch = Some q \<longrightarrow> notified c q PRTOS_VT_EXT_QUEUING_PORT k2"
      "(if used_msgs ch' = 0 then clear_drained c (of_nat p) port ch' (?s0\<lparr>kern := k1\<rparr>) else Some (?s0\<lparr>kern := k1\<rparr>)) =
        Some (?s0\<lparr>kern := k2\<rparr>)" by (elim exE conjE)
    have "receive_queuing_port c acc this desc msg_ptr msg_size s = Some (int ?n, ?s0\<lparr>kern := k2\<rparr>)"
      using used Cons k2(3) by (simp add: simps ch'(1) k1(4) ret)
    then show ?thesis using Cons ch'(2) k2 by (auto simp: set_channel_def)
  qed
qed

theorem receive_queuing_port_correct_witness:
  "\<exists>ch s'. queue_is 2 16 ch [[5, 6]] \<and>
    receive_queuing_port demo_conf (\<lambda>_ _. True) 0 0x403 0x1000 1 (demo_comms (Sampling zero_sampling) (Queuing (connect 0 1 ch)) 1) = Some (1, s') \<and>
    gmem s' 0x1000 = 5"
proof -
  obtain ch0 where "queue_is 2 16 ch0 []" using fill_pool_correct by blast
  then obtain ch where ch: "queue_is 2 16 ch ([] @ [guest_bytes (\<lambda>x. ucast x + 5) 0 (unat (2 :: u32))])"
    using enqueue_correct [of 2 16 ch0 "[]" 2 "\<lambda>x. ucast x + 5" 0] by auto
  have b: "guest_bytes (\<lambda>x. ucast x + 5) 0 (unat (2 :: u32)) = [5, 6]"
    by (simp add: guest_bytes_def upt_rec)
  let ?s = "demo_comms (Sampling zero_sampling) (Queuing (connect 0 1 ch)) 1"
  have q: "queue_is 2 16 (connect 0 1 ch) [[5, 6]]" using ch unfolding b by (simp add: queue_is_connect)
  have d: "OBJDESC_GET_PARTITIONID 0x403 = of_nat 1" "unat (OBJDESC_GET_ID 0x403) = 3"
    "check_gp_param (\<lambda>_ _. True) 0x1000 1 (or PFLAG_NOT_NULL PFLAG_RW) = Some 0" by code_simp+
  have r: "queuing_port_ready demo_conf ?s 0 1 PRTOS_DESTINATION_PORT 3 1 2 16 (connect 0 1 ch)"
    by (rule demo_queuing_ready) simp
  have own: "\<forall>v < nr_vcpus demo_conf 1. \<forall>g. guest_of (kern ?s) (KGuest 1 v) = Some g \<longrightarrow>
      of_nat 3 - comm_ports_offset (partition_cfg demo_conf 1) < word_of_int (pct_num_of_comm_ports (g_pct g))"
    by (auto simp: demo_comms_def guest_of_def nr_vcpus_def demo_defs)
  obtain s' where "receive_queuing_port demo_conf (\<lambda>_ _. True) 0 0x403 0x1000 1 ?s =
      Some (int (min (unat (1 :: u32)) (length [5, 6 :: u8])), s')"
    "gmem s' = copy_to_guest 0x1000 (\<lambda>i. [5, 6] ! i) (min (unat (1 :: u32)) (length [5, 6 :: u8])) (gmem ?s)"
    using receive_queuing_port_correct [OF r q own d(1,2) _ _ d(3)] by auto
  moreover have "queue_is 2 16 ch [[5, 6]]" using ch unfolding b by simp
  ultimately show ?thesis by (auto simp: copy_to_guest_def intro!: exI [of _ ch] exI [of _ s'])
qed

text \<open>C29. A port can be created for another partition: when the name given is that of no port of the
  caller, the search ends one past its last port, and the creation goes on with that port, the first
  of the next partition.  If the caller passes the configuration of that port, the port is
  opened in its name, and it takes the place of the port's owner in the channel.\<close>

theorem create_port_of_next_partition:
  assumes me: "caller this s = Some me" and pt: "pt = partition_cfg c (unat me)"
    and desc: "OBJDESC_GET_PARTITIONID desc = part_id pt"
    and chk: "check_gp_param acc port_name CONFIG_ID_STRING_LENGTH (or PFLAG_NOT_NULL PFLAG_RW) = Some 0"
    and absent: "\<And>i. unat (comm_ports_offset pt) \<le> i \<Longrightarrow> i < unat (comm_ports_offset pt) + nat (num_of_ports pt) \<Longrightarrow>
      \<not> name_matches s port_name (\<lambda>j. string_tab c (unat (port_name_offset (comm_ports c i)) + j))"
    and port: "port = unat (comm_ports_offset pt) + nat (num_of_ports pt)" "0 \<le> num_of_ports pt" "int port < num_of_comm_ports c"
    and cfg: "port_type (comm_ports c port) = PRTOS_SAMPLING_PORT" "port_direction (comm_ports c port) = PRTOS_DESTINATION_PORT"
      "port_channel_id (comm_ports c port) = int i" "int i < num_of_comm_channels c"
      "comm_channel_table c i = ConfSampling (uint max_msg_size) period receivers"
    and closed: "port_flags (port_table s port) AND COMM_PORT_OPENED = 0"
    and ch: "channel_table s i = Sampling ch" "s_receivers ch < receivers"
  shows "\<exists>s'. create_sampling_port c acc this desc port_name max_msg_size (word_of_int PRTOS_DESTINATION_PORT) (uint period) s =
      Some (int port, s') \<and>
    port_partition_id (port_table s' port) = me \<and> port_flags (port_table s' port) AND COMM_PORT_OPENED \<noteq> 0 \<and>
    channel_table s' i = Sampling (ch
      \<lparr>s_receiver_table := (s_receiver_table ch)(nat (s_receivers ch) := Some (unat me)),
       s_receiver_port_table := (s_receiver_port_table ch)(nat (s_receivers ch) := num_of_ports pt),
       s_receivers := s_receivers ch + 1\<rparr>)"
proof -
  have find: "find_port c (unat me) (name_matches s port_name) = port"
    unfolding find_port_def port(1) pt [symmetric] search_from_miss using absent by blast
  have off: "int port - uint (comm_ports_offset pt) = num_of_ports pt" using port(1,2) by simp
  have flags: "(f OR (COMM_PORT_OPENED OR COMM_PORT_EMPTY)) AND COMM_PORT_OPENED = COMM_PORT_OPENED" for f
    by (rule bit_word_eqI) (auto simp: bit_simps)
  have d: "uint (word_of_int PRTOS_DESTINATION_PORT :: u32) = PRTOS_DESTINATION_PORT" "PRTOS_DESTINATION_PORT \<noteq> PRTOS_SOURCE_PORT"
    "int i \<noteq> PRTOS_NULL_CHANNEL" "COMM_PORT_OPENED \<noteq> 0"
    by (simp_all add: PRTOS_DESTINATION_PORT_def PRTOS_SOURCE_PORT_def PRTOS_NULL_CHANNEL_def COMM_PORT_OPENED_def)
  show ?thesis
    using assms find off d ch(2)
    by (simp add: create_sampling_port_def Let_def open_port_def upd_port_def set_channel_def flags)
qed

theorem create_port_of_next_partition_witness:
  "\<exists>s'. create_sampling_port demo_conf (\<lambda>_ _. True) 0 (OBJDESC_BUILD 3 0 0) 0x1000 32 1 0xffffffff
      ((demo_comms (Sampling zero_sampling) (Queuing zero_queuing) 0)\<lparr>port_table := (\<lambda>_. \<lparr>port_flags = 0, port_partition_id = 0\<rparr>)\<rparr>) =
      Some (2, s') \<and> port_partition_id (port_table s' 2) = 0 \<and> uint (comm_ports_offset (partition_cfg demo_conf 1)) = 2"
proof -
  let ?s = "(demo_comms (Sampling zero_sampling) (Queuing zero_queuing) 0)\<lparr>port_table := (\<lambda>_. \<lparr>port_flags = 0, port_partition_id = 0\<rparr>)\<rparr>"
  let ?same = "\<lambda>i. name_matches ?s 0x1000 (\<lambda>j. string_tab demo_conf (unat (port_name_offset (comm_ports demo_conf i)) + j))"
  have e: "caller 0 ?s = Some 0" "OBJDESC_GET_PARTITIONID (OBJDESC_BUILD 3 0 0) = part_id (partition_cfg demo_conf 0)"
    "check_gp_param (\<lambda>_ _. True) 0x1000 CONFIG_ID_STRING_LENGTH (or PFLAG_NOT_NULL PFLAG_RW) = Some 0"
    "\<not> ?same 0" "\<not> ?same 1" "port_type (comm_ports demo_conf 2) = PRTOS_SAMPLING_PORT"
    "port_direction (comm_ports demo_conf 2) = PRTOS_DESTINATION_PORT"
    by code_simp+
  have off: "unat (comm_ports_offset (partition_cfg demo_conf 0)) = 0" "num_of_ports (partition_cfg demo_conf 0) = 2"
    by (simp_all add: demo_conf_def demo_part_def)
  have absent: "\<not> ?same i" if "unat (comm_ports_offset (partition_cfg demo_conf 0)) \<le> i"
    "i < unat (comm_ports_offset (partition_cfg demo_conf 0)) + nat (num_of_ports (partition_cfg demo_conf 0))" for i
    using that e(4,5) by (cases "i = 0"; cases "i = 1") (simp_all add: off)
  have cfg: "port_channel_id (comm_ports demo_conf 2) = int 0" "int 0 < num_of_comm_channels demo_conf"
    "comm_channel_table demo_conf 0 = ConfSampling (uint (32 :: u32)) (- 1) 1" "int 2 < num_of_comm_ports demo_conf"
    "uint (comm_ports_offset (partition_cfg demo_conf 1)) = 2"
    by (simp_all add: demo_conf_def demo_part_def)
  have st: "port_flags (port_table ?s 2) AND COMM_PORT_OPENED = 0" "channel_table ?s 0 = Sampling zero_sampling"
    "s_receivers zero_sampling < 1" by (simp_all add: demo_comms_def zero_sampling_def)
  have two: "2 = unat (comm_ports_offset (partition_cfg demo_conf 0)) + nat (num_of_ports (partition_cfg demo_conf 0))"
    "0 \<le> num_of_ports (partition_cfg demo_conf 0)" by (simp_all add: off)
  have "\<exists>s'. create_sampling_port demo_conf (\<lambda>_ _. True) 0 (OBJDESC_BUILD 3 0 0) 0x1000 32 (word_of_int PRTOS_DESTINATION_PORT) (uint (- 1 :: u32)) ?s =
      Some (int 2, s') \<and> port_partition_id (port_table s' 2) = 0"
    using create_port_of_next_partition [OF e(1) _ e(2,3) absent two cfg(4) e(6,7) cfg(1,2,3) st] e(4) by auto
  moreover have "uint (- 1 :: u32) = 4294967295" by code_simp
  ultimately show ?thesis using cfg(5) by (simp add: PRTOS_DESTINATION_PORT_def)
qed




end
