(* ===== verification/ByteRing.thy ===== *)
theory ByteRing
  imports KString
begin

text \<open>
  The interface between the log streams and the devices they are kept on: a place of \<open>cap\<close> bytes
  with an operation that writes and one that reads at an offset.  On it, the ring of blocks of a
  fixed size, with the lemmas the log streams rest on: a block appended behind the last one, the
  oldest one dropped, any of them read, and writes elsewhere.
\<close>

text \<open>The bytes of an object of 32-bit words, and a word of an object of bytes.\<close>

definition of_words :: "u32 list \<Rightarrow> cstr" where
  "of_words ws i = (if i div 4 < length ws then ucast (drop_bit (8 * (i mod 4)) (ws ! (i div 4))) else 0)"

definition word_at :: "cstr \<Rightarrow> nat \<Rightarrow> u32" where
  "word_at b i = ucast (b (4 * i)) OR push_bit 8 (ucast (b (4 * i + 1))) OR
     push_bit 16 (ucast (b (4 * i + 2))) OR push_bit 24 (ucast (b (4 * i + 3)))"

lemma word_at_eq:
  assumes "\<And>j. j < 4 \<Longrightarrow> b (4 * i + j) = ucast (drop_bit (8 * j) w)"
  shows "word_at b i = w"
proof -
  have "word_at b i = ucast (ucast w :: u8) OR push_bit 8 (ucast (ucast (drop_bit 8 w) :: u8)) OR
      push_bit 16 (ucast (ucast (drop_bit 16 w) :: u8)) OR push_bit 24 (ucast (ucast (drop_bit 24 w) :: u8))"
    using assms [of 0] assms [of 1] assms [of 2] assms [of 3] by (simp add: word_at_def)
  also have "\<dots> = w"
  proof (rule bit_word_eqI)
    fix n
    show "bit (ucast (ucast w :: u8) OR push_bit 8 (ucast (ucast (drop_bit 8 w) :: u8)) OR
      push_bit 16 (ucast (ucast (drop_bit 16 w) :: u8)) OR push_bit 24 (ucast (ucast (drop_bit 24 w) :: u8)) :: u32) n = bit w n"
      if "n < LENGTH(32)"
      using that by (cases "n < 16"; cases "n < 24") (auto simp: bit_simps)
  qed
  finally show ?thesis .
qed

lemma word_at_of_words:
  assumes "i < length ws" and "\<And>j. j < 4 \<Longrightarrow> b (4 * k + j) = of_words ws (4 * i + j)"
  shows "word_at b k = ws ! i"
  by (rule word_at_eq) (use assms in \<open>simp add: of_words_def\<close>)

text \<open>A place where bytes are kept: what the ring needs of the device below it.\<close>

locale byte_store =
  fixes cap :: nat
    and ok :: "'d \<Rightarrow> bool"
    and content :: "'d \<Rightarrow> nat \<Rightarrow> u8"
    and put :: "nat \<Rightarrow> cstr \<Rightarrow> nat \<Rightarrow> 'd \<Rightarrow> 'd"
    and fetch :: "nat \<Rightarrow> cstr \<Rightarrow> nat \<Rightarrow> 'd \<Rightarrow> cstr \<times> 'd"
  assumes put_ok: "ok d \<Longrightarrow> n + len \<le> cap \<Longrightarrow> ok (put n b len d)"
    and put_content: "ok d \<Longrightarrow> n + len \<le> cap \<Longrightarrow>
      content (put n b len d) = (\<lambda>e. if n \<le> e \<and> e < n + len then b (e - n) else content d e)"
    and fetch_ok: "ok d \<Longrightarrow> n + len \<le> cap \<Longrightarrow> ok (snd (fetch n b len d))"
    and fetch_content: "ok d \<Longrightarrow> n + len \<le> cap \<Longrightarrow> content (snd (fetch n b len d)) = content d"
    and fetch_bytes: "ok d \<Longrightarrow> n + len \<le> cap \<Longrightarrow>
      fst (fetch n b len d) = (\<lambda>e. if e < len then content d (n + e) else b e)"

text \<open>A ring of at most \<open>m\<close> blocks of \<open>es\<close> bytes that starts at \<open>base\<close>.\<close>

definition block_at :: "cstr \<Rightarrow> nat \<Rightarrow> nat \<Rightarrow> u8 list" where
  "block_at f p es = map (\<lambda>i. f (p + i)) [0..<es]"

definition ring_is :: "cstr \<Rightarrow> nat \<Rightarrow> nat \<Rightarrow> nat \<Rightarrow> nat \<Rightarrow> u8 list list \<Rightarrow> bool" where
  "ring_is f base es m h xs \<longleftrightarrow> h < m \<and> length xs \<le> m \<and>
     (\<forall>j < length xs. block_at f (base + (h + j) mod m * es) es = xs ! j)"

lemma slots_disjoint:
  assumes "(i :: nat) \<noteq> j" and "x < es"
  shows "\<not> (j * es \<le> i * es + x \<and> i * es + x < j * es + es)"
proof
  assume *: "j * es \<le> i * es + x \<and> i * es + x < j * es + es"
  then have "(i * es + x) div es = j" by (intro div_nat_eqI) (simp_all add: mult.commute)
  with \<open>x < es\<close> \<open>i \<noteq> j\<close> show False by simp
qed

lemma ring_slots_distinct:
  assumes "j < k" "k < m"
  shows "(h + j) mod m \<noteq> (h + k) mod (m :: nat)"
proof
  assume "(h + j) mod m = (h + k) mod m"
  then have "m dvd (h + k) - (h + j)" using assms by (subst mod_eq_dvd_iff_nat [symmetric]) simp_all
  then show False using assms by (auto dest: dvd_imp_le)
qed

lemma ring_drop: "ring_is f base es m h (x # xs) \<Longrightarrow> ring_is f base es m (if h + 1 < m then h + 1 else 0) xs"
proof -
  assume r: "ring_is f base es m h (x # xs)"
  have e: "(if h + 1 < m then h + 1 else 0) = (h + 1) mod m"
    using r by (auto simp: ring_is_def mod_if)
  have "block_at f (base + ((h + 1) mod m + j) mod m * es) es = xs ! j" if "j < length xs" for j
    using r that by (auto simp: ring_is_def mod_add_left_eq dest!: spec [of _ "Suc j"])
  with r show ?thesis unfolding e by (simp add: ring_is_def)
qed

context byte_store
begin

lemma ring_append:
  assumes ok: "ok d" and r: "ring_is (content d) base es m h xs" and room: "length xs < m"
    and fits: "base + m * es \<le> cap"
  shows "ring_is (content (put (base + (h + length xs) mod m * es) b es d)) base es m h
      (xs @ [map b [0..<es]])"
proof -
  let ?s = "(h + length xs) mod m"
  have "?s + 1 \<le> m" using r by (simp add: ring_is_def Suc_leI)
  then have "(?s + 1) * es \<le> m * es" by (rule mult_le_mono1)
  then have f: "base + ?s * es + es \<le> cap" using fits by simp
  let ?f = "content (put (base + ?s * es) b es d)"
  have c: "?f = (\<lambda>e. if base + ?s * es \<le> e \<and> e < base + ?s * es + es then b (e - (base + ?s * es)) else content d e)"
    by (rule put_content [OF ok f])
  have new: "block_at ?f (base + ?s * es) es = map b [0..<es]"
    unfolding c by (simp add: block_at_def)
  have old: "block_at ?f (base + (h + j) mod m * es) es = xs ! j" if "j < length xs" for j
  proof -
    have "(h + j) mod m \<noteq> ?s" using ring_slots_distinct [OF that room] .
    then have "\<not> (base + ?s * es \<le> base + (h + j) mod m * es + i \<and>
        base + (h + j) mod m * es + i < base + ?s * es + es)" if "i < es" for i
      using slots_disjoint [of "(h + j) mod m" ?s i es] that by auto
    then have "block_at ?f (base + (h + j) mod m * es) es = block_at (content d) (base + (h + j) mod m * es) es"
      unfolding c block_at_def by (intro map_cong refl if_not_P) simp_all
    then show ?thesis using r that by (simp add: ring_is_def)
  qed
  show ?thesis using r room new old by (auto simp: ring_is_def nth_append less_Suc_eq)
qed

lemma ring_read:
  assumes ok: "ok d" and r: "ring_is (content d) base es m h xs" and j: "j < length xs"
    and fits: "base + m * es \<le> cap"
  shows "map (fst (fetch (base + (h + j) mod m * es) b es d)) [0..<es] = xs ! j"
proof -
  have "(h + j) mod m + 1 \<le> m" using r by (simp add: ring_is_def Suc_leI)
  then have "((h + j) mod m + 1) * es \<le> m * es" by (rule mult_le_mono1)
  then have "base + (h + j) mod m * es + es \<le> cap" using fits by simp
  from fetch_bytes [OF ok this]
  have "map (fst (fetch (base + (h + j) mod m * es) b es d)) [0..<es] =
      block_at (content d) (base + (h + j) mod m * es) es"
    unfolding block_at_def by (intro map_cong) simp_all
  with r j show ?thesis by (simp add: ring_is_def)
qed

lemma word_put:
  assumes "ok d" "4 * p + 4 * l \<le> cap"
  shows "word_at (content (put (4 * p) b (4 * l) d)) k =
    (if p \<le> k \<and> k < p + l then word_at b (k - p) else word_at (content d) k)"
proof -
  have byte: "content (put (4 * p) b (4 * l) d) (4 * k + j) =
      (if p \<le> k \<and> k < p + l then b (4 * (k - p) + j) else content d (4 * k + j))" if "j < 4" for j
    using that by (auto simp: put_content [OF assms] diff_mult_distrib2)
  show ?thesis using byte [of 0] byte [of 1] byte [of 2] byte [of 3]
    by (simp add: word_at_def)
qed

lemma ring_frame:
  assumes "ok d" "ring_is (content d) base es m h xs" "n + len \<le> base" "base \<le> cap"
  shows "ring_is (content (put n b len d)) base es m h xs"
  using assms by (simp add: ring_is_def put_content block_at_def)

end

end
