(* ===== verification/Device.thy ===== *)
theory Device
  imports Demo ByteRing
begin

text \<open>
  Kernel devices: \<open>core/include/kdevice.h\<close> and \<open>core/drivers/kdevice.c\<close> with two of the drivers, the
  memory blocks that hold the logs (\<open>core/drivers/memblock.c\<close>) and the serial line
  (\<open>core/drivers/pc_uart.c\<close>).  A \<open>const kdevice_t *\<close> is a value of \<open>kdev\<close>; the operations a driver
  leaves out answer \<open>KDEV_OP_NOT_ALLOWED\<close>.  A memory block is a range of the hypervisor's address
  space, \<open>kmem\<close>, with a position.  A buffer of the kernel is never null.
\<close>

section \<open>Devices\<close>

datatype kdev = MemBlock nat | Uart

record mem_block_data =
  mb_pos :: int
  mb_addr :: u32
  mb_areas_offset :: u32

record devices =
  kmem :: memory
  mem_block_data :: "nat \<Rightarrow> mem_block_data"
  get_kdev_table :: "nat \<Rightarrow> (u32 \<Rightarrow> kdev option) option"
  uart_out :: "u8 list"

definition DEV_SEEK_CURRENT :: u32 where "DEV_SEEK_CURRENT = 0"
definition DEV_SEEK_START :: u32 where "DEV_SEEK_START = 1"
definition DEV_SEEK_END :: u32 where "DEV_SEEK_END = 2"
definition KDEV_OP_NOT_ALLOWED :: int where "KDEV_OP_NOT_ALLOWED = 1"
definition PRTOS_DEV_INVALID_ID :: u16 where "PRTOS_DEV_INVALID_ID = 0xFFFF"
definition PRTOS_DEV_LOGSTORAGE_ID :: nat where "PRTOS_DEV_LOGSTORAGE_ID = 0"
definition PRTOS_DEV_UART_ID :: nat where "PRTOS_DEV_UART_ID = 1"
definition NO_KDEV :: int where "NO_KDEV = 7"

lemmas seek_consts = DEV_SEEK_CURRENT_def DEV_SEEK_START_def DEV_SEEK_END_def

section \<open>Memory blocks\<close>

text \<open>The size of the memory area behind a block.\<close>

definition mb_size :: "prtos_conf \<Rightarrow> mem_block_data \<Rightarrow> u32" where
  "mb_size c b = area_size (phys_mem_area_table c (unat (mb_areas_offset b)))"

definition set_mb_pos :: "nat \<Rightarrow> int \<Rightarrow> devices \<Rightarrow> devices" where
  "set_mb_pos i p d = d\<lparr>mem_block_data := (mem_block_data d)(i := (mem_block_data d i)\<lparr>mb_pos := p\<rparr>)\<rparr>"

definition reset_mem_block :: "nat \<Rightarrow> devices \<Rightarrow> int \<times> devices" where
  "reset_mem_block i d = (0, set_mb_pos i 0 d)"

text \<open>The length that is left of the one asked for.\<close>

definition clip_len :: "prtos_conf \<Rightarrow> mem_block_data \<Rightarrow> int \<Rightarrow> int" where
  "clip_len c b len = (if sint (mb_size c b) - mb_pos b - len < 0
     then sint (mb_size c b - word_of_int (mb_pos b)) else len)"

definition read_mem_block :: "prtos_conf \<Rightarrow> nat \<Rightarrow> cstr \<Rightarrow> int \<Rightarrow> devices \<Rightarrow> int \<times> cstr \<times> devices" where
  "read_mem_block c i buffer len d =
     (let b = mem_block_data d i; len = clip_len c b len in
      if len \<le> 0 then (0, buffer, d)
      else let ptr = mb_addr b + word_of_int (mb_pos b) in
        (len, \<lambda>e. if int e < len then kmem d (ptr + of_nat e) else buffer e, set_mb_pos i (mb_pos b + len) d))"

definition write_mem_block :: "prtos_conf \<Rightarrow> nat \<Rightarrow> cstr \<Rightarrow> int \<Rightarrow> devices \<Rightarrow> int \<times> devices" where
  "write_mem_block c i buffer len d =
     (let b = mem_block_data d i; len = clip_len c b len in
      if len \<le> 0 then (0, d)
      else let ptr = mb_addr b + word_of_int (mb_pos b) in
        (len, set_mb_pos i (mb_pos b + len)
                (d\<lparr>kmem := for_upto (nat len) (\<lambda>e m. m(ptr + of_nat e := buffer e)) (kmem d)\<rparr>)))"

definition seek_mem_block :: "prtos_conf \<Rightarrow> nat \<Rightarrow> u32 \<Rightarrow> u32 \<Rightarrow> devices \<Rightarrow> int \<times> devices" where
  "seek_mem_block c i offset whence d =
     (let b = mem_block_data d i;
          off = sint (if whence = DEV_SEEK_CURRENT then offset + word_of_int (mb_pos b)
                      else if whence = DEV_SEEK_END then offset + mb_size c b else offset);
          off = (if off < 0 then 0 else off);
          off = (if (word_of_int off :: u32) > mb_size c b then sint (mb_size c b) else off)
      in (off, set_mb_pos i off d))"

definition get_mem_block :: "u32 \<Rightarrow> kdev option" where
  "get_mem_block sub = Some (MemBlock (unat sub))"

text \<open>\<open>init_mem_block\<close>: \<open>base e\<close> is the virtual address at which block \<open>e\<close> is mapped.\<close>

definition init_mem_block :: "prtos_conf \<Rightarrow> (nat \<Rightarrow> u32) \<Rightarrow> devices \<Rightarrow> int \<times> devices" where
  "init_mem_block c base d =
     (0, (for_upto (nat (num_of_mem_blocks c)) (\<lambda>e d. d\<lparr>mem_block_data := (mem_block_data d)(e :=
            \<lparr>mb_pos = 0, mb_addr = base e, mb_areas_offset = mem_block_table c e\<rparr>)\<rparr>) d)
         \<lparr>get_kdev_table := (get_kdev_table d)(PRTOS_DEV_LOGSTORAGE_ID := Some get_mem_block)\<rparr>)"

section \<open>The serial line\<close>

definition write_uart :: "cstr \<Rightarrow> int \<Rightarrow> devices \<Rightarrow> int \<times> devices" where
  "write_uart buffer len d = (len, for_upto (nat len) (\<lambda>e d. d\<lparr>uart_out := uart_out d @ [buffer e]\<rparr>) d)"

definition get_uart :: "u32 \<Rightarrow> kdev option" where
  "get_uart sub = (if sub = 0 then Some Uart else None)"

section \<open>The operations of a device\<close>

definition find_kdev :: "prtos_dev \<Rightarrow> devices \<Rightarrow> kdev option" where
  "find_kdev dev d =
     (if uint (dev_id dev) < 0 \<or> uint (dev_id dev) \<ge> NO_KDEV \<or> dev_id dev = PRTOS_DEV_INVALID_ID then None
      else case get_kdev_table d (unat (dev_id dev)) of
        None \<Rightarrow> None
      | Some get \<Rightarrow> get (ucast (dev_sub_id dev)))"

fun kdev_reset :: "kdev option \<Rightarrow> devices \<Rightarrow> int \<times> devices" where
  "kdev_reset (Some (MemBlock i)) d = reset_mem_block i d"
| "kdev_reset _ d = (- KDEV_OP_NOT_ALLOWED, d)"

fun kdev_write :: "prtos_conf \<Rightarrow> kdev option \<Rightarrow> cstr \<Rightarrow> int \<Rightarrow> devices \<Rightarrow> int \<times> devices" where
  "kdev_write c (Some (MemBlock i)) buffer len d = write_mem_block c i buffer len d"
| "kdev_write c (Some Uart) buffer len d = write_uart buffer len d"
| "kdev_write c None buffer len d = (- KDEV_OP_NOT_ALLOWED, d)"

fun kdev_read :: "prtos_conf \<Rightarrow> kdev option \<Rightarrow> cstr \<Rightarrow> int \<Rightarrow> devices \<Rightarrow> int \<times> cstr \<times> devices" where
  "kdev_read c (Some (MemBlock i)) buffer len d = read_mem_block c i buffer len d"
| "kdev_read c _ buffer len d = (- KDEV_OP_NOT_ALLOWED, buffer, d)"

fun kdev_seek :: "prtos_conf \<Rightarrow> kdev option \<Rightarrow> u32 \<Rightarrow> u32 \<Rightarrow> devices \<Rightarrow> int \<times> devices" where
  "kdev_seek c (Some (MemBlock i)) offset whence d = seek_mem_block c i offset whence d"
| "kdev_seek c _ offset whence d = (- KDEV_OP_NOT_ALLOWED, d)"

section \<open>A memory block is a place where bytes are kept\<close>

text \<open>Block \<open>i\<close> has \<open>n\<close> bytes, in the address space, and its position is within them.\<close>

definition block_ok :: "prtos_conf \<Rightarrow> nat \<Rightarrow> nat \<Rightarrow> devices \<Rightarrow> bool" where
  "block_ok c i n d \<longleftrightarrow> n < 2 ^ 31 \<and> unat (mb_size c (mem_block_data d i)) = n \<and>
     unat (mb_addr (mem_block_data d i)) + n \<le> 2 ^ 32 \<and>
     0 \<le> mb_pos (mem_block_data d i) \<and> mb_pos (mem_block_data d i) \<le> int n"

definition block_content :: "nat \<Rightarrow> nat \<Rightarrow> devices \<Rightarrow> nat \<Rightarrow> u8" where
  "block_content i n d = (\<lambda>e. if e < n then kmem d (mb_addr (mem_block_data d i) + of_nat e) else 0)"

definition mb_put :: "prtos_conf \<Rightarrow> nat \<Rightarrow> nat \<Rightarrow> cstr \<Rightarrow> nat \<Rightarrow> devices \<Rightarrow> devices" where
  "mb_put c i n b len d = snd (write_mem_block c i b (int len)
     (snd (seek_mem_block c i (of_nat n) DEV_SEEK_START d)))"

definition mb_fetch :: "prtos_conf \<Rightarrow> nat \<Rightarrow> nat \<Rightarrow> cstr \<Rightarrow> nat \<Rightarrow> devices \<Rightarrow> cstr \<times> devices" where
  "mb_fetch c i n b len d = snd (read_mem_block c i b (int len)
     (snd (seek_mem_block c i (of_nat n) DEV_SEEK_START d)))"

lemma mb_pos_fields [simp]:
  "mem_block_data (set_mb_pos i p d) = (mem_block_data d)(i := (mem_block_data d i)\<lparr>mb_pos := p\<rparr>)"
  "kmem (set_mb_pos i p d) = kmem d" "mb_size c (b\<lparr>mb_pos := p\<rparr>) = mb_size c b"
  by (simp_all add: set_mb_pos_def mb_size_def)

lemma block_size:
  assumes "block_ok c i n d"
  shows "sint (mb_size c (mem_block_data d i)) = int n" "mb_size c (mem_block_data d i) = of_nat n"
proof -
  have n: "unat (mb_size c (mem_block_data d i)) = n" "n < 2 ^ 31" using assms by (simp_all add: block_ok_def)
  then show "mb_size c (mem_block_data d i) = of_nat n" by (metis of_nat_unat ucast_id)
  with n show "sint (mb_size c (mem_block_data d i)) = int n" by (simp add: sint_of_nat32)
qed

lemma seek_start:
  assumes "block_ok c i n d" "k \<le> n"
  shows "seek_mem_block c i (of_nat k) DEV_SEEK_START d = (int k, set_mb_pos i (int k) d)"
proof -
  have k: "k < 2 ^ 31" using assms by (simp add: block_ok_def)
  then have "sint (of_nat k :: u32) = int k" by (rule sint_of_nat32)
  moreover have "\<not> (of_nat k :: u32) > mb_size c (mem_block_data d i)"
    using assms(2) k block_size(2) [OF assms(1)] assms(1)
    by (simp add: word_less_nat_alt unat_of_nat32 block_ok_def)
  ultimately show ?thesis by (simp add: seek_mem_block_def seek_consts Let_def)
qed

lemma seek_end:
  assumes "block_ok c i n d"
  shows "seek_mem_block c i 0 DEV_SEEK_END d = (int n, set_mb_pos i (int n) d)"
  using block_size [OF assms] by (simp add: seek_mem_block_def seek_consts Let_def)

lemma block_ok_pos [simp]:
  "0 \<le> p \<Longrightarrow> p \<le> int n \<Longrightarrow> block_ok c i n d \<Longrightarrow> block_ok c i n (set_mb_pos i p d)"
  by (simp add: block_ok_def)

lemma block_content_pos [simp]: "block_content i n (set_mb_pos j p d) = block_content i n d"
  by (auto simp: block_content_def fun_eq_iff)

lemma clip_fits:
  assumes "block_ok c i n d" "mb_pos (mem_block_data d i) + len \<le> int n"
  shows "clip_len c (mem_block_data d i) len = len"
  using assms block_size(1) [OF assms(1)] by (simp add: clip_len_def)

lemma block_address:
  assumes "block_ok c i n d" "k + e \<le> n" "n' < n"
  shows "unat (mb_addr (mem_block_data d i) + of_nat n' - (mb_addr (mem_block_data d i) + of_nat k)) < e \<longleftrightarrow>
    k \<le> n' \<and> n' < k + e"
proof -
  have a: "mb_addr (mem_block_data d i) + of_nat n' - (mb_addr (mem_block_data d i) + of_nat k) = of_nat n' - of_nat k"
    by simp
  have b: "n < 2 ^ 31" using assms(1) by (simp add: block_ok_def)
  show ?thesis
  proof (cases "k \<le> n'")
    case True
    then have "unat (of_nat n' - of_nat k :: u32) = n' - k"
      using assms(3) b unat_of_nat32 [of "n' - k"] by (simp add: of_nat_diff)
    then show ?thesis using True unfolding a by auto
  next
    case False
    then have "unat (of_nat n' - of_nat k :: u32) = 2 ^ 32 - (k - n')"
      using assms b by (simp add: unat_sub_if_size unat_of_nat32 word_size)
    then show ?thesis using False assms b unfolding a by auto
  qed
qed

lemma mb_put_eq:
  assumes "block_ok c i n d" "k + len \<le> n"
  shows "mb_put c i k b len d = set_mb_pos i (int (k + len)) (d\<lparr>kmem := \<lambda>a.
      if unat (a - (mb_addr (mem_block_data d i) + of_nat k)) < len
      then b (unat (a - (mb_addr (mem_block_data d i) + of_nat k))) else kmem d a\<rparr>)"
proof -
  let ?d = "set_mb_pos i (int k) d"
  have ok: "block_ok c i n ?d" using assms by simp
  have clip: "clip_len c (mem_block_data ?d i) (int len) = int len"
    by (rule clip_fits [OF ok]) (use assms in simp)
  have len: "len \<le> 2 ^ 32" using assms by (simp add: block_ok_def)
  have store: "for_upto len (\<lambda>e m. m(p + of_nat e := b e)) m =
      (\<lambda>a. if unat (a - p) < len then b (unat (a - p)) else m a)" for p :: u32 and m :: memory
    by (intro ext) (rule for_upto_store [OF len])
  show ?thesis
  proof (cases "len = 0")
    case True
    then show ?thesis using clip assms seek_start [OF assms(1), of k]
      by (simp add: mb_put_def write_mem_block_def Let_def set_mb_pos_def)
  next
    case False
    then show ?thesis
      using clip assms seek_start [OF assms(1), of k] store
      by (simp add: mb_put_def write_mem_block_def Let_def set_mb_pos_def)
  qed
qed

lemma mb_fetch_eq:
  assumes "block_ok c i n d" "k + len \<le> n"
  shows "mb_fetch c i k b len d =
    (\<lambda>e. if e < len then kmem d (mb_addr (mem_block_data d i) + of_nat k + of_nat e) else b e,
     set_mb_pos i (int (k + len)) d)"
proof -
  let ?d = "set_mb_pos i (int k) d"
  have ok: "block_ok c i n ?d" using assms by simp
  have clip: "clip_len c (mem_block_data ?d i) (int len) = int len"
    by (rule clip_fits [OF ok]) (use assms in simp)
  show ?thesis
    using clip assms seek_start [OF assms(1), of k]
    by (cases len) (simp_all add: mb_fetch_def read_mem_block_def Let_def set_mb_pos_def fun_eq_iff)
qed

lemma block_ok_kmem [simp]: "block_ok c i n (d\<lparr>kmem := m\<rparr>) = block_ok c i n d"
  by (simp add: block_ok_def)

lemma mb_put_content:
  assumes "block_ok c i n d" "k + len \<le> n"
  shows "block_content i n (mb_put c i k b len d) =
    (\<lambda>e. if k \<le> e \<and> e < k + len then b (e - k) else block_content i n d e)"
proof
  fix e
  let ?a = "mb_addr (mem_block_data d i)"
  show "block_content i n (mb_put c i k b len d) e =
      (if k \<le> e \<and> e < k + len then b (e - k) else block_content i n d e)"
  proof (cases "e < n")
    case True
    have in_range: "unat (?a + of_nat e - (?a + of_nat k)) < len \<longleftrightarrow> k \<le> e \<and> e < k + len"
      by (rule block_address [OF assms True])
    have "unat (?a + of_nat e - (?a + of_nat k)) = e - k" if "k \<le> e"
    proof -
      have "?a + of_nat e - (?a + of_nat k) = of_nat (e - k)" using that by (simp add: of_nat_diff)
      moreover have "e - k < 2 ^ 32" using True assms(1) unfolding block_ok_def by linarith
      ultimately show ?thesis by (simp only: unat_of_nat32)
    qed
    then show ?thesis using True in_range unfolding mb_put_eq [OF assms]
      by (auto simp: block_content_def)
  next
    case False
    then show ?thesis using assms(2) by (simp add: block_content_def)
  qed
qed

interpretation mb: byte_store n "block_ok c i n" "block_content i n" "mb_put c i" "mb_fetch c i" for n c i
proof
  fix d k len b assume ok: "block_ok c i n d" and fits: "k + len \<le> n"
  show "block_ok c i n (mb_put c i k b len d)" using ok fits by (simp add: mb_put_eq)
  show "block_content i n (mb_put c i k b len d) =
      (\<lambda>e. if k \<le> e \<and> e < k + len then b (e - k) else block_content i n d e)"
    using ok fits by (rule mb_put_content)
  show "block_ok c i n (snd (mb_fetch c i k b len d))"
    "block_content i n (snd (mb_fetch c i k b len d)) = block_content i n d"
    using ok fits by (simp_all add: mb_fetch_eq)
  show "fst (mb_fetch c i k b len d) = (\<lambda>e. if e < len then block_content i n d (k + e) else b e)"
    using ok fits by (auto simp: mb_fetch_eq block_content_def fun_eq_iff add.assoc)
qed

text \<open>The length that is left, for any position.\<close>

lemma clip_len_eq:
  assumes "block_ok c i n d"
  shows "clip_len c (mem_block_data d i) len = min len (int n - mb_pos (mem_block_data d i))"
proof -
  let ?p = "mb_pos (mem_block_data d i)"
  have p: "0 \<le> ?p" "?p \<le> int n" "n < 2 ^ 31" using assms by (simp_all add: block_ok_def)
  have "mb_size c (mem_block_data d i) - word_of_int ?p = of_nat (n - nat ?p)"
    using p block_size(2) [OF assms] by (simp add: of_nat_diff)
  moreover have "sint (of_nat (n - nat ?p) :: u32) = int (n - nat ?p)"
    by (rule sint_of_nat32) (use p in linarith)
  ultimately have "sint (mb_size c (mem_block_data d i) - word_of_int ?p) = int n - ?p"
    using p by (simp add: of_nat_diff)
  then show ?thesis using block_size(1) [OF assms] by (simp add: clip_len_def)
qed

lemma write_mem_block_eq:
  assumes "block_ok c i n d"
  shows "write_mem_block c i b len d =
    (let r = min len (int n - mb_pos (mem_block_data d i)) in
     if r \<le> 0 then (0, d)
     else (r, mb_put c i (nat (mb_pos (mem_block_data d i))) b (nat r) d))"
proof -
  let ?p = "mb_pos (mem_block_data d i)" and ?r = "min len (int n - mb_pos (mem_block_data d i))"
  have p: "0 \<le> ?p" "?p \<le> int n" using assms by (simp_all add: block_ok_def)
  show ?thesis
  proof (cases "?r \<le> 0")
    case True
    then show ?thesis using clip_len_eq [OF assms] by (simp add: write_mem_block_def Let_def)
  next
    case False
    then have k: "int (nat ?r) = ?r" by linarith
    have same: "set_mb_pos i ?p d = d" by (simp add: set_mb_pos_def)
    have "seek_mem_block c i (of_nat (nat ?p)) DEV_SEEK_START d = (?p, d)"
      using seek_start [OF assms, of "nat ?p"] p same by simp
    moreover have "clip_len c (mem_block_data d i) ?r = ?r"
      by (rule clip_fits [OF assms]) simp
    ultimately show ?thesis using False clip_len_eq [OF assms]
      by (simp only: write_mem_block_def mb_put_def Let_def k snd_conv if_False)
  qed
qed

text \<open>C31. A write to a memory block stays inside the block: whatever the position and the length, it
  writes the prefix of the buffer that fits, the position advances by what was written and stays
  within the block, and no byte outside the addresses of the block changes.\<close>

theorem write_mem_block_bounds:
  assumes ok: "block_ok c i n d" and len: "0 \<le> len"
    and w: "write_mem_block c i buffer len d = (r, d')"
  shows "block_ok c i n d' \<and> r = min len (int n - mb_pos (mem_block_data d i)) \<and>
    mb_pos (mem_block_data d' i) = mb_pos (mem_block_data d i) + r \<and>
    (\<forall>e < nat r. block_content i n d' (nat (mb_pos (mem_block_data d i)) + e) = buffer e) \<and>
    (\<forall>a. unat (a - mb_addr (mem_block_data d i)) \<ge> n \<longrightarrow> kmem d' a = kmem d a)"
proof -
  let ?p = "nat (mb_pos (mem_block_data d i))" and ?a = "mb_addr (mem_block_data d i)"
  have p: "0 \<le> mb_pos (mem_block_data d i)" "?p \<le> n" "n < 2 ^ 31" using ok unfolding block_ok_def by linarith+
  have r: "r = min len (int n - mb_pos (mem_block_data d i))"
    using w p len unfolding write_mem_block_eq [OF ok] by (auto simp: Let_def split: if_splits)
  have fits: "?p + nat r \<le> n" using r p len by simp
  have d': "d' = mb_put c i ?p buffer (nat r) d \<or> r = 0 \<and> d' = d"
    using w p len unfolding write_mem_block_eq [OF ok] by (auto simp: Let_def split: if_splits)
  have out: "\<not> unat (a - (?a + of_nat ?p)) < nat r" if "unat (a - ?a) \<ge> n" for a
  proof
    assume less: "unat (a - (?a + of_nat ?p)) < nat r"
    have "a - ?a = (a - (?a + of_nat ?p)) + of_nat ?p" by simp
    moreover have "unat (a - (?a + of_nat ?p)) + ?p < 2 ^ 32" using less fits p(3) by simp
    ultimately have "unat (a - ?a) = unat (a - (?a + of_nat ?p)) + ?p"
      by (metis unat_add_of_nat)
    with less fits that show False by linarith
  qed
  from d' show ?thesis
  proof
    assume d': "d' = mb_put c i ?p buffer (nat r) d"
    have "0 \<le> r" using r p len by linarith
    then have "mb_pos (mem_block_data d' i) = mb_pos (mem_block_data d i) + r"
      unfolding d' mb_put_eq [OF ok fits] using p by simp
    moreover have "\<forall>a. unat (a - ?a) \<ge> n \<longrightarrow> kmem d' a = kmem d a"
      unfolding d' mb_put_eq [OF ok fits] using out by simp
    moreover have "\<forall>e < nat r. block_content i n d' (?p + e) = buffer e"
      unfolding d' mb_put_content [OF ok fits] by simp
    ultimately show ?thesis using r mb.put_ok [OF ok fits] d' by metis
  qed (use r ok in simp)
qed

theorem write_mem_block_bounds_witness:
  "let c = demo_conf\<lparr>phys_mem_area_table := \<lambda>_. \<lparr>area_start_addr = 0, area_mapped_at = 0, area_size = 64,
             area_flags = 0, memory_region_offset = 0\<rparr>\<rparr>;
       d = \<lparr>kmem = (\<lambda>_. 0), mem_block_data = (\<lambda>_. \<lparr>mb_pos = 60, mb_addr = 0xfd000000, mb_areas_offset = 0\<rparr>),
             get_kdev_table = (\<lambda>_. None), uart_out = []\<rparr>
   in block_ok c 0 64 d \<and> fst (write_mem_block c 0 (\<lambda>_. 7) 16 d) = 4 \<and>
      kmem (snd (write_mem_block c 0 (\<lambda>_. 7) 16 d)) 0xfd000040 = 0"
proof -
  define c where "c = demo_conf\<lparr>phys_mem_area_table := \<lambda>_. \<lparr>area_start_addr = 0, area_mapped_at = 0, area_size = 64,
    area_flags = 0, memory_region_offset = 0\<rparr>\<rparr>"
  define d where "d = \<lparr>kmem = (\<lambda>_. 0), mem_block_data = (\<lambda>_. \<lparr>mb_pos = 60, mb_addr = 0xfd000000, mb_areas_offset = 0\<rparr>),
    get_kdev_table = (\<lambda>_. None), uart_out = []\<rparr>"
  have ok: "block_ok c 0 64 d" by (simp add: block_ok_def mb_size_def c_def d_def)
  from write_mem_block_bounds [OF ok, of 16 "\<lambda>_. 7" "fst (write_mem_block c 0 (\<lambda>_. 7) 16 d)"
      "snd (write_mem_block c 0 (\<lambda>_. 7) 16 d)"]
  have "fst (write_mem_block c 0 (\<lambda>_. 7) 16 d) = 4 \<and> kmem (snd (write_mem_block c 0 (\<lambda>_. 7) 16 d)) 0xfd000040 = 0"
    by (auto simp: d_def dest!: spec [of _ "0xfd000040"])
  with ok show ?thesis unfolding Let_def c_def d_def by blast
qed

end
