(* ===== verification/LogStream.thy ===== *)
theory LogStream
  imports Device "HOL-Library.Signed_Division"
begin

text \<open>
  Log streams, \<open>core/include/logstream.h\<close>: a ring of records of a fixed size on a kernel device,
  behind a header that keeps two copies of the control words and the number of the valid one.  The
  header is \<open>struct log_stream_hdr\<close> with the layout of the 32-bit ABI: 56 bytes, with \<open>c_hdr\<close> at 16
  and the two control blocks, of 16 bytes, at 20.  The records are a list of byte blocks: an
  insertion appends to it, and drops the oldest record when the ring is full, a read returns the
  record at the read position, of which the stream keeps the index.
\<close>

section \<open>State\<close>

record log_stream =
  ls_elem_size :: int
  ls_max_num_of_elem :: int
  ls_lock :: int
  ls_c_hdr :: int
  ls_tail :: int
  ls_elem :: int
  ls_head :: int
  ls_d :: int
  ls_kdev :: "kdev option"

definition LOGSTREAM_MAGIC1 :: u32 where "LOGSTREAM_MAGIC1 = 0xF9E8D7C6"
definition LOGSTREAM_MAGIC2 :: u32 where "LOGSTREAM_MAGIC2 = 0x1A2B3C4D"
definition sizeof_hdr :: int where "sizeof_hdr = 56"
definition sizeof_ctrl :: int where "sizeof_ctrl = 16"
definition offset_c_hdr :: u32 where "offset_c_hdr = 16"

definition offset_ctrl :: "int \<Rightarrow> u32" where
  "offset_ctrl i = word_of_int (20 + 16 * i)"

section \<open>Operations\<close>

definition log_stream_commit :: "prtos_conf \<Rightarrow> log_stream \<Rightarrow> devices \<Rightarrow> log_stream \<times> devices" where
  "log_stream_commit c ls d =
     (if ls_max_num_of_elem ls \<noteq> 0 then
        let d = snd (kdev_seek c (ls_kdev ls) (offset_ctrl (ls_c_hdr ls)) DEV_SEEK_START d);
            d = snd (kdev_write c (ls_kdev ls) (of_words [word_of_int (ls_tail ls), word_of_int (ls_elem ls),
                  word_of_int (ls_head ls), word_of_int (ls_d ls)]) sizeof_ctrl d);
            d = snd (kdev_seek c (ls_kdev ls) offset_c_hdr DEV_SEEK_START d);
            d = snd (kdev_write c (ls_kdev ls) (of_words [word_of_int (ls_c_hdr ls)]) 4 d)
        in (ls\<lparr>ls_c_hdr := if ls_c_hdr ls = 0 then 1 else 0\<rparr>, d)
      else (ls, d))"

text \<open>\<open>hdr\<close> is the content of the uninitialised header on the stack.\<close>

text \<open>The control block that the header on the device says is valid, as an offset in words.  The code
  does not check the index it reads; one outside the array of two blocks is an access out of bounds,
  and the model has no value for it.\<close>

definition ctrl_index :: "u32 \<Rightarrow> nat option" where
  "ctrl_index i = (if i = 0 then Some 0 else if i = 1 then Some 4 else None)"

definition log_stream_init ::
    "prtos_conf \<Rightarrow> cstr \<Rightarrow> kdev option \<Rightarrow> int \<Rightarrow> devices \<Rightarrow> (log_stream \<times> devices) option" where
  "log_stream_init c hdr kdev elem_size d = do {
     _ \<leftarrow> ASSERT (elem_size > 0);
     let ls = \<lparr>ls_elem_size = elem_size, ls_max_num_of_elem = 0, ls_lock = 0, ls_c_hdr = 0, ls_tail = 0,
               ls_elem = 0, ls_head = 0, ls_d = 0, ls_kdev = kdev\<rparr>;
     let d = snd (kdev_reset kdev d);
     let (off, d) = kdev_seek c kdev 0 DEV_SEEK_END d;
     let room = sint (word_of_int (off - sizeof_hdr) :: u32);
     let max = (if room > 0 then room sdiv elem_size else 0);
     let ls = ls\<lparr>ls_max_num_of_elem := max\<rparr>;
     if max = 0 then Some (ls, d) else do {
     let d = snd (kdev_seek c kdev 0 DEV_SEEK_START d);
     let (_, hdr, d) = kdev_read c kdev hdr sizeof_hdr d;
     if word_at hdr 0 \<noteq> LOGSTREAM_MAGIC1 \<or> word_at hdr 13 \<noteq> LOGSTREAM_MAGIC2 \<or>
        sint (word_at hdr 2) \<noteq> max \<or> sint (word_at hdr 1) \<noteq> elem_size
     then do {
       let d = snd (kdev_seek c kdev 0 DEV_SEEK_START d);
       let d = snd (kdev_write c kdev (of_words [LOGSTREAM_MAGIC1, word_of_int elem_size, word_of_int max,
                 0, 0, 0, 0, 0, 0, 0, 0, 0, 0, LOGSTREAM_MAGIC2]) sizeof_hdr d);
       Some (ls, d) }
     else do {
       k \<leftarrow> ctrl_index (word_at hdr 4);
       Some (ls\<lparr>ls_lock := sint (word_at hdr 3), ls_c_hdr := if word_at hdr 4 = 0 then 1 else 0,
         ls_tail := sint (word_at hdr (5 + k)), ls_elem := sint (word_at hdr (6 + k)),
         ls_head := sint (word_at hdr (7 + k)), ls_d := sint (word_at hdr (8 + k))\<rparr>, d) } } }"

text \<open>The place of the next record: \<open>None\<close> when the ring is full and locked.\<close>

definition make_room :: "log_stream \<Rightarrow> (int \<times> log_stream) option" where
  "make_room ls =
     (if ls_elem ls \<ge> ls_max_num_of_elem ls then
        if ls_lock ls \<noteq> 0 then None
        else Some (1, ls\<lparr>ls_head := if ls_head ls + 1 < ls_max_num_of_elem ls then ls_head ls + 1 else 0,
                         ls_d := if ls_d ls > 0 then ls_d ls - 1 else ls_d ls,
                         ls_elem := ls_elem ls - 1\<rparr>)
      else Some (0, ls))"

definition log_stream_insert ::
    "prtos_conf \<Rightarrow> log_stream \<Rightarrow> cstr \<Rightarrow> devices \<Rightarrow> (int \<times> log_stream \<times> devices) option" where
  "log_stream_insert c ls log d = do {
     _ \<leftarrow> ASSERT (ls_max_num_of_elem ls \<ge> 0);
     if ls_max_num_of_elem ls \<noteq> 0 then
       case make_room ls of
         None \<Rightarrow> Some (- 1, ls, d)
       | Some (smashed, ls) \<Rightarrow> do {
           _ \<leftarrow> ASSERT (ls_elem ls < ls_max_num_of_elem ls);
           let d = snd (kdev_seek c (ls_kdev ls)
                     (word_of_int (sizeof_hdr + ls_tail ls * ls_elem_size ls)) DEV_SEEK_START d);
           let d = snd (kdev_write c (ls_kdev ls) log (ls_elem_size ls) d);
           let ls = ls\<lparr>ls_tail := if ls_tail ls + 1 < ls_max_num_of_elem ls then ls_tail ls + 1 else 0,
                       ls_elem := ls_elem ls + 1\<rparr>;
           let (ls, d) = log_stream_commit c ls d;
           Some (smashed, ls, d) }
     else do {
       let d = snd (kdev_write c (ls_kdev ls) log (ls_elem_size ls) d);
       let (ls, d) = log_stream_commit c ls d;
       Some (0, ls, d) } }"

text \<open>\<open>log_stream_get\<close> fills \<open>log\<close>; a remainder by zero is a fault.  Both positions are below the number
  of records, so their sum fits in 32 bits for every record of more than one byte, as all of the
  kernel's are.\<close>

definition log_stream_get ::
    "prtos_conf \<Rightarrow> log_stream \<Rightarrow> cstr \<Rightarrow> devices \<Rightarrow> (int \<times> cstr \<times> log_stream \<times> devices) option" where
  "log_stream_get c ls log d =
     (if ls_elem ls > 0 \<and> ls_d ls < ls_elem ls then do {
        _ \<leftarrow> ASSERT (ls_max_num_of_elem ls \<noteq> 0);
        let ptr = (ls_d ls + ls_head ls) smod ls_max_num_of_elem ls;
        let ls = ls\<lparr>ls_d := ls_d ls + 1\<rparr>;
        let d = snd (kdev_seek c (ls_kdev ls) (word_of_int (sizeof_hdr + ptr * ls_elem_size ls)) DEV_SEEK_START d);
        let (_, log, d) = kdev_read c (ls_kdev ls) log (ls_elem_size ls) d;
        let (ls, d) = log_stream_commit c ls d;
        Some (0, log, ls, d) }
      else Some (- 1, log, ls, d))"

definition PRTOS_LOGSTREAM_CURRENT :: u32 where "PRTOS_LOGSTREAM_CURRENT = 0"
definition PRTOS_LOGSTREAM_START :: u32 where "PRTOS_LOGSTREAM_START = 1"
definition PRTOS_LOGSTREAM_END :: u32 where "PRTOS_LOGSTREAM_END = 2"

lemmas logstream_consts = PRTOS_LOGSTREAM_CURRENT_def PRTOS_LOGSTREAM_START_def PRTOS_LOGSTREAM_END_def

definition log_stream_seek ::
    "prtos_conf \<Rightarrow> log_stream \<Rightarrow> int \<Rightarrow> u32 \<Rightarrow> devices \<Rightarrow> int \<times> log_stream \<times> devices" where
  "log_stream_seek c ls offset whence d =
     (if whence \<noteq> PRTOS_LOGSTREAM_START \<and> whence \<noteq> PRTOS_LOGSTREAM_CURRENT \<and> whence \<noteq> PRTOS_LOGSTREAM_END
      then (- 1, ls, d)
      else let off = (if whence = PRTOS_LOGSTREAM_CURRENT then offset + ls_d ls
                      else if whence = PRTOS_LOGSTREAM_END then offset + ls_elem ls else offset);
               off = (if off > ls_elem ls then ls_elem ls else off);
               off = (if off < 0 then 0 else off);
               (ls, d) = log_stream_commit c (ls\<lparr>ls_d := off\<rparr>) d
           in (off, ls, d))"

definition log_stream_lock :: "log_stream \<Rightarrow> log_stream" where
  "log_stream_lock ls = ls\<lparr>ls_lock := 1\<rparr>"

definition log_stream_unlock :: "log_stream \<Rightarrow> log_stream" where
  "log_stream_unlock ls = ls\<lparr>ls_lock := 0\<rparr>"

section \<open>The records of a log\<close>

text \<open>The header words that describe the ring, and the valid copy of the control words.\<close>

definition hdr_word :: "nat \<Rightarrow> nat \<Rightarrow> devices \<Rightarrow> nat \<Rightarrow> u32" where
  "hdr_word i n d = word_at (block_content i n d)"

definition hdr_ok :: "nat \<Rightarrow> nat \<Rightarrow> log_stream \<Rightarrow> devices \<Rightarrow> bool" where
  "hdr_ok i n ls d \<longleftrightarrow> hdr_word i n d 0 = LOGSTREAM_MAGIC1 \<and> hdr_word i n d 13 = LOGSTREAM_MAGIC2 \<and>
     hdr_word i n d 1 = word_of_int (ls_elem_size ls) \<and> hdr_word i n d 2 = word_of_int (ls_max_num_of_elem ls) \<and>
     hdr_word i n d 3 = 0"

definition committed :: "nat \<Rightarrow> nat \<Rightarrow> log_stream \<Rightarrow> devices \<Rightarrow> bool" where
  "committed i n ls d \<longleftrightarrow> hdr_word i n d 4 = word_of_int (1 - ls_c_hdr ls) \<and>
     (let k = 5 + 4 * nat (1 - ls_c_hdr ls) in
      hdr_word i n d k = word_of_int (ls_tail ls) \<and> hdr_word i n d (k + 1) = word_of_int (ls_elem ls) \<and>
      hdr_word i n d (k + 2) = word_of_int (ls_head ls) \<and> hdr_word i n d (k + 3) = word_of_int (ls_d ls))"

text \<open>The records of the stream are \<open>xs\<close>, oldest first, kept on block \<open>i\<close>, of \<open>n\<close> bytes.\<close>

definition log_is :: "prtos_conf \<Rightarrow> nat \<Rightarrow> nat \<Rightarrow> log_stream \<Rightarrow> devices \<Rightarrow> u8 list list \<Rightarrow> bool" where
  "log_is c i n ls d xs \<longleftrightarrow> block_ok c i n d \<and> ls_kdev ls = Some (MemBlock i) \<and>
     0 < ls_elem_size ls \<and> 0 < ls_max_num_of_elem ls \<and> ls_max_num_of_elem ls = (int n - 56) div ls_elem_size ls \<and>
     (ls_c_hdr ls = 0 \<or> ls_c_hdr ls = 1) \<and> 0 \<le> ls_head ls \<and> ls_elem ls = int (length xs) \<and>
     ls_tail ls = (ls_head ls + int (length xs)) mod ls_max_num_of_elem ls \<and>
     0 \<le> ls_d ls \<and> ls_d ls \<le> ls_elem ls \<and> hdr_ok i n ls d \<and>
     ring_is (block_content i n d) 56 (nat (ls_elem_size ls)) (nat (ls_max_num_of_elem ls)) (nat (ls_head ls)) xs"

lemma log_isD:
  assumes "log_is c i n ls d xs"
  shows "block_ok c i n d" "ls_kdev ls = Some (MemBlock i)" "0 < ls_elem_size ls" "0 < ls_max_num_of_elem ls"
    "ls_c_hdr ls = 0 \<or> ls_c_hdr ls = 1" "0 \<le> ls_head ls" "ls_head ls < ls_max_num_of_elem ls"
    "ls_elem ls = int (length xs)" "int (length xs) \<le> ls_max_num_of_elem ls"
    "ls_tail ls = (ls_head ls + int (length xs)) mod ls_max_num_of_elem ls"
    "0 \<le> ls_d ls" "ls_d ls \<le> int (length xs)" "hdr_ok i n ls d"
    "ring_is (block_content i n d) 56 (nat (ls_elem_size ls)) (nat (ls_max_num_of_elem ls)) (nat (ls_head ls)) xs"
  using assms by (auto simp: log_is_def ring_is_def)

lemma log_fits:
  assumes "log_is c i n ls d xs"
  shows "56 + nat (ls_max_num_of_elem ls) * nat (ls_elem_size ls) \<le> n" "56 \<le> n" "n < 2 ^ 31"
proof -
  let ?m = "ls_max_num_of_elem ls" and ?es = "ls_elem_size ls"
  have m: "?m = (int n - 56) div ?es" "0 < ?es" "0 < ?m" "n < 2 ^ 31"
    using assms by (auto simp: log_is_def block_ok_def)
  have "?m * ?es \<le> int n - 56" using m(2) unfolding m(1) by (simp add: minus_mod_eq_div_mult [symmetric])
  then have "int (nat ?m * nat ?es) \<le> int n - 56" using m by simp
  then show "56 + nat ?m * nat ?es \<le> n" by linarith
  then show "56 \<le> n" by (rule add_leD1)
  show "n < 2 ^ 31" by (rule m(4))
qed

lemma log_is_device:
  assumes "log_is c i n ls d xs" "block_ok c i n d'" "block_content i n d' = block_content i n d"
  shows "log_is c i n ls d' xs"
  using assms(1,2) unfolding log_is_def hdr_ok_def hdr_word_def assms(3) by blast

lemma log_is_fields:
  assumes "log_is c i n ls d xs" and "0 \<le> r" "r \<le> int (length xs)"
  shows "log_is c i n (ls\<lparr>ls_d := r\<rparr>) d xs" "log_is c i n (ls\<lparr>ls_lock := l\<rparr>) d xs"
  using assms unfolding log_is_def hdr_ok_def by auto

text \<open>A write to the device at an offset is \<open>mb_put\<close>.\<close>

lemma kdev_put:
  assumes "block_ok c i n d" "k \<le> n"
  shows "snd (kdev_write c (Some (MemBlock i)) b (int len) (snd (kdev_seek c (Some (MemBlock i)) (of_nat k) DEV_SEEK_START d)))
    = mb_put c i k b len d"
  by (simp add: mb_put_def)

lemma kdev_fetch:
  assumes "block_ok c i n d" "k + len \<le> n"
  shows "kdev_read c (Some (MemBlock i)) b (int len)
      (snd (kdev_seek c (Some (MemBlock i)) (of_nat k) DEV_SEEK_START d)) = (int len, mb_fetch c i k b len d)"
proof -
  have "clip_len c (mem_block_data (set_mb_pos i (int k) d) i) (int len) = int len"
    by (rule clip_fits [where n = n]) (use assms in simp_all)
  then show ?thesis using seek_start [OF assms(1), of k] assms(2)
    by (simp add: mb_fetch_def read_mem_block_def Let_def)
qed

lemma commit_eq:
  assumes "ls_kdev ls = Some (MemBlock i)" "ls_max_num_of_elem ls \<noteq> 0" "ls_c_hdr ls = 0 \<or> ls_c_hdr ls = 1"
  shows "log_stream_commit c ls d = (ls\<lparr>ls_c_hdr := 1 - ls_c_hdr ls\<rparr>,
    mb_put c i (4 * 4) (of_words [word_of_int (ls_c_hdr ls)]) (4 * 1)
      (mb_put c i (4 * (5 + 4 * nat (ls_c_hdr ls))) (of_words [word_of_int (ls_tail ls), word_of_int (ls_elem ls),
         word_of_int (ls_head ls), word_of_int (ls_d ls)]) (4 * 4) d))"
  using assms by (auto simp: log_stream_commit_def mb_put_def offset_ctrl_def offset_c_hdr_def sizeof_ctrl_def Let_def)

lemma word_at_of_words_simp [simp]: "i < length ws \<Longrightarrow> word_at (of_words ws) i = ws ! i"
  by (rule word_at_of_words) simp_all

text \<open>What a commit does: the control words are saved, nothing else of the log changes.\<close>

lemma commit_correct:
  assumes l: "log_is c i n ls d xs"
  obtains d' where "log_stream_commit c ls d = (ls\<lparr>ls_c_hdr := 1 - ls_c_hdr ls\<rparr>, d')"
    "log_is c i n (ls\<lparr>ls_c_hdr := 1 - ls_c_hdr ls\<rparr>) d' xs"
    "committed i n (ls\<lparr>ls_c_hdr := 1 - ls_c_hdr ls\<rparr>) d'"
proof -
  note L = log_isD [OF l] and fits = log_fits [OF l]
  let ?h = "nat (ls_c_hdr ls)"
  let ?ctrl = "of_words [word_of_int (ls_tail ls), word_of_int (ls_elem ls), word_of_int (ls_head ls), word_of_int (ls_d ls)]"
  let ?d1 = "mb_put c i (4 * (5 + 4 * ?h)) ?ctrl (4 * 4) d"
  let ?d2 = "mb_put c i (4 * 4) (of_words [word_of_int (ls_c_hdr ls)]) (4 * 1) ?d1"
  have h: "?h \<le> 1" "int ?h = ls_c_hdr ls" using L(5) by auto
  have f1: "4 * (5 + 4 * ?h) + 4 * 4 \<le> n" using L(5) fits(2) by auto
  have f2: "4 * 4 + 4 * 1 \<le> n" using fits(2) by linarith
  have ok1: "block_ok c i n ?d1" by (rule mb.put_ok [OF L(1) f1])
  have ok2: "block_ok c i n ?d2" by (rule mb.put_ok [OF ok1 f2])
  have words: "hdr_word i n ?d2 k = (if k = 4 then word_of_int (ls_c_hdr ls)
      else if 5 + 4 * ?h \<le> k \<and> k < 9 + 4 * ?h then word_at ?ctrl (k - (5 + 4 * ?h)) else hdr_word i n d k)" for k
    unfolding hdr_word_def mb.word_put [OF ok1 f2] mb.word_put [OF L(1) f1] by (auto simp: le_Suc_eq)
  have "ring_is (block_content i n ?d1) 56 (nat (ls_elem_size ls)) (nat (ls_max_num_of_elem ls)) (nat (ls_head ls)) xs"
    by (rule mb.ring_frame [OF L(1) L(14)]) (use L(5) fits(2) in auto)
  then have "ring_is (block_content i n ?d2) 56 (nat (ls_elem_size ls)) (nat (ls_max_num_of_elem ls)) (nat (ls_head ls)) xs"
    by (rule mb.ring_frame [OF ok1]) (use fits(2) in linarith)+
  moreover have "hdr_ok i n ls ?d2"
    using L(13) h(1) unfolding hdr_ok_def words by (auto simp: le_Suc_eq)
  ultimately have "log_is c i n (ls\<lparr>ls_c_hdr := 1 - ls_c_hdr ls\<rparr>) ?d2 xs"
    using l ok2 by (auto simp: log_is_def hdr_ok_def)
  moreover have "committed i n (ls\<lparr>ls_c_hdr := 1 - ls_c_hdr ls\<rparr>) ?d2"
    unfolding committed_def words Let_def by (simp add: nth_Cons')
  ultimately show thesis
    using that commit_eq [OF L(2) _ L(5), of c d] L(4) by simp
qed

lemma next_index: "0 \<le> (i :: int) \<Longrightarrow> i < m \<Longrightarrow> (if i + 1 < m then i + 1 else 0) = (i + 1) mod m"
  by (cases "i + 1 = m") (auto simp: mod_pos_pos_trivial)

lemma make_room_correct:
  assumes l: "log_is c i n ls d xs" and unlocked: "int (length xs) = ls_max_num_of_elem ls \<longrightarrow> ls_lock ls = 0"
  defines "full \<equiv> int (length xs) = ls_max_num_of_elem ls"
  obtains ls' where "make_room ls = Some (of_bool full, ls')"
    "log_is c i n ls' d (if full then tl xs else xs)" "ls_elem ls' < ls_max_num_of_elem ls'"
    "ls_elem_size ls' = ls_elem_size ls" "ls_lock ls' = ls_lock ls" "ls_max_num_of_elem ls' = ls_max_num_of_elem ls"
    "ls_d ls' = (if full \<and> ls_d ls > 0 then ls_d ls - 1 else ls_d ls)"
proof (cases full)
  case False
  note L = log_isD [OF l]
  have "make_room ls = Some (0, ls)" using False L by (simp add: make_room_def full_def)
  then show thesis using that [of ls] l False L by (simp add: full_def)
next
  case True
  note L = log_isD [OF l]
  let ?m = "ls_max_num_of_elem ls"
  obtain y ys where xs: "xs = y # ys" using True L(4) by (cases xs) (simp_all add: full_def)
  let ?h = "if ls_head ls + 1 < ?m then ls_head ls + 1 else 0"
  let ?ls = "ls\<lparr>ls_head := ?h, ls_d := if ls_d ls > 0 then ls_d ls - 1 else ls_d ls, ls_elem := ls_elem ls - 1\<rparr>"
  have room: "make_room ls = Some (1, ?ls)" using True unlocked L by (simp add: make_room_def full_def)
  have h: "?h = (ls_head ls + 1) mod ?m" by (rule next_index [OF L(6,7)])
  have tail: "ls_tail ls = (?h + int (length ys)) mod ?m"
    unfolding h mod_add_left_eq using L(10) by (simp add: xs ac_simps)
  have nat_h: "nat ?h = (if nat (ls_head ls) + 1 < nat ?m then nat (ls_head ls) + 1 else 0)"
    using L(6) by auto
  have "ring_is (block_content i n d) 56 (nat (ls_elem_size ls)) (nat ?m) (nat ?h) ys"
    unfolding nat_h by (rule ring_drop) (use L(14) xs in simp)
  then have li: "log_is c i n ?ls d ys"
    using l L(6,11,12) tail by (auto simp: log_is_def hdr_ok_def xs)
  have "ls_elem ?ls < ls_max_num_of_elem ?ls" using L(8,9) by simp
  then show thesis using True xs room li by (intro that [of ?ls]) simp_all
qed

lemma insert_slot:
  assumes l: "log_is c i n ls d xs" and room: "ls_elem ls < ls_max_num_of_elem ls"
  shows "log_is c i n (ls\<lparr>ls_tail := if ls_tail ls + 1 < ls_max_num_of_elem ls then ls_tail ls + 1 else 0,
        ls_elem := ls_elem ls + 1\<rparr>)
      (snd (kdev_write c (ls_kdev ls) b (ls_elem_size ls) (snd (kdev_seek c (ls_kdev ls)
         (word_of_int (sizeof_hdr + ls_tail ls * ls_elem_size ls)) DEV_SEEK_START d))))
      (xs @ [map b [0..<nat (ls_elem_size ls)]])" (is "log_is c i n ?ls ?d _")
proof -
  note L = log_isD [OF l] and fits = log_fits [OF l]
  let ?m = "ls_max_num_of_elem ls" and ?es = "nat (ls_elem_size ls)"
  let ?t = "(nat (ls_head ls) + length xs) mod nat ?m"
  have t: "ls_tail ls = int ?t" using L(4,6,10) by (simp add: zmod_int)
  have lt: "?t < nat ?m" using L(4) by simp
  have "(?t + 1) * ?es \<le> nat ?m * ?es" using lt by (intro mult_le_mono1) simp
  then have f: "56 + ?t * ?es + ?es \<le> n" using fits(1) by simp
  have off: "word_of_int (sizeof_hdr + ls_tail ls * ls_elem_size ls) = (of_nat (56 + ?t * ?es) :: u32)"
    using L(3) unfolding t sizeof_hdr_def by simp
  have d: "?d = mb_put c i (56 + ?t * ?es) b ?es d"
    unfolding off L(2) using kdev_put [OF L(1), of "56 + ?t * ?es" b ?es] f L(3) by simp
  have ring: "ring_is (block_content i n ?d) 56 ?es (nat ?m) (nat (ls_head ls)) (xs @ [map b [0..<?es]])"
    unfolding d by (rule mb.ring_append [OF L(1,14) _ fits(1)]) (use room L(8) in simp)
  have "hdr_word i n ?d k = hdr_word i n d k" if "k < 14" for k
  proof -
    have "block_content i n ?d (4 * k + j) = block_content i n d (4 * k + j)" if "j < 4" for j
      unfolding d mb.put_content [OF L(1) f] using that \<open>k < 14\<close> by simp
    from this [of 0] this [of 1] this [of 2] this [of 3] show ?thesis by (simp add: hdr_word_def word_at_def)
  qed
  then have hdr: "hdr_ok i n ls ?d" using L(13) by (simp add: hdr_ok_def)
  have "0 \<le> ls_tail ls" "ls_tail ls < ?m" using L(4) unfolding L(10) by simp_all
  then have "(if ls_tail ls + 1 < ?m then ls_tail ls + 1 else 0) = (ls_tail ls + 1) mod ?m" by (rule next_index)
  also have "\<dots> = (ls_head ls + int (length xs + 1)) mod ?m"
    unfolding L(10) mod_add_left_eq by (simp add: ac_simps)
  finally have "(if ls_tail ls + 1 < ?m then ls_tail ls + 1 else 0) = (ls_head ls + int (length xs + 1)) mod ?m" .
  then show ?thesis
    using l ring hdr mb.put_ok [OF L(1) f] d by (auto simp: log_is_def hdr_ok_def)
qed

text \<open>C7. Inserting into a log appends the record; when the log is full the oldest record is
  dropped, and the read position moves with the record it stood at, or the insertion is refused,
  without effect, when the log is locked.  The control words on the device are up to date.\<close>

theorem log_stream_insert_correct:
  assumes l: "log_is c i n ls d xs"
  defines "full \<equiv> int (length xs) = ls_max_num_of_elem ls"
  shows "if full \<and> ls_lock ls \<noteq> 0 then log_stream_insert c ls b d = Some (- 1, ls, d)
    else \<exists>ls' d'. log_stream_insert c ls b d = Some (of_bool full, ls', d') \<and>
      log_is c i n ls' d' ((if full then tl xs else xs) @ [map b [0..<nat (ls_elem_size ls)]]) \<and>
      committed i n ls' d' \<and> ls_lock ls' = ls_lock ls \<and>
      ls_d ls' = (if full \<and> ls_d ls > 0 then ls_d ls - 1 else ls_d ls)"
proof (cases "full \<and> ls_lock ls \<noteq> 0")
  case True
  then show ?thesis using log_isD [OF l] by (simp add: log_stream_insert_def make_room_def full_def)
next
  case False
  then have "int (length xs) = ls_max_num_of_elem ls \<longrightarrow> ls_lock ls = 0" by (simp add: full_def)
  from make_room_correct [OF l this] obtain ls1 where 1: "make_room ls = Some (of_bool full, ls1)"
    "log_is c i n ls1 d (if full then tl xs else xs)" "ls_elem ls1 < ls_max_num_of_elem ls1"
    "ls_elem_size ls1 = ls_elem_size ls" "ls_lock ls1 = ls_lock ls" "ls_max_num_of_elem ls1 = ls_max_num_of_elem ls"
    "ls_d ls1 = (if full \<and> ls_d ls > 0 then ls_d ls - 1 else ls_d ls)" unfolding full_def by metis
  define ls2 where "ls2 = ls1\<lparr>ls_tail := if ls_tail ls1 + 1 < ls_max_num_of_elem ls1 then ls_tail ls1 + 1 else 0,
      ls_elem := ls_elem ls1 + 1\<rparr>"
  define d1 where "d1 = snd (kdev_write c (ls_kdev ls1) b (ls_elem_size ls1) (snd (kdev_seek c (ls_kdev ls1)
      (word_of_int (sizeof_hdr + ls_tail ls1 * ls_elem_size ls1)) DEV_SEEK_START d)))"
  have 2: "log_is c i n ls2 d1 ((if full then tl xs else xs) @ [map b [0..<nat (ls_elem_size ls)]])"
    using insert_slot [OF 1(2,3), of b] unfolding ls2_def d1_def 1(4) .
  have eq: "log_stream_insert c ls b d =
      (let (ls', d') = log_stream_commit c ls2 d1 in Some (of_bool full, ls', d'))"
    using 1(1,3,6) log_isD(4) [OF l] unfolding ls2_def d1_def
    by (simp only: log_stream_insert_def Let_def ASSERT_bind split: if_splits) simp
  obtain d' where "log_stream_commit c ls2 d1 = (ls2\<lparr>ls_c_hdr := 1 - ls_c_hdr ls2\<rparr>, d')"
    "log_is c i n (ls2\<lparr>ls_c_hdr := 1 - ls_c_hdr ls2\<rparr>) d' ((if full then tl xs else xs) @ [map b [0..<nat (ls_elem_size ls)]])"
    "committed i n (ls2\<lparr>ls_c_hdr := 1 - ls_c_hdr ls2\<rparr>) d'" using commit_correct [OF 2] .
  moreover have "ls_lock ls2 = ls_lock ls" "ls_d ls2 = (if full \<and> ls_d ls > 0 then ls_d ls - 1 else ls_d ls)"
    using 1(5,7) by (simp_all add: ls2_def)
  ultimately show ?thesis using False eq
    by (intro if_not_P [THEN iffD2, OF False] exI [of _ "ls2\<lparr>ls_c_hdr := 1 - ls_c_hdr ls2\<rparr>"] exI [of _ d']) simp
qed

lemma get_slot:
  assumes l: "log_is c i n ls d xs" and j: "ls_d ls < int (length xs)"
  defines "ptr \<equiv> (ls_d ls + ls_head ls) smod ls_max_num_of_elem ls"
  obtains b' d' where "kdev_read c (ls_kdev ls) b (ls_elem_size ls) (snd (kdev_seek c (ls_kdev ls)
       (word_of_int (sizeof_hdr + ptr * ls_elem_size ls)) DEV_SEEK_START d)) = (ls_elem_size ls, b', d')"
    "map b' [0..<nat (ls_elem_size ls)] = xs ! nat (ls_d ls)"
    "log_is c i n (ls\<lparr>ls_d := ls_d ls + 1\<rparr>) d' xs"
proof -
  note L = log_isD [OF l] and fits = log_fits [OF l]
  let ?m = "ls_max_num_of_elem ls" and ?es = "nat (ls_elem_size ls)"
  let ?p = "(nat (ls_head ls) + nat (ls_d ls)) mod nat ?m"
  have "ptr = (ls_d ls + ls_head ls) mod ?m"
    unfolding ptr_def using L(4,6,11) by (simp add: signed_modulo_int_def sgn_if)
  then have ptr: "ptr = int ?p" using L(4,6,11) by (simp add: zmod_int add.commute)
  have lt: "?p < nat ?m" using L(4) by simp
  then have "(?p + 1) * ?es \<le> nat ?m * ?es" by (intro mult_le_mono1) simp
  then have f: "56 + ?p * ?es + ?es \<le> n" using fits(1) by simp
  have off: "word_of_int (sizeof_hdr + ptr * ls_elem_size ls) = (of_nat (56 + ?p * ?es) :: u32)"
    using L(3) unfolding ptr sizeof_hdr_def by simp
  have read: "kdev_read c (ls_kdev ls) b (ls_elem_size ls) (snd (kdev_seek c (ls_kdev ls)
       (word_of_int (sizeof_hdr + ptr * ls_elem_size ls)) DEV_SEEK_START d)) =
      (ls_elem_size ls, mb_fetch c i (56 + ?p * ?es) b ?es d)"
    unfolding off L(2) using kdev_fetch [OF L(1) f] L(3) by simp
  have bytes: "map (fst (mb_fetch c i (56 + ?p * ?es) b ?es d)) [0..<?es] = xs ! nat (ls_d ls)"
    by (rule mb.ring_read [OF L(1,14) _ fits(1)]) (use j L(11) in simp)
  have "log_is c i n (ls\<lparr>ls_d := ls_d ls + 1\<rparr>) (snd (mb_fetch c i (56 + ?p * ?es) b ?es d)) xs"
    by (rule log_is_device [OF log_is_fields(1) [OF l] mb.fetch_ok [OF L(1) f] mb.fetch_content [OF L(1) f]])
      (use j L(11) in simp_all)
  with read bytes that show thesis by (metis prod.collapse)
qed

text \<open>C11. Reading a log returns the records in the order they were inserted, each as it was inserted,
  and says so when there is none left.\<close>

theorem log_stream_get_correct:
  assumes l: "log_is c i n ls d xs"
  shows "if ls_d ls < int (length xs)
    then \<exists>b' ls' d'. log_stream_get c ls b d = Some (0, b', ls', d') \<and>
      map b' [0..<nat (ls_elem_size ls)] = xs ! nat (ls_d ls) \<and>
      log_is c i n ls' d' xs \<and> committed i n ls' d' \<and> ls_d ls' = ls_d ls + 1
    else log_stream_get c ls b d = Some (- 1, b, ls, d)"
proof (cases "ls_d ls < int (length xs)")
  case True
  note L = log_isD [OF l]
  obtain b' d' where 1: "kdev_read c (ls_kdev ls) b (ls_elem_size ls) (snd (kdev_seek c (ls_kdev ls)
       (word_of_int (sizeof_hdr + (ls_d ls + ls_head ls) smod ls_max_num_of_elem ls * ls_elem_size ls)) DEV_SEEK_START d))
         = (ls_elem_size ls, b', d')"
    "map b' [0..<nat (ls_elem_size ls)] = xs ! nat (ls_d ls)" "log_is c i n (ls\<lparr>ls_d := ls_d ls + 1\<rparr>) d' xs"
    using get_slot [OF l True] .
  obtain d'' where 2: "log_stream_commit c (ls\<lparr>ls_d := ls_d ls + 1\<rparr>) d' =
      (ls\<lparr>ls_d := ls_d ls + 1, ls_c_hdr := 1 - ls_c_hdr ls\<rparr>, d'')"
    "log_is c i n (ls\<lparr>ls_d := ls_d ls + 1, ls_c_hdr := 1 - ls_c_hdr ls\<rparr>) d'' xs"
    "committed i n (ls\<lparr>ls_d := ls_d ls + 1, ls_c_hdr := 1 - ls_c_hdr ls\<rparr>) d''"
    using commit_correct [OF 1(3)] by auto
  have "log_stream_get c ls b d = Some (0, b', ls\<lparr>ls_d := ls_d ls + 1, ls_c_hdr := 1 - ls_c_hdr ls\<rparr>, d'')"
    using True L(4,8,11) 1(1) 2(1) by (auto simp: log_stream_get_def Let_def)
  then show ?thesis using True 1(2) 2(2,3) by auto
qed (use log_isD(8) [OF l] in \<open>simp add: log_stream_get_def\<close>)

lemma sint_word_of_int32: "0 \<le> x \<Longrightarrow> x < 2 ^ 31 \<Longrightarrow> sint (word_of_int x :: u32) = x"
  using sint_of_nat32 [of "nat x"] by simp

text \<open>C8. A log survives a restart: setting up a stream on a device whose control words were committed
  finds the records, the write position and the read position again; only the lock is gone.\<close>

theorem log_stream_survives_restart:
  assumes l: "log_is c i n ls d xs" and com: "committed i n ls d"
  shows "\<exists>d'. log_stream_init c hdr (Some (MemBlock i)) (ls_elem_size ls) d = Some (ls\<lparr>ls_lock := 0\<rparr>, d') \<and>
    log_is c i n (ls\<lparr>ls_lock := 0\<rparr>) d' xs"
proof -
  note L = log_isD [OF l] and fits = log_fits [OF l]
  let ?es = "ls_elem_size ls" and ?m = "ls_max_num_of_elem ls"
  have m: "?m = (int n - 56) div ?es" using l by (simp add: log_is_def)
  define h where "h = (\<lambda>e. if e < 56 then block_content i n d e else hdr e)"
  define d0 where "d0 = set_mb_pos i 56 d"
  have ok: "block_ok c i n (set_mb_pos i p d)" if "p = 0 \<or> p = int n \<or> p = 56" for p
    using that L(1) fits(2) by auto
  have room: "sint (word_of_int (int n - sizeof_hdr) :: u32) = int n - 56"
    using fits(2,3) by (subst sint_word_of_int32) (simp_all add: sizeof_hdr_def)
  have "0 < int n - 56" using L(3,4) unfolding m by (simp add: pos_imp_zdiv_pos_iff)
  then have max: "(if int n - 56 > 0 then (int n - 56) sdiv ?es else 0) = ?m"
    using L(3) m by (simp add: signed_divide_int_def sgn_if)
  have words: "word_at h k = hdr_word i n d k" if "k < 14" for k
    using that by (simp add: h_def word_at_def hdr_word_def)
  have endd: "kdev_seek c (Some (MemBlock i)) 0 DEV_SEEK_END (set_mb_pos i 0 d) = (int n, set_mb_pos i (int n) d)"
    using seek_end [OF ok [of 0]] by (simp add: set_mb_pos_def)
  have "mb_fetch c i 0 hdr 56 (set_mb_pos i (int n) d) = (h, d0)"
    using mb_fetch_eq [OF ok [of "int n"], of 0 56 hdr] fits(2)
    by (auto simp: h_def d0_def block_content_def fun_eq_iff set_mb_pos_def)
  then have read: "kdev_read c (Some (MemBlock i)) hdr sizeof_hdr
      (snd (kdev_seek c (Some (MemBlock i)) 0 DEV_SEEK_START (set_mb_pos i (int n) d))) = (56, h, d0)"
    using kdev_fetch [OF ok [of "int n"], of 0 56 hdr] fits(2) by (simp add: sizeof_hdr_def)
  have small: "0 \<le> x \<Longrightarrow> x \<le> int n \<Longrightarrow> sint (word_of_int x :: u32) = x" for x
    using fits(3) by (intro sint_word_of_int32) simp_all
  have es: "?es \<le> int n" "?m \<le> int n"
  proof -
    have "int (nat ?m * nat ?es) \<le> int n" using fits(1) by linarith
    then have me: "?m * ?es \<le> int n" using L(3,4) by simp
    have "1 * ?es \<le> ?m * ?es" using L(3,4) by (intro mult_right_mono) simp_all
    with me show "?es \<le> int n" by simp
    have "?m * 1 \<le> ?m * ?es" using L(3,4) by (intro mult_left_mono) simp_all
    with me show "?m \<le> int n" by simp
  qed
  have tail: "0 \<le> ls_tail ls" "ls_tail ls \<le> int n" using L(4) es(2) unfolding L(10)
    by (auto intro: order_trans [OF less_imp_le [OF pos_mod_bound]])
  have vals: "sint (word_at h 1) = ?es" "sint (word_at h 2) = ?m" "word_at h 0 = LOGSTREAM_MAGIC1"
    "word_at h 13 = LOGSTREAM_MAGIC2" "sint (word_at h 3) = 0" "word_at h 4 = word_of_int (1 - ls_c_hdr ls)"
    using L(3,4,13) es small by (simp_all add: words hdr_ok_def committed_def)
       (use com in \<open>simp add: committed_def\<close>)
  let ?k = "5 + 4 * nat (1 - ls_c_hdr ls)"
  have k: "?k + 3 < 14" using L(5) by auto
  then have "word_at h (?k + j) = hdr_word i n d (?k + j)" if "j \<le> 3" for j using that by (intro words) linarith
  from this [of 0] this [of 1] this [of 2] this [of 3] have ctrl: "sint (word_at h ?k) = ls_tail ls" "sint (word_at h (?k + 1)) = ls_elem ls"
    "sint (word_at h (?k + 2)) = ls_head ls" "sint (word_at h (?k + 3)) = ls_d ls"
    using com L(6,7,8,9,11,12) es tail small small [of "int (length xs)"] by (simp_all add: committed_def Let_def)
  have "log_stream_init c hdr (Some (MemBlock i)) ?es d = Some (ls\<lparr>ls_lock := 0\<rparr>, d0)"
    using L(2,3,4,5) endd room max read vals ctrl
    by (auto simp: log_stream_init_def ctrl_index_def reset_mem_block_def Let_def)
  moreover have "log_is c i n (ls\<lparr>ls_lock := 0\<rparr>) d0 xs"
    by (rule log_is_device [OF log_is_fields(2) [OF l L(11,12)]]) (use ok [of 56] in \<open>simp_all add: d0_def\<close>)
  ultimately show ?thesis by blast
qed

section \<open>The theorems apply\<close>

text \<open>A block of 88 bytes with a log of up to four records of eight bytes, of which one is there.\<close>

definition demo_log_conf :: prtos_conf where
  "demo_log_conf = demo_conf\<lparr>phys_mem_area_table := \<lambda>_. \<lparr>area_start_addr = 0, area_mapped_at = 0,
     area_size = 88, area_flags = 0, memory_region_offset = 0\<rparr>\<rparr>"

definition demo_log_image :: "u32 list" where
  "demo_log_image = [LOGSTREAM_MAGIC1, 8, 4, 0, 0, 1, 1, 0, 0, 0, 0, 0, 0, LOGSTREAM_MAGIC2, 0x04030201, 0x08070605]"

definition demo_devices :: devices where
  "demo_devices = \<lparr>kmem = (\<lambda>a. of_words demo_log_image (unat (a - 0xfd000000))),
     mem_block_data = (\<lambda>_. \<lparr>mb_pos = 88, mb_addr = 0xfd000000, mb_areas_offset = 0\<rparr>),
     get_kdev_table = (\<lambda>i. if i = 0 then Some get_mem_block else if i = 1 then Some get_uart else None),
     uart_out = []\<rparr>"

definition demo_log :: log_stream where
  "demo_log = \<lparr>ls_elem_size = 8, ls_max_num_of_elem = 4, ls_lock = 0, ls_c_hdr = 1, ls_tail = 1, ls_elem = 1,
     ls_head = 0, ls_d = 0, ls_kdev = Some (MemBlock 0)\<rparr>"

lemma demo_content: "e < 88 \<Longrightarrow> block_content 0 88 demo_devices e = of_words demo_log_image e"
  using unat_of_nat32 [of e] by (simp add: block_content_def demo_devices_def)

lemma demo_words: "k < 16 \<Longrightarrow> hdr_word 0 88 demo_devices k = demo_log_image ! k"
  unfolding hdr_word_def by (rule word_at_of_words) (simp_all add: demo_content demo_log_image_def)

lemma demo_log_is:
  "log_is demo_log_conf 0 88 demo_log demo_devices [[1, 2, 3, 4, 5, 6, 7, 8]]" "committed 0 88 demo_log demo_devices"
proof -
  have ok: "block_ok demo_log_conf 0 88 demo_devices"
    by (simp add: block_ok_def mb_size_def demo_log_conf_def demo_devices_def)
  have "block_at (block_content 0 88 demo_devices) 56 8 = map (of_words demo_log_image) [56..<64]"
    unfolding block_at_def by (simp add: demo_content upt_rec)
  also have "\<dots> = [1, 2, 3, 4, 5, 6, 7, 8]" by code_simp
  finally have "block_at (block_content 0 88 demo_devices) 56 8 = [1, 2, 3, 4, 5, 6, 7, 8]" .
  then show "log_is demo_log_conf 0 88 demo_log demo_devices [[1, 2, 3, 4, 5, 6, 7, 8]]"
    using ok by (simp add: log_is_def demo_log_def hdr_ok_def demo_words ring_is_def demo_log_image_def)
  show "committed 0 88 demo_log demo_devices"
    by (simp add: committed_def demo_log_def demo_words demo_log_image_def)
qed

theorem log_stream_insert_correct_witness:
  "log_is demo_log_conf 0 88 demo_log demo_devices [[1, 2, 3, 4, 5, 6, 7, 8]] \<and>
   (\<exists>ls d. log_stream_insert demo_log_conf demo_log of_nat demo_devices = Some (0, ls, d) \<and>
      log_is demo_log_conf 0 88 ls d [[1, 2, 3, 4, 5, 6, 7, 8], [0, 1, 2, 3, 4, 5, 6, 7]])"
  using log_stream_insert_correct [OF demo_log_is(1), of of_nat] demo_log_is(1)
  by (auto simp: demo_log_def upt_rec)

theorem log_stream_get_correct_witness:
  "log_is demo_log_conf 0 88 demo_log demo_devices [[1, 2, 3, 4, 5, 6, 7, 8]] \<and>
   (\<exists>b ls d. log_stream_get demo_log_conf demo_log (\<lambda>_. 0) demo_devices = Some (0, b, ls, d) \<and>
      map b [0..<8] = [1, 2, 3, 4, 5, 6, 7, 8] \<and> ls_d ls = 1)"
  using log_stream_get_correct [OF demo_log_is(1), of "\<lambda>_. 0"] demo_log_is(1)
  by (auto simp: demo_log_def)

theorem log_stream_survives_restart_witness:
  "\<exists>d. log_stream_init demo_log_conf (\<lambda>_. 0) (Some (MemBlock 0)) 8 demo_devices = Some (demo_log, d) \<and>
     log_is demo_log_conf 0 88 demo_log d [[1, 2, 3, 4, 5, 6, 7, 8]]"
  using log_stream_survives_restart [OF demo_log_is, of "\<lambda>_. 0"] by (auto simp: demo_log_def)

end
