(* ===== verification/Checksum.thy ===== *)
theory Checksum
  imports Prelude
begin

text \<open>
  The checksum of the log and trace records, \<open>core/include/checksum.h\<close>, over the half words of a
  buffer.  The carry is tested on the 16-bit sum itself, where it cannot be seen: the checksum is the
  complement of the plain sum modulo \<open>2 ^ 16\<close>.
\<close>

definition check_sum_step :: "u16 \<Rightarrow> u16 \<Rightarrow> u16" where
  "check_sum_step w s =
     (let s = s + w in
      if (ucast s :: u32) AND 0xffff0000 \<noteq> 0 then (s AND 0xffff) + 1 else s)"

definition calc_check_sum :: "(nat \<Rightarrow> u16) \<Rightarrow> int \<Rightarrow> u16 option" where
  "calc_check_sum buffer sz = do {
     _ \<leftarrow> ASSERT (and sz 1 = 0);
     Some (NOT (for_upto (nat (drop_bit 1 sz)) (\<lambda>i. check_sum_step (buffer i)) 0 AND 0xffff)) }"

definition is_valid_check_sum :: "(nat \<Rightarrow> u16) \<Rightarrow> int \<Rightarrow> int option" where
  "is_valid_check_sum buffer sz = do {
     _ \<leftarrow> ASSERT (and sz 1 = 0);
     Some (if for_upto (nat (drop_bit 1 sz)) (\<lambda>i. check_sum_step (buffer i)) 0 = 0xffff then 1 else 0) }"

lemma check_sum_step_plain: "check_sum_step w s = s + w"
proof -
  have "(ucast s :: u32) AND 0xffff0000 = 0" for s :: u16
  proof -
    have m: "(0xffff0000 :: u32) = push_bit 16 (mask 16)" by (simp add: push_bit_eq_mult mask_eq_exp_minus_1)
    show ?thesis unfolding m by (rule bit_word_eqI) (auto simp: bit_simps dest: bit_imp_le_length)
  qed
  then show ?thesis by (simp add: check_sum_step_def Let_def)
qed

lemma sum_loop: "for_upto n (\<lambda>i. check_sum_step (b i)) 0 = (\<Sum>i<n. b i)"
  by (induction n) (simp_all add: check_sum_step_plain)

text \<open>C32. A record whose checksum field holds the checksum computed with the field cleared is accepted
  as valid.\<close>

theorem check_sum_roundtrip:
  assumes "even sz" and "j < nat (sz div 2)"
  shows "\<exists>x. calc_check_sum (b(j := 0)) sz = Some x \<and> is_valid_check_sum (b(j := x)) sz = Some 1"
proof -
  let ?n = "nat (sz div 2)" and ?rest = "(\<Sum>i \<in> {..<nat (sz div 2)} - {j}. b i)"
  have split: "(\<Sum>i<?n. (b(j := x)) i) = x + ?rest" for x
    using assms(2) by (subst sum.remove [of _ j]) (auto intro!: arg_cong2 [where f = "(+)"] sum.cong)
  have ok: "and sz 1 = 0" "nat (drop_bit 1 sz) = ?n"
    using assms(1) by (simp_all add: and_one_eq drop_bit_eq_div even_iff_mod_2_eq_zero)
  have m: "w AND 0xffff = w" for w :: u16
  proof -
    have m: "(0xffff :: u16) = - 1" by simp
    show ?thesis unfolding m by (rule and.right_neutral)
  qed
  have "NOT ?rest + ?rest = (0xffff :: u16)" by (simp add: not_eq_complement)
  then show ?thesis using ok split [of 0] split
    by (simp add: calc_check_sum_def is_valid_check_sum_def sum_loop m del: fun_upd_apply)
qed

theorem check_sum_roundtrip_witness:
  "\<exists>x. calc_check_sum ((\<lambda>i. of_nat i)(1 := 0)) 8 = Some x \<and> is_valid_check_sum ((\<lambda>i. of_nat i)(1 := x)) 8 = Some 1"
  using check_sum_roundtrip [of 8 1 of_nat] by simp

end
