(* ===== verification/PhysMem.thy ===== *)
theory PhysMem
  imports GuestAccess
begin

text \<open>
  The physical memory manager, \<open>core/kernel/mmu/physmm.c\<close> with the counters of
  \<open>core/include/physmm.h\<close> and the frame allocator of \<open>core/kernel/mmu/virtmm.c\<close>: the binary
  searches for the memory area or region of an address, the descriptors of the pages, and the cache
  of pages mapped into the hypervisor, whose unlocked pages wait on a kernel list to be reused.  A
  \<open>struct phys_page *\<close> is the region and the number of the page in it; the page directory writes of
  \<open>vm_map_page\<close> are recorded.  Spin locks are left out.
\<close>

section \<open>State\<close>

record phys_page =
  pp_v_addr :: u32
  pp_mapped :: bool
  pp_unlocked :: bool
  pp_type :: "3 word"
  pp_counter :: "27 word"

datatype page_ref = Page (pg_region: nat) (pg_index: nat)

record physmm =
  phys_page_table :: "page_ref \<Rightarrow> phys_page"
  cache_lru :: "(unit, page_ref) dheap"
  vmm_start_addr :: u32
  num_of_frames :: int
  vm_mapped :: "(u32 \<times> u32 \<times> u32) list"

definition PAGE_SHIFT :: nat where "PAGE_SHIFT = 12"
definition PRTOSC_REG_FLAG_PGTAB :: u32 where "PRTOSC_REG_FLAG_PGTAB = 1"
definition PPAG_STD :: "3 word" where "PPAG_STD = 0"
definition PG_ATTR_PRESENT :: u32 where "PG_ATTR_PRESENT = push_bit 16 1"
definition PG_ATTR_RW :: u32 where "PG_ATTR_RW = push_bit 18 1"
definition PG_ATTR_CACHED :: u32 where "PG_ATTR_CACHED = push_bit 19 1"
definition TRACE_VMM_MODULE :: u32 where "TRACE_VMM_MODULE = 4"

definition upd_page :: "page_ref \<Rightarrow> (phys_page \<Rightarrow> phys_page) \<Rightarrow> physmm \<Rightarrow> physmm" where
  "upd_page r f m = m\<lparr>phys_page_table := (phys_page_table m)(r := f (phys_page_table m r))\<rparr>"

section \<open>Finding an area\<close>

text \<open>The binary search for the entry that holds \<open>[lo, hi]\<close>: \<open>bounds c\<close> are the first and the last
  address of entry \<open>c\<close>.\<close>

function area_search :: "(int \<Rightarrow> u32 \<times> u32) \<Rightarrow> u32 \<Rightarrow> u32 \<Rightarrow> int \<Rightarrow> int \<Rightarrow> int option" where
  "area_search bounds lo hi l r =
     (if l \<le> r then
        let c = drop_bit 1 (l + r); (a, b) = bounds c in
        if lo < a then area_search bounds lo hi l (c - 1)
        else if hi > b then area_search bounds lo hi (c + 1) r
        else Some c
      else None)"
  by pat_completeness auto
termination
  by (relation "measure (\<lambda>(_, _, _, l, r). nat (r + 1 - l))") (auto simp: drop_bit_eq_div)

declare area_search.simps [simp del]

definition region_bounds :: "prtos_conf \<Rightarrow> int \<Rightarrow> u32 \<times> u32" where
  "region_bounds c i = (let r = memory_region_table c (nat i) in
     (region_start_addr r, region_start_addr r + region_size r - 1))"

definition part_area :: "prtos_conf \<Rightarrow> nat \<Rightarrow> int \<Rightarrow> prtos_conf_memory_area" where
  "part_area c p i = phys_mem_area_table c
     (unat (word_of_int i + physical_memory_areas_offset (partition_cfg c p)))"

definition area_bounds :: "prtos_conf \<Rightarrow> nat \<Rightarrow> int \<Rightarrow> u32 \<times> u32" where
  "area_bounds c p i = (let m = part_area c p i in
     (area_start_addr m, area_start_addr m + area_size m - 1))"

text \<open>The assertion at a hit, and the page a hit leads to.\<close>

definition assert_in :: "u32 \<times> u32 \<Rightarrow> u32 \<Rightarrow> u32 \<Rightarrow> unit option" where
  "assert_in ab lo hi = ASSERT (lo \<ge> fst ab \<and> hi \<le> snd ab)"

definition page_in_region :: "prtos_conf \<Rightarrow> nat \<Rightarrow> u32 \<Rightarrow> page_ref" where
  "page_in_region c region a =
     Page region (unat (drop_bit PAGE_SHIFT (a - region_start_addr (memory_region_table c region))))"

definition phys_mm_find_anonymous_page ::
    "prtos_conf \<Rightarrow> u32 \<Rightarrow> kstate \<Rightarrow> (page_ref option \<times> kstate) option" where
  "phys_mm_find_anonymous_page c p_addr s =
     (let p_addr = p_addr AND PAGE_MASK in
      case area_search (region_bounds c) p_addr p_addr 0 (num_of_regions c - 1) of
        None \<Rightarrow> Some (None, raise_audit_event TRACE_VMM_MODULE 2 [p_addr] s)
      | Some i \<Rightarrow> do {
          _ \<leftarrow> assert_in (region_bounds c i) p_addr (p_addr + PAGE_SIZE - 1);
          if region_flags (memory_region_table c (nat i)) AND PRTOSC_REG_FLAG_PGTAB = 0 then Some (None, s)
          else Some (Some (page_in_region c (nat i) p_addr), s) })"

definition pmm_find_page ::
    "prtos_conf \<Rightarrow> u32 \<Rightarrow> nat \<Rightarrow> kstate \<Rightarrow> ((page_ref \<times> u32) option \<times> kstate) option" where
  "pmm_find_page c p_addr p s =
     (let p_addr = p_addr AND PAGE_MASK in
      case area_search (area_bounds c p) p_addr p_addr 0 (num_of_physical_memory_areas (partition_cfg c p) - 1) of
        None \<Rightarrow> Some (None, raise_audit_event TRACE_VMM_MODULE 1 [p_addr] s)
      | Some i \<Rightarrow> do {
          _ \<leftarrow> assert_in (area_bounds c p i) p_addr (p_addr + PAGE_SIZE - 1);
          let region = unat (memory_region_offset (part_area c p i));
          if region_flags (memory_region_table c region) AND PRTOSC_REG_FLAG_PGTAB = 0 then Some (None, s)
          else Some (Some (page_in_region c region p_addr, area_flags (part_area c p i)), s) })"

definition phys_mm_find_addr ::
    "prtos_conf \<Rightarrow> u32 \<Rightarrow> nat \<Rightarrow> kstate \<Rightarrow> (u32 option \<times> kstate) option" where
  "phys_mm_find_addr c p_addr p s =
     (let p_addr = p_addr AND PAGE_MASK in
      case area_search (area_bounds c p) p_addr p_addr 0 (num_of_physical_memory_areas (partition_cfg c p) - 1) of
        None \<Rightarrow> Some (None, raise_audit_event TRACE_VMM_MODULE 1 [p_addr] s)
      | Some i \<Rightarrow> do {
          _ \<leftarrow> assert_in (area_bounds c p i) p_addr (p_addr + PAGE_SIZE - 1);
          Some (Some (area_flags (part_area c p i)), s) })"

text \<open>\<open>phys_mm_find_area\<close> with a partition, or without one; the value found are the flags.\<close>

definition phys_mm_find_area :: "prtos_conf \<Rightarrow> u32 \<Rightarrow> int \<Rightarrow> nat option \<Rightarrow> u32 option option" where
  "phys_mm_find_area c p_addr sz p =
     (let last = p_addr + word_of_int sz - 1 in
      case p of
        Some p \<Rightarrow> (case area_search (area_bounds c p) p_addr last 0 (num_of_physical_memory_areas (partition_cfg c p) - 1) of
            None \<Rightarrow> Some None
          | Some i \<Rightarrow> do {
              _ \<leftarrow> assert_in (area_bounds c p i) p_addr last;
              Some (Some (area_flags (part_area c p i))) })
      | None \<Rightarrow> (case area_search (region_bounds c) p_addr last 0 (num_of_regions c - 1) of
            None \<Rightarrow> Some None
          | Some i \<Rightarrow> do {
              _ \<leftarrow> assert_in (region_bounds c i) p_addr last;
              Some (Some (region_flags (memory_region_table c (nat i)))) }))"

section \<open>Page counters\<close>

text \<open>The counter is a field of 27 bits; \<open>None\<close> is \<open>part_panic\<close>.\<close>

definition phys_page_inc_counter :: "page_ref \<Rightarrow> physmm \<Rightarrow> physmm option" where
  "phys_page_inc_counter r m =
     (let cnt = ucast (pp_counter (phys_page_table m r)) :: u32;
          m = upd_page r (\<lambda>p. p\<lparr>pp_counter := pp_counter p + 1\<rparr>) m
      in if cnt = NOT 0 then None else Some m)"

definition phys_page_dec_counter :: "page_ref \<Rightarrow> physmm \<Rightarrow> physmm option" where
  "phys_page_dec_counter r m =
     (let cnt = ucast (pp_counter (phys_page_table m r)) :: u32;
          m = upd_page r (\<lambda>p. p\<lparr>pp_counter := pp_counter p - 1\<rparr>) m
      in if cnt = 0 then None else Some m)"

section \<open>Frames and the page cache\<close>

definition vmm_alloc :: "int \<Rightarrow> physmm \<Rightarrow> (u32 \<times> physmm) option" where
  "vmm_alloc num_of_pages m =
     (if num_of_frames m - num_of_pages < 0 then Some (0, m)
      else do {
        let v_addr = vmm_start_addr m;
        let m = m\<lparr>vmm_start_addr := vmm_start_addr m + word_of_int (push_bit PAGE_SHIFT num_of_pages),
                  num_of_frames := num_of_frames m - num_of_pages\<rparr>;
        _ \<leftarrow> ASSERT (num_of_frames m \<ge> 0);
        Some (v_addr, m) })"

definition vmm_get_num_of_free_frames :: "physmm \<Rightarrow> int option" where
  "vmm_get_num_of_free_frames m = do {
     _ \<leftarrow> ASSERT (num_of_frames m \<ge> 0);
     Some (num_of_frames m) }"

definition vcache_map_page :: "u32 \<Rightarrow> page_ref \<Rightarrow> physmm \<Rightarrow> (u32 \<times> physmm) option" where
  "vcache_map_page p_addr page m =
     (if pp_mapped (phys_page_table m page)
      then Some (pp_v_addr (phys_page_table m page) + (p_addr AND (PAGE_SIZE - 1)), m)
      else do {
        n \<leftarrow> vmm_get_num_of_free_frames m;
        m \<leftarrow> (if n \<le> 0 then do {
                 (victim, lru) \<leftarrow> dyn_list_remove_tail () (cache_lru m);
                 victim \<leftarrow> victim;
                 let m = m\<lparr>cache_lru := lru\<rparr>;
                 let m = upd_page victim (\<lambda>p. p\<lparr>pp_unlocked := False, pp_mapped := False\<rparr>) m;
                 let m = upd_page page (\<lambda>p. p\<lparr>pp_v_addr := pp_v_addr (phys_page_table m victim)\<rparr>) m;
                 Some (upd_page victim (\<lambda>p. p\<lparr>pp_v_addr := NOT 0\<rparr>) m) }
              else do {
                 (v, m) \<leftarrow> vmm_alloc 1 m;
                 Some (upd_page page (\<lambda>p. p\<lparr>pp_v_addr := v\<rparr>) m) });
        let m = upd_page page (\<lambda>p. p\<lparr>pp_mapped := True\<rparr>) m;
        let v = pp_v_addr (phys_page_table m page);
        let m = m\<lparr>vm_mapped := vm_mapped m @ [(p_addr AND PAGE_MASK, v, PG_ATTR_PRESENT OR PG_ATTR_RW OR PG_ATTR_CACHED)]\<rparr>;
        Some (v + (p_addr AND (PAGE_SIZE - 1)), m) })"

definition vcache_unlock_page :: "page_ref \<Rightarrow> physmm \<Rightarrow> physmm option" where
  "vcache_unlock_page page m = do {
     _ \<leftarrow> ASSERT (pp_mapped (phys_page_table m page));
     if pp_unlocked (phys_page_table m page) then Some m
     else do {
       let m = upd_page page (\<lambda>p. p\<lparr>pp_unlocked := True\<rparr>) m;
       (_, lru) \<leftarrow> dyn_list_insert_head () page (cache_lru m);
       Some (m\<lparr>cache_lru := lru\<rparr>) } }"

text \<open>The pages of an area, from its first address.  The loop ends when the address wraps past the
  end of the area or when \<open>fuel\<close> pages are done; an area has less than \<open>2 ^ 20\<close> pages.\<close>

fun reset_pages :: "nat \<Rightarrow> (u32 \<Rightarrow> page_ref) \<Rightarrow> u32 \<Rightarrow> u32 \<Rightarrow> physmm \<Rightarrow> physmm option" where
  "reset_pages 0 pg addr lim m = None"
| "reset_pages (Suc fuel) pg addr lim m =
     (if addr < lim then do {
        let m = upd_page (pg addr) (\<lambda>p. p\<lparr>pp_type := PPAG_STD, pp_counter := 0\<rparr>) m;
        m \<leftarrow> (if pp_mapped (phys_page_table m (pg addr)) then vcache_unlock_page (pg addr) m else Some m);
        reset_pages fuel pg (addr + PAGE_SIZE) lim m }
      else Some m)"

definition phys_mm_reset_part :: "prtos_conf \<Rightarrow> nat \<Rightarrow> physmm \<Rightarrow> physmm option" where
  "phys_mm_reset_part c p m =
     foldM (\<lambda>e m.
       let area = part_area c p (int e);
           region = unat (memory_region_offset area)
       in if region_flags (memory_region_table c region) AND PRTOSC_REG_FLAG_PGTAB \<noteq> 0
          then reset_pages (2 ^ 20) (page_in_region c region) (area_start_addr area)
                 (area_start_addr area + area_size area) m
          else Some m)
       [0..<nat (num_of_physical_memory_areas (partition_cfg c p))] m"

definition setup_phys_mm :: "prtos_conf \<Rightarrow> physmm \<Rightarrow> physmm option" where
  "setup_phys_mm c m = do {
     let m = m\<lparr>cache_lru := dyn_list_init () (cache_lru m)\<rparr>;
     foldM (\<lambda>e m. do {
       let r = memory_region_table c e;
       _ \<leftarrow> ASSERT (region_size r AND (PAGE_SIZE - 1) = 0 \<and> region_start_addr r AND (PAGE_SIZE - 1) = 0);
       Some (if region_flags r AND PRTOSC_REG_FLAG_PGTAB \<noteq> 0
             then m\<lparr>phys_page_table := \<lambda>q. if pg_region q = e \<and> pg_index q < unat (region_size r div PAGE_SIZE)
                     then \<lparr>pp_v_addr = 0, pp_mapped = False, pp_unlocked = False, pp_type = 0, pp_counter = 0\<rparr>
                     else phys_page_table m q\<rparr>
             else m) }) [0..<nat (num_of_regions c)] m }"

section \<open>The search finds the area\<close>

lemma area_search_Some:
  "area_search bd lo hi l r = Some i \<Longrightarrow> l \<le> i \<and> i \<le> r \<and> fst (bd i) \<le> lo \<and> hi \<le> snd (bd i)"
proof (induction bd lo hi l r rule: area_search.induct)
  case (1 bd lo hi l r)
  let ?c = "drop_bit 1 (l + r)"
  have lr: "l \<le> r" using 1(3) by (subst (asm) area_search.simps) (simp split: if_splits)
  have c: "l \<le> ?c" "?c \<le> r" using lr by (simp_all add: drop_bit_eq_div)
  obtain a b where ab: "bd ?c = (a, b)" by fastforce
  consider "lo < a" | "\<not> lo < a" "hi > b" | "\<not> lo < a" "\<not> hi > b" by blast
  then show ?case
  proof cases
    case 1
    have "area_search bd lo hi l (?c - 1) = Some i"
      using "1.prems" 1 ab lr by (subst (asm) area_search.simps) (simp add: Let_def)
    from "1.IH"(1) [OF lr refl ab [symmetric] refl 1 this] c show ?thesis by auto
  next
    case 2
    have "area_search bd lo hi (?c + 1) r = Some i"
      using "1.prems" 2 ab lr by (subst (asm) area_search.simps) (simp add: Let_def)
    from "1.IH"(2) [OF lr refl ab [symmetric] refl 2 this] c show ?thesis by auto
  next
    case 3
    have "i = ?c" using "1.prems" 3 ab lr by (subst (asm) area_search.simps) (simp add: Let_def)
    then show ?thesis using c ab 3 by auto
  qed
qed

text \<open>In a table of disjoint entries in ascending order, an entry that holds the range is found.\<close>

definition ascending :: "(int \<Rightarrow> u32 \<times> u32) \<Rightarrow> int \<Rightarrow> bool" where
  "ascending bd n \<longleftrightarrow> (\<forall>i. 0 \<le> i \<and> i < n \<longrightarrow> fst (bd i) \<le> snd (bd i)) \<and>
     (\<forall>i j. 0 \<le> i \<and> i < j \<and> j < n \<longrightarrow> snd (bd i) < fst (bd j))"

lemma ascending_le: "ascending bd n \<Longrightarrow> 0 \<le> i \<Longrightarrow> i < n \<Longrightarrow> fst (bd i) \<le> snd (bd i)"
  by (simp add: ascending_def)

lemma ascending_less:
  "ascending bd n \<Longrightarrow> 0 \<le> i \<Longrightarrow> i < j \<Longrightarrow> j < n \<Longrightarrow> snd (bd i) < fst (bd j)"
  by (simp add: ascending_def)

lemma area_search_finds:
  assumes asc: "ascending bd n" and lh: "lo \<le> hi"
  shows "0 \<le> l \<Longrightarrow> l \<le> k \<Longrightarrow> k \<le> r \<Longrightarrow> r < n \<Longrightarrow> fst (bd k) \<le> lo \<Longrightarrow> hi \<le> snd (bd k) \<Longrightarrow>
    area_search bd lo hi l r = Some k"
proof (induction "nat (r + 1 - l)" arbitrary: l r rule: less_induct)
  case less
  let ?c = "drop_bit 1 (l + r)"
  have lr: "l \<le> r" using less.prems by simp
  have c: "l \<le> ?c" "?c \<le> r" using lr by (simp_all add: drop_bit_eq_div)
  obtain a b where ab: "bd ?c = (a, b)" by fastforce
  have step: "area_search bd lo hi l r = (if lo < a then area_search bd lo hi l (?c - 1)
      else if hi > b then area_search bd lo hi (?c + 1) r else Some ?c)"
    using lr ab by (subst area_search.simps) (simp add: Let_def)
  consider "k < ?c" | "k = ?c" | "?c < k" by linarith
  then show ?case
  proof cases
    case 1
    then have "snd (bd k) < a" using ascending_less [OF asc, of k ?c] less.prems c ab by simp
    then have "lo < a" using less.prems lh by (meson le_less_trans order_trans)
    moreover have "area_search bd lo hi l (?c - 1) = Some k"
      using less.hyps [of "?c - 1" l] less.prems 1 c by simp
    ultimately show ?thesis unfolding step by simp
  next
    case 2
    then show ?thesis using less.prems ab unfolding step by auto
  next
    case 3
    then have b: "b < fst (bd k)" "a \<le> b"
      using ascending_less [OF asc, of ?c k] ascending_le [OF asc, of ?c] less.prems c ab by simp_all
    from b(1) less.prems(5) have "b < lo" by (rule less_le_trans)
    with b(2) lh have "\<not> lo < a" "hi > b" by simp_all
    moreover have "area_search bd lo hi (?c + 1) r = Some k"
      using less.hyps [of r "?c + 1"] less.prems 3 c by simp
    ultimately show ?thesis unfolding step by simp
  qed
qed

text \<open>The areas of a partition: not empty, within the address space, disjoint, in ascending order.\<close>

definition nr_areas :: "prtos_conf \<Rightarrow> nat \<Rightarrow> int" where
  "nr_areas c p = num_of_physical_memory_areas (partition_cfg c p)"

definition areas_wf :: "prtos_conf \<Rightarrow> nat \<Rightarrow> bool" where
  "areas_wf c p \<longleftrightarrow>
     (\<forall>i. 0 \<le> i \<and> i < nr_areas c p \<longrightarrow> 0 < uint (area_size (part_area c p i)) \<and>
        uint (area_start_addr (part_area c p i)) + uint (area_size (part_area c p i)) \<le> 2 ^ 32) \<and>
     (\<forall>i j. 0 \<le> i \<and> i < j \<and> j < nr_areas c p \<longrightarrow>
        uint (area_start_addr (part_area c p i)) + uint (area_size (part_area c p i))
          \<le> uint (area_start_addr (part_area c p j)))"

text \<open>The range \<open>[a, a + sz)\<close> lies in area \<open>i\<close> of partition \<open>p\<close>.\<close>

definition in_area :: "prtos_conf \<Rightarrow> nat \<Rightarrow> int \<Rightarrow> u32 \<Rightarrow> int \<Rightarrow> bool" where
  "in_area c p i a sz \<longleftrightarrow> uint (area_start_addr (part_area c p i)) \<le> uint a \<and>
     uint a + sz \<le> uint (area_start_addr (part_area c p i)) + uint (area_size (part_area c p i))"

lemma uint_last:
  assumes "0 < sz" "uint (a :: u32) + sz \<le> 2 ^ 32"
  shows "uint (a + word_of_int sz - 1) = uint a + sz - 1"
proof -
  have "a + word_of_int sz - 1 = word_of_int (uint a + sz - 1)" by simp
  moreover have "uint (word_of_int (uint a + sz - 1) :: u32) = uint a + sz - 1"
    using assms uint_ge_0 [of a] by (intro uint_word_of_int_u32) linarith+
  ultimately show ?thesis by simp
qed

lemma area_last:
  assumes "areas_wf c p" "0 \<le> i" "i < nr_areas c p"
  shows "uint (snd (area_bounds c p i)) = uint (area_start_addr (part_area c p i)) + uint (area_size (part_area c p i)) - 1"
  using uint_last [of "uint (area_size (part_area c p i))" "area_start_addr (part_area c p i)"] assms
  by (simp add: areas_wf_def area_bounds_def Let_def)

lemma areas_ascending:
  assumes wf: "areas_wf c p"
  shows "ascending (area_bounds c p) (nr_areas c p)"
proof -
  have "fst (area_bounds c p i) \<le> snd (area_bounds c p i)" if "0 \<le> i" "i < nr_areas c p" for i
    using area_last [OF wf that] wf that unfolding word_le_def
    by (simp add: area_bounds_def areas_wf_def Let_def)
  moreover have "snd (area_bounds c p i) < fst (area_bounds c p j)" if "0 \<le> i" "i < j" "j < nr_areas c p" for i j
    using area_last [OF wf, of i] wf that unfolding word_less_def
    by (fastforce simp: area_bounds_def areas_wf_def Let_def)
  ultimately show ?thesis by (auto simp: ascending_def)
qed

lemma in_area_bounds:
  assumes wf: "areas_wf c p" and i: "0 \<le> i" "i < nr_areas c p" and sz: "0 < sz" "uint a + sz \<le> 2 ^ 32"
  shows "in_area c p i a sz \<longleftrightarrow>
    fst (area_bounds c p i) \<le> a \<and> a + word_of_int sz - 1 \<le> snd (area_bounds c p i)"
  using area_last [OF wf i] uint_last [OF sz] by (auto simp: in_area_def word_le_def area_bounds_def Let_def)

text \<open>C13. The binary search for the memory area of a partition agrees with the definition of
  membership: a range that does not wrap is found, with the flags of its area, exactly when it lies
  in one of the areas, and the search always ends.\<close>

theorem phys_mm_find_area_correct:
  assumes wf: "areas_wf c p" and sz: "0 < sz" "uint a + sz \<le> 2 ^ 32"
  shows "(\<forall>i. 0 \<le> i \<and> i < nr_areas c p \<and> in_area c p i a sz \<longrightarrow>
      phys_mm_find_area c a sz (Some p) = Some (Some (area_flags (part_area c p i)))) \<and>
    ((\<forall>i. 0 \<le> i \<and> i < nr_areas c p \<longrightarrow> \<not> in_area c p i a sz) \<longrightarrow>
      phys_mm_find_area c a sz (Some p) = Some None)"
proof -
  let ?last = "a + word_of_int sz - 1" and ?n = "nr_areas c p"
  let ?s = "area_search (area_bounds c p) a ?last 0 (?n - 1)"
  have le: "a \<le> ?last" using uint_last [OF sz] sz by (simp add: word_le_def)
  have found: "?s = Some i" if "0 \<le> i" "i < ?n" "in_area c p i a sz" for i
    using that in_area_bounds [OF wf that(1,2) sz]
    by (intro area_search_finds [OF areas_ascending [OF wf] le]) simp_all
  have result: "phys_mm_find_area c a sz (Some p) = Some (map_option (\<lambda>i. area_flags (part_area c p i)) ?s)"
    using area_search_Some [of "area_bounds c p" a ?last 0 "?n - 1"]
    by (auto simp: phys_mm_find_area_def nr_areas_def Let_def assert_in_def split: option.splits)
  have "?s = None" if "\<forall>i. 0 \<le> i \<and> i < ?n \<longrightarrow> \<not> in_area c p i a sz"
  proof (rule ccontr)
    assume "?s \<noteq> None"
    then obtain i where s: "?s = Some i" by blast
    from area_search_Some [OF s] in_area_bounds [OF wf _ _ sz, of i] that show False by auto
  qed
  with found result show ?thesis by auto
qed

section \<open>The cache of mapped pages\<close>

lemma upd_page_simps [simp]:
  "phys_page_table (upd_page r f m) q = (if q = r then f (phys_page_table m r) else phys_page_table m q)"
  "cache_lru (upd_page r f m) = cache_lru m" "vmm_start_addr (upd_page r f m) = vmm_start_addr m"
  "num_of_frames (upd_page r f m) = num_of_frames m" "vm_mapped (upd_page r f m) = vm_mapped m"
  by (simp_all add: upd_page_def)

lemma upd_page_swap: "r \<noteq> q \<Longrightarrow> upd_page r f (upd_page q g m) = upd_page q g (upd_page r f m)"
  by (simp add: upd_page_def fun_upd_twist)

lemma upd_page_twice: "upd_page r f (upd_page r g m) = upd_page r (\<lambda>p. f (g p)) m"
  by (simp add: upd_page_def)

text \<open>The physical page a virtual frame shows: the last one \<open>vm_map_page\<close> put there.\<close>

definition window :: "physmm \<Rightarrow> u32 \<Rightarrow> u32 option" where
  "window m v = map_of (rev (map (\<lambda>(p, v, _). (v, p)) (vm_mapped m))) v"

definition apart :: "u32 \<Rightarrow> u32 \<Rightarrow> bool" where
  "apart v w \<longleftrightarrow> uint v + 4096 \<le> uint w \<or> uint w + 4096 \<le> uint v"

text \<open>The cache is consistent, with the unlocked pages \<open>lru\<close> from the last used to the first: the
  list links the unlocked pages, which are mapped; every mapped page has a frame of its own below
  the first free one, which shows it; the free frames end below the top of the address space.\<close>

definition vcache_ok :: "(page_ref \<Rightarrow> u32) \<Rightarrow> physmm \<Rightarrow> page_ref list \<Rightarrow> bool" where
  "vcache_ok pa m lru \<longleftrightarrow> dl_rep (cache_lru m) () lru \<and>
     (\<forall>r. r \<in> set lru \<longleftrightarrow> pp_unlocked (phys_page_table m r)) \<and>
     (\<forall>r. pp_unlocked (phys_page_table m r) \<longrightarrow> pp_mapped (phys_page_table m r)) \<and>
     (\<forall>r. \<not> pp_unlocked (phys_page_table m r) \<longrightarrow> dl_detached (cache_lru m) r) \<and>
     (\<forall>r. pp_mapped (phys_page_table m r) \<longrightarrow>
        uint (pp_v_addr (phys_page_table m r)) + 4096 \<le> uint (vmm_start_addr m) \<and>
        window m (pp_v_addr (phys_page_table m r)) = Some (pa r)) \<and>
     (\<forall>r q. pp_mapped (phys_page_table m r) \<longrightarrow> pp_mapped (phys_page_table m q) \<longrightarrow> r \<noteq> q \<longrightarrow>
        apart (pp_v_addr (phys_page_table m r)) (pp_v_addr (phys_page_table m q))) \<and>
     0 \<le> num_of_frames m \<and> uint (vmm_start_addr m) + 4096 * num_of_frames m < 2 ^ 32"

text \<open>Giving an unmapped page a frame that is apart from the others.\<close>

definition give_frame :: "page_ref \<Rightarrow> u32 \<Rightarrow> u32 \<Rightarrow> physmm \<Rightarrow> physmm" where
  "give_frame page p v m = (let m = upd_page page (\<lambda>r. r\<lparr>pp_v_addr := v, pp_mapped := True\<rparr>) m
     in m\<lparr>vm_mapped := vm_mapped m @ [(p, v, PG_ATTR_PRESENT OR PG_ATTR_RW OR PG_ATTR_CACHED)]\<rparr>)"

lemma give_frame_simps [simp]:
  "phys_page_table (give_frame page p v m) q = (if q = page then (phys_page_table m page)\<lparr>pp_v_addr := v, pp_mapped := True\<rparr> else phys_page_table m q)"
  "cache_lru (give_frame page p v m) = cache_lru m" "vmm_start_addr (give_frame page p v m) = vmm_start_addr m"
  "num_of_frames (give_frame page p v m) = num_of_frames m"
  "window (give_frame page p v m) w = (if w = v then Some p else window m w)"
  by (simp_all add: give_frame_def window_def Let_def)

lemma give_frame_ok:
  assumes ok: "vcache_ok pa m lru" and "\<not> pp_mapped (phys_page_table m page)"
    and "uint v + 4096 \<le> uint (vmm_start_addr m)"
    and ap: "\<And>r. pp_mapped (phys_page_table m r) \<Longrightarrow> apart v (pp_v_addr (phys_page_table m r))"
  shows "vcache_ok pa (give_frame page (pa page) v m) lru"
proof -
  have ne: "pp_v_addr (phys_page_table m r) \<noteq> v" if "pp_mapped (phys_page_table m r)" for r
    using ap [OF that] by (auto simp: apart_def)
  have sym: "apart (pp_v_addr (phys_page_table m r)) v" if "pp_mapped (phys_page_table m r)" for r
    using ap [OF that] by (auto simp: apart_def)
  from ok assms(2,3) ap sym show ?thesis
    unfolding vcache_ok_def by (intro conjI allI impI) (auto dest: ne split: if_splits)
qed

text \<open>The reuse of the frame of the page unlocked first.\<close>

lemma evict_ok:
  assumes ok: "vcache_ok pa m (xs @ [x])"
  shows "\<exists>h. dyn_list_remove_tail () (cache_lru m) = Some (Some x, h) \<and>
    vcache_ok pa (upd_page x (\<lambda>p. p\<lparr>pp_unlocked := False, pp_mapped := False, pp_v_addr := NOT 0\<rparr>) (m\<lparr>cache_lru := h\<rparr>)) xs"
proof -
  have rep: "dl_rep (cache_lru m) () (xs @ [x])" using ok by (simp add: vcache_ok_def)
  obtain h where h: "dyn_list_remove_tail () (cache_lru m) = Some (Some x, h)" "dl_rep h () xs"
    "dl_detached h x" "dl_frame () (set (xs @ [x])) (cache_lru m) h"
    using remove_tail_rep [OF rep] by blast
  have "x \<notin> set xs" using rep by (simp add: dl_rep_def)
  moreover have "dl_detached h r" if "\<not> pp_unlocked (phys_page_table m r)" for r
    using dl_detached_frame [OF h(4), of r] ok that by (auto simp: vcache_ok_def)
  ultimately show ?thesis using ok h(1-3)
    by (intro exI [of _ h]) (auto simp: vcache_ok_def window_def)
qed

lemma free_frames: "0 \<le> num_of_frames m \<Longrightarrow> vmm_get_num_of_free_frames m = Some (num_of_frames m)"
  by (simp add: vmm_get_num_of_free_frames_def)

text \<open>A frame is taken from the free ones while there are any.\<close>

lemma alloc_ok:
  assumes ok: "vcache_ok pa m lru" and f: "0 < num_of_frames m"
  shows "\<exists>m1. vmm_alloc 1 m = Some (vmm_start_addr m, m1) \<and> vcache_ok pa m1 lru \<and>
    phys_page_table m1 = phys_page_table m \<and> window m1 = window m \<and>
    uint (vmm_start_addr m) + 4096 \<le> uint (vmm_start_addr m1)"
proof -
  let ?m1 = "m\<lparr>vmm_start_addr := vmm_start_addr m + 4096, num_of_frames := num_of_frames m - 1\<rparr>"
  have lim: "uint (vmm_start_addr m) + 4096 * num_of_frames m < 2 ^ 32" using ok by (simp add: vcache_ok_def)
  with f have "uint (vmm_start_addr m) + 4096 < 2 ^ 32" by simp
  then have st: "uint (vmm_start_addr m + 4096) = uint (vmm_start_addr m) + 4096"
    by (subst uint_add_lem [THEN iffD1]) simp_all
  with ok lim f have "vcache_ok pa ?m1 lru"
    unfolding vcache_ok_def window_def by (auto simp: algebra_simps)
  then show ?thesis using f st
    by (intro exI [of _ ?m1]) (simp add: vmm_alloc_def Let_def window_def fun_eq_iff PAGE_SHIFT_def)
qed

lemma map_page_works:
  assumes ok: "vcache_ok pa m lru" and pa: "p_addr AND PAGE_MASK = pa page"
    and room: "pp_mapped (phys_page_table m page) \<or> 0 < num_of_frames m \<or> lru \<noteq> []"
  shows "\<exists>v m' lru'. vcache_map_page p_addr page m = Some (v + (p_addr AND (PAGE_SIZE - 1)), m') \<and>
    vcache_ok pa m' lru' \<and> pp_mapped (phys_page_table m' page) \<and>
    pp_v_addr (phys_page_table m' page) = v \<and> window m' v = Some (pa page) \<and>
    (lru' = lru \<or> num_of_frames m = 0 \<and> lru' = butlast lru) \<and>
    (\<forall>q. q \<noteq> page \<and> pp_mapped (phys_page_table m q) \<and> \<not> (lru' \<noteq> lru \<and> q = last lru) \<longrightarrow>
       phys_page_table m' q = phys_page_table m q)"
proof (cases "pp_mapped (phys_page_table m page)")
  case True
  then show ?thesis using ok
    by (intro exI [of _ "pp_v_addr (phys_page_table m page)"] exI [of _ m] exI [of _ lru])
      (simp add: vcache_map_page_def vcache_ok_def)
next
  case unmapped: False
  have n: "0 \<le> num_of_frames m" using ok by (simp add: vcache_ok_def)
  show ?thesis
  proof (cases "0 < num_of_frames m")
    case True
    obtain m1 where m1: "vmm_alloc 1 m = Some (vmm_start_addr m, m1)" "vcache_ok pa m1 lru"
      "phys_page_table m1 = phys_page_table m" "window m1 = window m"
      "uint (vmm_start_addr m) + 4096 \<le> uint (vmm_start_addr m1)" using alloc_ok [OF ok True] by blast
    have "apart (vmm_start_addr m) (pp_v_addr (phys_page_table m r))" if "pp_mapped (phys_page_table m r)" for r
      using ok that by (simp add: vcache_ok_def apart_def)
    then have "vcache_ok pa (give_frame page (pa page) (vmm_start_addr m) m1) lru"
      using m1 unmapped by (intro give_frame_ok) simp_all
    moreover have "vcache_map_page p_addr page m = Some (vmm_start_addr m + (p_addr AND (PAGE_SIZE - 1)),
        give_frame page (pa page) (vmm_start_addr m) m1)"
      using m1(1,3) True unmapped pa
      by (simp add: vcache_map_page_def free_frames Let_def give_frame_def upd_page_twice)
    ultimately show ?thesis using m1 pa
      by (intro exI [of _ "vmm_start_addr m"] exI [of _ "give_frame page (pa page) (vmm_start_addr m) m1"] exI [of _ lru]) simp
  next
    case False
    then obtain xs x where lru: "lru = xs @ [x]" using room unmapped by (cases lru rule: rev_cases) auto
    let ?v = "pp_v_addr (phys_page_table m x)"
    obtain h where h: "dyn_list_remove_tail () (cache_lru m) = Some (Some x, h)"
      and ev: "vcache_ok pa (upd_page x (\<lambda>p. p\<lparr>pp_unlocked := False, pp_mapped := False, pp_v_addr := NOT 0\<rparr>) (m\<lparr>cache_lru := h\<rparr>)) xs"
      (is "vcache_ok pa ?m1 xs") using evict_ok [of pa m xs x] ok lru by blast
    have x: "pp_mapped (phys_page_table m x)" using ok lru by (auto simp: vcache_ok_def)
    then have px: "page \<noteq> x" using unmapped by auto
    have "apart ?v (pp_v_addr (phys_page_table m r))" if "pp_mapped (phys_page_table m r)" "r \<noteq> x" for r
      using ok that x by (simp add: vcache_ok_def)
    then have g: "vcache_ok pa (give_frame page (pa page) ?v ?m1) xs"
      using ev unmapped x ok px by (intro give_frame_ok) (auto simp: vcache_ok_def)
    have "vcache_map_page p_addr page m = Some (?v + (p_addr AND (PAGE_SIZE - 1)), give_frame page (pa page) ?v ?m1)"
      using h False unmapped pa n px
      by (simp add: vcache_map_page_def free_frames Let_def give_frame_def upd_page_twice upd_page_swap [of page x])
    then show ?thesis using g n False lru px
      by (intro exI [of _ ?v] exI [of _ "give_frame page (pa page) ?v ?m1"] exI [of _ xs]) simp
  qed
qed

text \<open>C12. Mapping a page into the hypervisor works whenever the page is mapped, a frame is free or a
  page is unlocked: the page is then mapped at the address returned, less the offset in the page,
  and its frame shows it.  At most one other page loses its frame, the one unlocked first, and only
  when no frame is free; the pages in use keep theirs, and the cache stays consistent.\<close>

theorem vcache_map_page_correct:
  assumes ok: "vcache_ok pa m lru" and pa: "p_addr AND PAGE_MASK = pa page"
    and room: "pp_mapped (phys_page_table m page) \<or> 0 < num_of_frames m \<or> lru \<noteq> []"
  shows "\<exists>v m' lru'. vcache_map_page p_addr page m = Some (v + (p_addr AND (PAGE_SIZE - 1)), m') \<and>
    vcache_ok pa m' lru' \<and> pp_mapped (phys_page_table m' page) \<and>
    pp_v_addr (phys_page_table m' page) = v \<and> window m' v = Some (pa page) \<and>
    (lru' = lru \<or> num_of_frames m = 0 \<and> lru' = butlast lru) \<and>
    (\<forall>q. q \<noteq> page \<and> pp_mapped (phys_page_table m q) \<and> \<not> (lru' \<noteq> lru \<and> q = last lru) \<longrightarrow>
       phys_page_table m' q = phys_page_table m q)"
  using assms by (rule map_page_works)

text \<open>Two frames taken from \<open>0xFD000000\<close>; the first shows the unlocked page 0, the second page 1, in use.\<close>

definition demo_page_addr :: "page_ref \<Rightarrow> u32" where
  "demo_page_addr r = 0x6000000 + push_bit PAGE_SHIFT (of_nat (pg_index r))"

definition demo_cache :: physmm where
  "demo_cache = \<lparr>phys_page_table = (\<lambda>r. if r = Page 0 0
       then \<lparr>pp_v_addr = 0xFD000000, pp_mapped = True, pp_unlocked = True, pp_type = 0, pp_counter = 0\<rparr>
       else if r = Page 0 1
       then \<lparr>pp_v_addr = 0xFD001000, pp_mapped = True, pp_unlocked = False, pp_type = 0, pp_counter = 0\<rparr>
       else \<lparr>pp_v_addr = 0, pp_mapped = False, pp_unlocked = False, pp_type = 0, pp_counter = 0\<rparr>),
     cache_lru = \<lparr>nodes = (\<lambda>r. if r = Page 0 0
         then \<lparr>dn_list = Some (), dn_prev = Some (Page 0 0), dn_next = Some (Page 0 0)\<rparr>
         else \<lparr>dn_list = None, dn_prev = None, dn_next = None\<rparr>),
       dlists = (\<lambda>_. \<lparr>dl_head = Some (Page 0 0), dl_num = 1\<rparr>)\<rparr>,
     vmm_start_addr = 0xFD002000, num_of_frames = 0,
     vm_mapped = [(0x6000000, 0xFD000000, 0), (0x6001000, 0xFD001000, 0)]\<rparr>"

lemma demo_cache_ok: "vcache_ok demo_page_addr demo_cache [Page 0 0]"
  unfolding vcache_ok_def
  by (auto simp: demo_cache_def demo_page_addr_def dl_rep_def dl_cycle_def dl_detached_def
      window_def apart_def PAGE_SHIFT_def push_bit_eq_mult split: if_splits)

theorem vcache_map_page_correct_witness:
  "\<exists>v m' lru'. vcache_map_page 0x6002010 (Page 0 2) demo_cache = Some (v + 0x10, m') \<and>
    vcache_ok demo_page_addr m' lru' \<and> window m' v = Some 0x6002000"
  using vcache_map_page_correct [of demo_page_addr demo_cache "[Page 0 0]" "0x6002010" "Page 0 2", OF demo_cache_ok]
  by (auto simp: PAGE_MASK_def PAGE_SIZE_def demo_page_addr_def PAGE_SHIFT_def)

lemma unlock_page_works:
  assumes ok: "vcache_ok pa m lru" and mapped: "pp_mapped (phys_page_table m page)"
  shows "\<exists>m'. vcache_unlock_page page m = Some m' \<and> pp_unlocked (phys_page_table m' page) \<and>
    vcache_ok pa m' (if page \<in> set lru then lru else page # lru) \<and>
    (\<forall>r. pp_mapped (phys_page_table m' r) = pp_mapped (phys_page_table m r) \<and>
         pp_v_addr (phys_page_table m' r) = pp_v_addr (phys_page_table m r)) \<and>
    vcache_unlock_page page m' = Some m'"
proof (cases "page \<in> set lru")
  case True
  then show ?thesis using ok mapped
    by (intro exI [of _ m]) (auto simp: vcache_unlock_page_def vcache_ok_def)
next
  case False
  then have u: "\<not> pp_unlocked (phys_page_table m page)" using ok by (auto simp: vcache_ok_def)
  then have "dl_rep (cache_lru m) () lru" "dl_detached (cache_lru m) page" using ok by (auto simp: vcache_ok_def)
  from insert_head_rep [OF this] obtain h where h: "dyn_list_insert_head () page (cache_lru m) = Some (0, h)"
    "dl_rep h () (page # lru)" "dl_frame () (insert page (set lru)) (cache_lru m) h" by blast
  let ?m = "upd_page page (\<lambda>p. p\<lparr>pp_unlocked := True\<rparr>) m\<lparr>cache_lru := h\<rparr>"
  have "dl_detached h r" if "r \<noteq> page" "\<not> pp_unlocked (phys_page_table m r)" for r
    using dl_detached_frame [OF h(3), of r] ok that by (auto simp: vcache_ok_def)
  then have "vcache_ok pa ?m (page # lru)" using ok mapped h(2)
    by (auto simp: vcache_ok_def window_def)
  moreover have "vcache_unlock_page page m = Some ?m" using u mapped h(1)
    by (simp add: vcache_unlock_page_def)
  ultimately show ?thesis using False mapped
    by (intro exI [of _ ?m]) (simp add: vcache_unlock_page_def)
qed

text \<open>C33. Releasing a mapped page leaves the cache consistent, with the page in front of those that
  may lose their frame, and changes no mapping; releasing it again changes nothing.\<close>

theorem vcache_unlock_page_correct:
  assumes ok: "vcache_ok pa m lru" and mapped: "pp_mapped (phys_page_table m page)"
  shows "\<exists>m'. vcache_unlock_page page m = Some m' \<and> pp_unlocked (phys_page_table m' page) \<and>
    vcache_ok pa m' (if page \<in> set lru then lru else page # lru) \<and>
    (\<forall>r. pp_mapped (phys_page_table m' r) = pp_mapped (phys_page_table m r) \<and>
         pp_v_addr (phys_page_table m' r) = pp_v_addr (phys_page_table m r)) \<and>
    vcache_unlock_page page m' = Some m'"
  using assms by (rule unlock_page_works)

theorem vcache_unlock_page_correct_witness:
  "\<exists>m'. vcache_unlock_page (Page 0 1) demo_cache = Some m' \<and> vcache_ok demo_page_addr m' [Page 0 1, Page 0 0]"
  using vcache_unlock_page_correct [of demo_page_addr demo_cache "[Page 0 0]" "Page 0 1", OF demo_cache_ok]
  by (auto simp: demo_cache_def)

text \<open>C35. A page that was released and is mapped again stays among those that may lose their frame:
  when no frame is free and it is the only one, mapping any other page takes its frame away while
  its user still holds the address, which now shows the other page.\<close>

theorem vcache_map_page_steals:
  assumes ok: "vcache_ok pa m [q]" and none: "num_of_frames m = 0"
    and r: "\<not> pp_mapped (phys_page_table m r)" and a: "b AND PAGE_MASK = pa r"
  shows "\<exists>v m'. vcache_map_page a q m = Some (v + (a AND (PAGE_SIZE - 1)), m) \<and> window m v = Some (pa q) \<and>
    vcache_map_page b r m = Some (v + (b AND (PAGE_SIZE - 1)), m') \<and> window m' v = Some (pa r)"
proof -
  let ?v = "pp_v_addr (phys_page_table m q)"
  have q: "pp_mapped (phys_page_table m q)" "window m ?v = Some (pa q)" using ok by (auto simp: vcache_ok_def)
  obtain h where h: "dyn_list_remove_tail () (cache_lru m) = Some (Some q, h)"
    using evict_ok [of pa m "[]" q] ok by auto
  from h r q(1) none a show ?thesis
    by (intro exI [of _ ?v]) (auto simp: vcache_map_page_def free_frames Let_def window_def q(2) [unfolded window_def])
qed

theorem vcache_map_page_steals_witness:
  "\<exists>v m'. vcache_map_page 0x6000020 (Page 0 0) demo_cache = Some (v + 0x20, demo_cache) \<and>
    vcache_map_page 0x6002000 (Page 0 2) demo_cache = Some (v, m') \<and> window m' v = Some 0x6002000"
  using vcache_map_page_steals [of demo_page_addr demo_cache "Page 0 0" "Page 0 2" "0x6002000" "0x6000020", OF demo_cache_ok]
  by (auto simp: PAGE_MASK_def PAGE_SIZE_def demo_page_addr_def PAGE_SHIFT_def demo_cache_def)

text \<open>C36. The counter of a page is a field of 27 bits, but its overflow is looked for in a word of
  32: no increment is ever refused, and \<open>2 ^ 27\<close> of them bring the counter back to where it was.\<close>

theorem phys_page_counter_wraps:
  "foldM (\<lambda>_. phys_page_inc_counter r) [0..<n] m =
     Some (upd_page r (\<lambda>p. p\<lparr>pp_counter := pp_counter p + of_nat n\<rparr>) m)"
proof -
  have ne: "(ucast (w :: 27 word) :: u32) \<noteq> - 1" for w
  proof
    assume "ucast w = (- 1 :: u32)"
    then have "bit (ucast w :: u32) 31" by (simp only: bit_minus_1_iff) simp
    then have "bit w 31" by (simp add: bit_simps)
    from bit_imp_le_length [OF this] show False by simp
  qed
  show ?thesis
  proof (induction n)
    case 0
    then show ?case by (simp add: upd_page_def)
  next
    case (Suc n)
    then show ?case using ne
      by (simp add: foldM_append phys_page_inc_counter_def Let_def upd_page_twice algebra_simps)
  qed
qed

lemma area_search_wrapped:
  assumes asc: "ascending bd n" and hl: "hi < lo"
  shows "0 \<le> l \<Longrightarrow> l \<le> k \<Longrightarrow> k \<le> r \<Longrightarrow> r < n \<Longrightarrow> fst (bd k) \<le> lo \<Longrightarrow> lo \<le> snd (bd k) \<Longrightarrow>
    area_search bd lo hi l r \<noteq> None"
proof (induction "nat (r + 1 - l)" arbitrary: l r rule: less_induct)
  case less
  let ?c = "drop_bit 1 (l + r)"
  have lr: "l \<le> r" using less.prems by simp
  have c: "l \<le> ?c" "?c \<le> r" using lr by (simp_all add: drop_bit_eq_div)
  obtain a b where ab: "bd ?c = (a, b)" by fastforce
  have step: "area_search bd lo hi l r = (if lo < a then area_search bd lo hi l (?c - 1)
      else if hi > b then area_search bd lo hi (?c + 1) r else Some ?c)"
    using lr ab by (subst area_search.simps) (simp add: Let_def)
  have left: "area_search bd lo hi l (?c - 1) \<noteq> None" if "k < ?c"
    using less.hyps [of "?c - 1" l] less.prems that c by simp
  have right: "area_search bd lo hi (?c + 1) r \<noteq> None" if "?c < k"
    using less.hyps [of r "?c + 1"] less.prems that c by simp
  consider "k < ?c" | "k = ?c" | "?c < k" by linarith
  then show ?case
  proof cases
    case 1
    then have "snd (bd k) < a" using ascending_less [OF asc, of k ?c] less.prems c ab by simp
    with less.prems(6) have "lo < a" by (rule le_less_trans)
    then show ?thesis using left [OF 1] unfolding step by simp
  next
    case 2
    then have "hi \<le> b" using less.prems(6) hl ab by (simp add: less_imp_le order.strict_trans2)
    then have "\<not> b < hi" "\<not> lo < a" using 2 less.prems(5) ab by (simp_all add: not_less)
    then show ?thesis unfolding step by simp
  next
    case 3
    then have b: "b < fst (bd k)" "a \<le> b"
      using ascending_less [OF asc, of ?c k] ascending_le [OF asc, of ?c] less.prems c ab by simp_all
    from b(1) less.prems(5) have "b < lo" by (rule less_le_trans)
    with b(2) have "\<not> lo < a" by simp
    then show ?thesis using right [OF 3] unfolding step by simp
  qed
qed

text \<open>C34. A range that wraps past the top of the address space is accepted whenever its first
  address lies in an area, however far past the end of the area it goes: only its last address,
  which is then below the first, is compared with the ends of the areas.\<close>

theorem phys_mm_find_area_accepts_wrap:
  assumes wf: "areas_wf c p" and i: "0 \<le> i" "i < nr_areas c p"
    and a: "in_area c p i a 1" and wrap: "2 ^ 32 < uint a + sz" "sz < 2 ^ 31"
  shows "\<exists>flags. phys_mm_find_area c a sz (Some p) = Some (Some flags)"
proof -
  let ?last = "a + word_of_int sz - 1"
  let ?s = "area_search (area_bounds c p) a ?last 0 (nr_areas c p - 1)"
  have eq: "?last = word_of_int (uint a + sz - 1 - 2 ^ 32)" by simp
  have "uint (word_of_int (uint a + sz - 1 - 2 ^ 32) :: u32) = uint a + sz - 1 - 2 ^ 32"
    using wrap uint_lt2p [of a] by (intro uint_word_of_int_u32) simp_all
  then have "uint ?last = uint a + sz - 1 - 2 ^ 32" unfolding eq .
  moreover have "sz - 1 < 2 ^ 32" using wrap(2) by simp
  ultimately have lt: "?last < a" unfolding word_less_def by linarith
  have "uint a + 1 \<le> 2 ^ 32" using uint_lt2p [of a] by simp
  then have "fst (area_bounds c p i) \<le> a" "a \<le> snd (area_bounds c p i)"
    using in_area_bounds [OF wf i, of 1 a] a by simp_all
  with i have "?s \<noteq> None"
    by (intro area_search_wrapped [OF areas_ascending [OF wf] lt, of 0 i]) simp_all
  then obtain k where k: "?s = Some k" by blast
  with area_search_Some [OF k] show ?thesis
    by (simp add: phys_mm_find_area_def nr_areas_def Let_def assert_in_def)
qed

text \<open>Partition 0 has one area, a page at \<open>0xF0000000\<close>.\<close>

definition demo_high_conf :: prtos_conf where
  "demo_high_conf = demo_conf\<lparr>phys_mem_area_table := \<lambda>_. \<lparr>area_start_addr = 0xF0000000, area_mapped_at = 0xF0000000,
     area_size = 0x1000, area_flags = 0, memory_region_offset = 0\<rparr>\<rparr>"

lemma only_zero: "0 \<le> (i :: int) \<and> i < 1 \<longleftrightarrow> i = 0"
  by auto

lemma demo_areas: "areas_wf demo_conf 0" "areas_wf demo_high_conf 0" "nr_areas demo_conf 0 = 1" "nr_areas demo_high_conf 0 = 1"
  by (simp_all add: areas_wf_def nr_areas_def part_area_def demo_conf_def demo_part_def demo_high_conf_def only_zero)

lemma demo_in:
  "in_area demo_high_conf 0 0 0xF0000800 1" "in_area demo_conf 0 0 0x6000800 0x100"
  by (simp_all add: in_area_def part_area_def demo_high_conf_def demo_conf_def demo_part_def)

theorem phys_mm_find_area_accepts_wrap_witness:
  "\<exists>flags. phys_mm_find_area demo_high_conf 0xF0000800 0x7F000000 (Some 0) = Some (Some flags)"
  by (rule phys_mm_find_area_accepts_wrap [OF demo_areas(2) _ _ demo_in(1)]) (simp_all add: demo_areas)

theorem phys_mm_find_area_correct_witness:
  "phys_mm_find_area demo_conf 0x6000800 0x100 (Some 0) = Some (Some (area_flags (part_area demo_conf 0 0)))"
  using phys_mm_find_area_correct [OF demo_areas(1), of "0x100" "0x6000800"] demo_in(2) demo_areas(3)
  by (simp add: all_conj_distrib)

end
