(* ===== verification/Outcome.thy ===== *)
theory Outcome
  imports Prelude
begin

text \<open>
  The results of routines that may not return to their caller.  A run returns a value and a state,
  or stops: it panics, faults or loops (\<open>NoReturn\<close>), reaches \<open>part_panic\<close>, gives up the
  processor for good (\<open>Descheduled\<close>), halts or resets the machine, or jumps to a guest, in the state it stops in.  \<open>andthen\<close> is sequencing, \<open>returning\<close> lifts
  the routines of the other theories, whose \<open>None\<close> is \<open>NoReturn\<close>.
\<close>

datatype 's stop = NoReturn | PartPanic 's | Descheduled 's | SystemHalted 's | SystemReset u32 's | GuestStarted u32 's

datatype ('a, 's) outcome = Return 'a 's | Stop "'s stop"

fun andthen :: "('a, 's) outcome \<Rightarrow> ('a \<Rightarrow> 's \<Rightarrow> ('b, 's) outcome) \<Rightarrow> ('b, 's) outcome" where
  "andthen (Return a s) f = f a s"
| "andthen (Stop x) f = Stop x"

definition returning :: "('a \<times> 's) option \<Rightarrow> ('a, 's) outcome" where
  "returning r = (case r of None \<Rightarrow> Stop NoReturn | Some (a, s) \<Rightarrow> Return a s)"

definition doing :: "'s option \<Rightarrow> (unit, 's) outcome" where
  "doing r = (case r of None \<Rightarrow> Stop NoReturn | Some s \<Rightarrow> Return () s)"

text \<open>A value that is read, or a fault.\<close>

definition have_val :: "'a option \<Rightarrow> ('a \<Rightarrow> ('b, 's) outcome) \<Rightarrow> ('b, 's) outcome" where
  "have_val r f = (case r of None \<Rightarrow> Stop NoReturn | Some a \<Rightarrow> f a)"

lemma outcome_simps [simp]:
  "returning None = Stop NoReturn" "returning (Some (a, s)) = Return a s"
  "doing None = Stop NoReturn" "doing (Some s) = Return () s"
  "have_val None f = Stop NoReturn" "have_val (Some v) f = f v"
  by (simp_all add: returning_def doing_def have_val_def)

lemma andthen_Return: "andthen m f = Return b t \<longleftrightarrow> (\<exists>a s. m = Return a s \<and> f a s = Return b t)"
  by (cases m) auto

lemma andthen_assoc: "andthen (andthen m f) g = andthen m (\<lambda>a s. andthen (f a s) g)"
  by (cases m) auto

lemma returning_Return: "returning r = Return a s \<longleftrightarrow> r = Some (a, s)"
  by (cases r) auto

lemma doing_Return: "doing r = Return u s \<longleftrightarrow> r = Some s"
  by (cases r) auto

lemma have_val_Return: "have_val r f = Return b t \<longleftrightarrow> (\<exists>a. r = Some a \<and> f a = Return b t)"
  by (cases r) auto

text \<open>The state of a run that has one.\<close>

fun stop_state :: "'s stop \<Rightarrow> 's option" where
  "stop_state NoReturn = None"
| "stop_state (PartPanic s) = Some s"
| "stop_state (Descheduled s) = Some s"
| "stop_state (SystemHalted s) = Some s"
| "stop_state (SystemReset _ s) = Some s"
| "stop_state (GuestStarted _ s) = Some s"

fun final_state :: "('a, 's) outcome \<Rightarrow> 's option" where
  "final_state (Return _ s) = Some s"
| "final_state (Stop x) = stop_state x"

end
