(* ===== verification/Irqs.thy ===== *)
theory Irqs
  imports CommPorts Outcome
begin

text \<open>
  The delivery of pending virtual interrupts to the guest that is about to run:
  \<open>raise_pend_irqs\<close> of \<open>core/kernel/irqs.c\<close> with \<open>fix_stack\<close> of \<open>core/kernel/x86/irqs.c\<close> and the
  helpers of \<open>core/include/x86/irqs.h\<close>.  The interrupt table and the stack of the guest are read
  and written in \<open>gmem\<close>; the probes of pages are the parameter \<open>acc\<close>, as in the check of guest
  pointers.  \<open>fix_stack\<close> returns the register context it changes.
\<close>

section \<open>The register context\<close>

record cpu_ctxt =
  c_bx :: u32
  c_cx :: u32
  c_dx :: u32
  c_si :: u32
  c_di :: u32
  c_bp :: u32
  c_ax :: u32
  c_ds :: u32
  c_es :: u32
  c_fs :: u32
  c_gs :: u32
  c_irq_nr :: u32
  c_err_code :: u32
  c_ip :: u32
  c_cs :: u32
  c_flags :: u32
  c_sp :: u32
  c_ss :: u32

definition CPU_FLAG_IF :: u32 where "CPU_FLAG_IF = 0x200"
definition PRTOS_EXT_TRAPS :: u32 where "PRTOS_EXT_TRAPS = bit32 16"
definition ERRCODE_TAB :: u32 where "ERRCODE_TAB = 0x27d00"
definition TRACE_IRQ_MODULE :: u32 where "TRACE_IRQ_MODULE = 0"

definition is_hpv_irq_ctxt :: "cpu_ctxt \<Rightarrow> bool" where
  "is_hpv_irq_ctxt ctxt \<longleftrightarrow> c_cs ctxt AND 3 = 0"

definition init_part_ctrl_table_irqs :: "u32 \<Rightarrow> u32" where
  "init_part_ctrl_table_irqs f = f AND NOT CPU_FLAG_IF"

definition are_part_ctrl_table_irqs_set :: "u32 \<Rightarrow> bool" where
  "are_part_ctrl_table_irqs_set f \<longleftrightarrow> f AND CPU_FLAG_IF \<noteq> 0"

text \<open>On x86 the two that would change the flags and the masks of the partition do nothing.\<close>

definition disable_part_ctrl_table_irqs :: "u32 \<Rightarrow> u32" where
  "disable_part_ctrl_table_irqs f = f"

definition mask_part_ctrl_table_irq :: "u32 \<Rightarrow> u32 \<Rightarrow> u32" where
  "mask_part_ctrl_table_irq m bits = m"

definition are_part_ctrl_table_traps_set :: "u32 \<Rightarrow> bool" where
  "are_part_ctrl_table_traps_set f = True"

definition irq_vector_to_address :: "int \<Rightarrow> int" where
  "irq_vector_to_address vector = 0"

definition is_audit_event_masked :: "prtos_conf \<Rightarrow> u32 \<Rightarrow> bool" where
  "is_audit_event_masked c m \<longleftrightarrow> trace_bitmap (hpv_trace c) AND bit32 (unat m) \<noteq> 0"

section \<open>Entering a handler of the guest\<close>

text \<open>A gate of the interrupt table of the guest: offset, selector, access.\<close>

definition idt_gate :: "memory \<Rightarrow> u32 \<Rightarrow> u32 \<Rightarrow> u32 \<times> u32 \<times> u32" where
  "idt_gate m base vector =
     (let lo = load_word m (base + 8 * vector); hi = load_word m (base + 8 * vector + 4) in
      (push_bit 16 (drop_bit 16 hi) OR (lo AND 0xffff), drop_bit 16 lo, drop_bit 8 hi AND 0xff))"

definition test_sp :: "(bool \<Rightarrow> u32 \<Rightarrow> bool) \<Rightarrow> u32 \<Rightarrow> u32 \<Rightarrow> int option" where
  "test_sp acc sp sz = asm_rw_check acc (sp - sz) sz"

lemma test_sp_accepted: "test_sp acc sp sz = Some r \<Longrightarrow> 0 \<le> r \<Longrightarrow> sp - sz < sp \<longrightarrow> acc True (sp - sz)"
  using page_check_accepted by (fastforce simp: test_sp_def asm_rw_check_def)

definition push :: "u32 \<Rightarrow> u32 \<times> memory \<Rightarrow> u32 \<times> memory" where
  "push v sm = (fst sm - 4, store_word (fst sm - 4) v (snd sm))"

text \<open>What is pushed on the stack of the handler, and the jump to it.\<close>

definition push_frame ::
    "cpu_ctxt \<Rightarrow> u32 \<Rightarrow> u32 \<Rightarrow> u32 \<Rightarrow> int \<Rightarrow> bool \<Rightarrow> u32 \<times> memory \<Rightarrow> cpu_ctxt \<times> memory" where
  "push_frame ctxt cs ip fl irq trap sm =
     (let sm = push ((c_flags ctxt AND NOT CPU_FLAG_IF) OR fl) sm;
          sm = push (c_cs ctxt) sm;
          sm = push (c_ip ctxt) sm;
          sm = (if trap \<and> bit32 (nat irq) AND ERRCODE_TAB \<noteq> 0 then push (c_err_code ctxt) sm else sm)
      in (ctxt\<lparr>c_sp := fst sm, c_cs := cs, c_ip := ip\<rparr>, snd sm))"

definition fix_stack ::
    "(bool \<Rightarrow> u32 \<Rightarrow> bool) \<Rightarrow> nat \<Rightarrow> cpu_ctxt \<Rightarrow> int \<Rightarrow> u32 \<Rightarrow> bool \<Rightarrow> comms \<Rightarrow> (cpu_ctxt, comms) outcome" where
  "fix_stack acc this ctxt irq vector trap s =
     (let k = current_kthread (cpus (kern s) this) in
      have_val (guest_of (kern s) k) (\<lambda>g.
      let t = g_pct g in
      if vector \<ge> max_idt_vec (pct_arch t) then Stop (PartPanic s) else
      let (ip, cs, access) = idt_gate (gmem s) (idtr_linear_base (pct_arch t)) vector in
      if ip \<ge> CONFIG_PRTOS_OFFSET \<or> cs AND 3 = 0 then Stop (PartPanic s) else
      let fl = iflags t;
          s = (if access AND 1 = 0
               then s\<lparr>kern := upd_pct k (\<lambda>t. t\<lparr>iflags := iflags t AND NOT CPU_FLAG_IF\<rparr>) (kern s)\<rparr> else s) in
      if c_cs ctxt AND 3 = cs AND 3
      then have_val (test_sp acc (c_sp ctxt) 16) (\<lambda>r.
        if r < 0 then Stop (PartPanic s) else
        let (ctxt, m) = push_frame ctxt cs ip fl irq trap (c_sp ctxt, gmem s) in Return ctxt (s\<lparr>gmem := m\<rparr>))
      else
        let (ss, sp) = (if cs AND 3 = 1 then (tss_ss1 (g_tss g), tss_sp1 (g_tss g))
                        else if cs AND 3 = 2 then (tss_ss2 (g_tss g), tss_sp2 (g_tss g)) else (0, 0)) in
        if ss = 0 \<or> sp = 0 then Stop (PartPanic s) else
        have_val (test_sp acc sp 24) (\<lambda>r.
        if r < 0 then Stop (PartPanic s) else
        let sm = push (c_sp ctxt) (push (c_ss ctxt) (sp, gmem s));
            (ctxt, m) = push_frame (ctxt\<lparr>c_ss := ucast ss\<rparr>) cs ip fl irq trap sm
        in Return ctxt (s\<lparr>gmem := m\<rparr>))))"

section \<open>The interrupts that are pending\<close>

definition first_of :: "u32 \<Rightarrow> int" where
  "first_of entry = (if entry \<noteq> 0 then ffs entry else - 1)"

definition are_hw_irqs_pending :: "partition_control_table \<Rightarrow> int option" where
  "are_hw_irqs_pending t =
     (let entry = hw_irqs_pend t AND NOT (hw_irqs_mask t) in
      if entry \<noteq> 0 then do { _ \<leftarrow> ASSERT (0 \<le> ffs entry \<and> ffs entry < CONFIG_NO_HWIRQS); Some (ffs entry) }
      else Some (- 1))"

definition are_ext_irqs_pending :: "partition_control_table \<Rightarrow> int" where
  "are_ext_irqs_pending t = first_of (ext_irqs_pend t AND NOT (ext_irqs_to_mask t))"

definition are_ext_traps_pending :: "partition_control_table \<Rightarrow> int" where
  "are_ext_traps_pending t = first_of (ext_irqs_pend t AND PRTOS_EXT_TRAPS)"

definition upd_kern :: "(kstate \<Rightarrow> kstate) \<Rightarrow> comms \<Rightarrow> comms" where
  "upd_kern f s = s\<lparr>kern := f (kern s)\<rparr>"

definition pendirq_audit :: "prtos_conf \<Rightarrow> u32 \<Rightarrow> kstate \<Rightarrow> kstate" where
  "pendirq_audit c pi s =
     (if is_audit_event_masked c TRACE_IRQ_MODULE then raise_audit_event TRACE_IRQ_MODULE 3 [pi] s else s)"

text \<open>\<open>arch_emul_trap_irq\<close>, \<open>arch_emul_hw_irq\<close> and \<open>arch_emul_ext_irq\<close>: the vector of the interrupt
  is taken from one of the three tables of the partition control table.\<close>

datatype virq = VTrap | VHwIrq | VExtIrq

fun vector_of :: "virq \<Rightarrow> partition_control_table \<Rightarrow> nat \<Rightarrow> u16" where
  "vector_of VTrap t = trap_to_vector t"
| "vector_of VHwIrq t = hw_irq_to_vector t"
| "vector_of VExtIrq t = ext_irq_to_vector t"

definition arch_emul_irq ::
    "(bool \<Rightarrow> u32 \<Rightarrow> bool) \<Rightarrow> nat \<Rightarrow> cpu_ctxt \<Rightarrow> virq \<Rightarrow> int \<Rightarrow> comms \<Rightarrow> (u32 \<times> cpu_ctxt, comms) outcome" where
  "arch_emul_irq acc this ctxt kind irq s =
     have_val (guest_of (kern s) (current_kthread (cpus (kern s) this))) (\<lambda>g.
     let vector = ucast (vector_of kind (g_pct g) (nat irq)) in
     andthen (fix_stack acc this ctxt irq vector (kind = VTrap) s) (\<lambda>ctxt s. Return (vector, ctxt) s))"

text \<open>The end of every branch that delivers.\<close>

definition deliver ::
    "prtos_conf \<Rightarrow> (bool \<Rightarrow> u32 \<Rightarrow> bool) \<Rightarrow> nat \<Rightarrow> cpu_ctxt \<Rightarrow> virq \<Rightarrow> int \<Rightarrow> comms \<Rightarrow> (int \<times> cpu_ctxt, comms) outcome" where
  "deliver c acc this ctxt kind irq s = andthen (arch_emul_irq acc this ctxt kind irq s) (\<lambda>(emul, ctxt) s.
     Return (irq_vector_to_address (uint emul), ctxt) (upd_kern (pendirq_audit c emul) s))"

definition raise_pend_irqs ::
    "prtos_conf \<Rightarrow> (bool \<Rightarrow> u32 \<Rightarrow> bool) \<Rightarrow> nat \<Rightarrow> cpu_ctxt \<Rightarrow> comms \<Rightarrow> (int \<times> cpu_ctxt, comms) outcome" where
  "raise_pend_irqs c acc this ctxt s =
     (let k = current_kthread (cpus (kern s) this) in
      case guest_of (kern s) k of
        None \<Rightarrow> Return (- 1, ctxt) s
      | Some g \<Rightarrow>
        if is_hpv_irq_ctxt ctxt then Return (- 1, ctxt) s
        else if g_sw_trap g AND 1 \<noteq> 0
        then let emul = drop_bit 1 (g_sw_trap g) in
          Return (irq_vector_to_address (uint emul), ctxt)
            (upd_kern (\<lambda>s. pendirq_audit c emul (upd_g k (\<lambda>g. g\<lparr>g_sw_trap := 0\<rparr>) s)) s)
        else
        let t = g_pct g in
        if are_kthread_flags_set (kern s) k KTHREAD_TRAP_PENDING_F \<noteq> 0
        then deliver c acc this ctxt VTrap (uint (c_irq_nr ctxt))
          (upd_kern (\<lambda>s. upd_pct k (\<lambda>t. t\<lparr>iflags := disable_part_ctrl_table_irqs (iflags t)\<rparr>)
             (clear_kthread_flags k KTHREAD_TRAP_PENDING_F s)) s)
        else if are_ext_traps_pending t > - 1
        then let n = are_ext_traps_pending t in
          deliver c acc this ctxt VExtIrq n
            (upd_kern (upd_pct k (\<lambda>t. t\<lparr>ext_irqs_pend := ext_irqs_pend t AND NOT (bit32 (nat n)),
               iflags := disable_part_ctrl_table_irqs (iflags t)\<rparr>)) s)
        else if \<not> are_part_ctrl_table_irqs_set (iflags t) then Return (- 1, ctxt) s
        else have_val (are_hw_irqs_pending t) (\<lambda>n.
        if n > - 1
        then deliver c acc this ctxt VHwIrq n
            (upd_kern (upd_pct k (\<lambda>t. t\<lparr>hw_irqs_pend := hw_irqs_pend t AND NOT (bit32 (nat n)),
               hw_irqs_mask := mask_part_ctrl_table_irq (hw_irqs_mask t) (bit32 (nat n)),
               iflags := disable_part_ctrl_table_irqs (iflags t)\<rparr>)) s)
        else if are_ext_irqs_pending t > - 1
        then let n = are_ext_irqs_pending t in
          deliver c acc this ctxt VExtIrq n
            (upd_kern (upd_pct k (\<lambda>t. t\<lparr>ext_irqs_pend := ext_irqs_pend t AND NOT (bit32 (nat n)),
               ext_irqs_to_mask := mask_part_ctrl_table_irq (ext_irqs_to_mask t) (bit32 (nat n)),
               iflags := disable_part_ctrl_table_irqs (iflags t)\<rparr>)) s)
        else Return (- 1, ctxt) s))"

section \<open>Words of memory\<close>

lemma copy_to_guest_eq:
  "n < 2 ^ 32 \<Longrightarrow> copy_to_guest p b n m a = (if unat (a - p) < n then b (unat (a - p)) else m a)"
proof (induction n)
  case (Suc n)
  have "a = p + of_nat n \<longleftrightarrow> unat (a - p) = n"
  proof -
    have "unat (of_nat n :: u32) = n" using Suc.prems by (intro unat_of_nat32) simp
    then show ?thesis by (metis add.commute diff_add_cancel add_diff_cancel_left' of_nat_unat ucast_id)
  qed
  with Suc show ?case by (auto simp: copy_to_guest_def less_Suc_eq)
qed (simp add: copy_to_guest_def)

lemma store_word_eq:
  "store_word p w m a = (if unat (a - p) < 4 then ucast (drop_bit (8 * unat (a - p)) w) else m a)"
  by (simp add: store_word_def copy_to_guest_eq)

lemma load_store_same [simp]: "load_word (store_word p w m) p = w"
proof -
  have "load_word (store_word p w m) p = ucast (ucast w :: u8) OR push_bit 8 (ucast (ucast (drop_bit 8 w) :: u8)) OR
      push_bit 16 (ucast (ucast (drop_bit 16 w) :: u8)) OR push_bit 24 (ucast (ucast (drop_bit 24 w) :: u8))"
    by (simp add: load_word_def store_word_eq)
  also have "\<dots> = w"
  proof (rule bit_word_eqI)
    fix n assume "n < LENGTH(32)"
    then consider "n < 8" | "8 \<le> n" "n < 16" | "16 \<le> n" "n < 24" | "24 \<le> n" "n < 32" by fastforce
    then show "bit (ucast (ucast w :: u8) OR push_bit 8 (ucast (ucast (drop_bit 8 w) :: u8)) OR
      push_bit 16 (ucast (ucast (drop_bit 16 w) :: u8)) OR push_bit 24 (ucast (ucast (drop_bit 24 w) :: u8)) :: u32) n = bit w n"
      by cases (auto simp: bit_simps)
  qed
  finally show ?thesis .
qed

definition apart4 :: "u32 \<Rightarrow> u32 \<Rightarrow> bool" where
  "apart4 p q \<longleftrightarrow> 4 \<le> p - q \<and> 4 \<le> q - p"

lemma uint_uminus: "0 < uint x \<Longrightarrow> uint (- x :: u32) = 2 ^ 32 - uint x"
proof -
  assume "0 < uint x"
  moreover have "uint x mod 2 ^ 32 = uint x" using uint_lt2p [of x] by (intro mod_pos_pos_trivial) simp_all
  ultimately show ?thesis by (subst uint_word_ariths(4)) (simp add: zmod_zminus1_eq_if)
qed

lemma apart4_offset:
  assumes "apart4 p q" "i < 4"
  shows "4 \<le> unat (q + i - p)"
proof -
  let ?x = "q - p"
  have x: "4 \<le> uint ?x" using assms(1) by (simp add: apart4_def word_le_def)
  have "uint (p - q) = uint (- ?x)" by simp
  also have "\<dots> = 2 ^ 32 - uint ?x" using x by (intro uint_uminus) linarith
  finally have "uint ?x + 4 \<le> 2 ^ 32" using assms(1) by (simp add: apart4_def word_le_def)
  moreover have "uint i < 4" using assms(2) by (simp add: word_less_def)
  ultimately have "uint (?x + i) = uint ?x + uint i" by (subst uint_add_lem [THEN iffD1]) simp_all
  then have "4 \<le> uint (?x + i)" using x uint_ge_0 [of i] by linarith
  moreover have "?x + i = q + i - p" by simp
  ultimately have "4 \<le> uint (q + i - p)" by simp
  then show ?thesis unfolding uint_nat by linarith
qed

lemma load_store_other: "apart4 p q \<Longrightarrow> load_word (store_word p w m) q = load_word m q"
  using apart4_offset [of p q 0] apart4_offset [of p q 1] apart4_offset [of p q 2] apart4_offset [of p q 3]
  by (simp add: load_word_def store_word_eq)

lemma apart4_four:
  assumes "0 < i" "i < 8"
  shows "apart4 q (q + 4 * of_nat i)"
proof -
  have "i \<in> {1, 2, 3, 4, 5, 6, 7}" using assms by auto
  then show ?thesis by (elim insertE) (simp_all add: apart4_def)
qed

text \<open>Pushing a list of words: they lie below the stack pointer, the last one first, and nothing
  else changes.\<close>

lemma push_all:
  assumes "length vs < 8"
  shows "\<exists>m'. fold push vs (sp, m) = (sp - 4 * of_nat (length vs), m') \<and>
    (\<forall>i < length vs. load_word m' (sp - 4 * of_nat (length vs) + 4 * of_nat i) = rev vs ! i) \<and>
    (\<forall>a. 4 * length vs \<le> unat (a - (sp - 4 * of_nat (length vs))) \<longrightarrow> m' a = m a)"
  using assms
proof (induction vs rule: rev_induct)
  case Nil
  then show ?case by simp
next
  case (snoc v vs)
  let ?n = "length vs" and ?q = "sp - 4 * of_nat (length vs) - 4"
  obtain m' where m': "fold push vs (sp, m) = (sp - 4 * of_nat ?n, m')"
    "\<And>i. i < ?n \<Longrightarrow> load_word m' (sp - 4 * of_nat ?n + 4 * of_nat i) = rev vs ! i"
    "\<And>a. 4 * ?n \<le> unat (a - (sp - 4 * of_nat ?n)) \<Longrightarrow> m' a = m a" using snoc by auto
  have q: "sp - 4 * of_nat (length (vs @ [v])) = ?q" by simp
  have run: "fold push (vs @ [v]) (sp, m) = (?q, store_word ?q v m')"
    using m'(1) by (simp add: push_def)
  have "load_word (store_word ?q v m') (?q + 4 * of_nat i) = rev (vs @ [v]) ! i" if "i < Suc ?n" for i
  proof (cases i)
    case (Suc j)
    have "apart4 ?q (?q + 4 * of_nat i)" using that snoc.prems Suc by (intro apart4_four) simp_all
    then have l: "load_word (store_word ?q v m') (?q + 4 * of_nat i) = load_word m' (?q + 4 * of_nat i)"
      by (rule load_store_other)
    have e: "?q + 4 * of_nat i = sp - 4 * of_nat ?n + 4 * of_nat j" using Suc by simp
    have "load_word m' (?q + 4 * of_nat i) = rev vs ! j"
      unfolding e by (rule m'(2)) (use that Suc in simp)
    moreover have "rev (vs @ [v]) ! i = rev vs ! j" using Suc by simp
    ultimately show ?thesis using l by (simp only:)
  qed simp
  moreover have "store_word ?q v m' a = m a" if "4 * Suc ?n \<le> unat (a - ?q)" for a
  proof -
    have "4 \<le> unat (a - ?q)" using that by simp
    then have s: "store_word ?q v m' a = m' a" by (simp add: store_word_eq)
    have eq: "a - (sp - 4 * of_nat ?n) = (a - ?q) - 4" by simp
    have "unat ((a - ?q) - 4) = unat (a - ?q) - 4"
      using \<open>4 \<le> unat (a - ?q)\<close> by (subst unat_sub) (simp_all add: word_le_nat_alt)
    then have "4 * ?n \<le> unat (a - (sp - 4 * of_nat ?n))" unfolding eq using that by simp
    from m'(3) [OF this] s show ?thesis by simp
  qed
  ultimately show ?case using run unfolding q by (intro exI [of _ "store_word ?q v m'"]) simp
qed

section \<open>The frame a handler finds\<close>

definition frame_words :: "cpu_ctxt \<Rightarrow> u32 \<Rightarrow> int \<Rightarrow> bool \<Rightarrow> bool \<Rightarrow> u32 list" where
  "frame_words ctxt fl irq trap change =
     (if trap \<and> bit32 (nat irq) AND ERRCODE_TAB \<noteq> 0 then [c_err_code ctxt] else []) @
     [c_ip ctxt, c_cs ctxt, (c_flags ctxt AND NOT CPU_FLAG_IF) OR fl] @
     (if change then [c_sp ctxt, c_ss ctxt] else [])"

lemma frame_words_len [simp]:
  "length (frame_words ctxt fl irq trap False) \<le> 4" "length (frame_words ctxt fl irq trap True) \<le> 6"
  by (simp_all add: frame_words_def)

lemma push_frame_fold:
  "push_frame ctxt cs ip fl irq trap sm =
     (let sm = fold push (rev (frame_words ctxt fl irq trap False)) sm
      in (ctxt\<lparr>c_sp := fst sm, c_cs := cs, c_ip := ip\<rparr>, snd sm))"
  by (simp add: push_frame_def frame_words_def Let_def)

text \<open>A word list is found in memory from an address on.\<close>

definition words_at :: "memory \<Rightarrow> u32 \<Rightarrow> u32 list \<Rightarrow> bool" where
  "words_at m a ws \<longleftrightarrow> (\<forall>i < length ws. load_word m (a + 4 * of_nat i) = ws ! i)"

lemma push_words:
  assumes "length ws < 8"
  shows "\<exists>m'. fold push (rev ws) (sp, m) = (sp - 4 * of_nat (length ws), m') \<and>
    words_at m' (sp - 4 * of_nat (length ws)) ws \<and>
    (\<forall>a. 4 * length ws \<le> unat (a - (sp - 4 * of_nat (length ws))) \<longrightarrow> m' a = m a)"
  using push_all [of "rev ws" sp m] assms by (simp add: words_at_def)

lemma fix_stack_Return:
  assumes ret: "fix_stack acc this ctxt irq vector trap s = Return ctxt' s'"
    and k: "k = current_kthread (cpus (kern s) this)" and g: "guest_of (kern s) k = Some g"
    and gate: "idt_gate (gmem s) (idtr_linear_base (pct_arch (g_pct g))) vector = (ip, cs, access)"
    and change: "change = (c_cs ctxt AND 3 \<noteq> cs AND 3)"
    and tos: "tos = (if \<not> change then c_sp ctxt else if cs AND 3 = 1 then tss_sp1 (g_tss g) else tss_sp2 (g_tss g))"
    and ws: "ws = frame_words ctxt (iflags (g_pct g)) irq trap change"
  shows "c_ip ctxt' = ip \<and> c_cs ctxt' = cs \<and> ip < CONFIG_PRTOS_OFFSET \<and> cs AND 3 \<noteq> 0 \<and>
    vector < max_idt_vec (pct_arch (g_pct g)) \<and>
    c_sp ctxt' = tos - 4 * of_nat (length ws) \<and> words_at (gmem s') (c_sp ctxt') ws \<and>
    (\<forall>a. 4 * length ws \<le> unat (a - c_sp ctxt') \<longrightarrow> gmem s' a = gmem s a) \<and>
    (tos - (if change then 24 else 16) < tos \<longrightarrow> acc True (tos - (if change then 24 else 16))) \<and>
    4 * length ws \<le> (if change then 24 else 16) \<and>
    kern s' = (if access AND 1 = 0
      then upd_pct k (\<lambda>t. t\<lparr>iflags := iflags t AND NOT CPU_FLAG_IF\<rparr>) (kern s) else kern s)"
proof -
  have len: "length ws < 8" by (simp add: ws frame_words_def)
  obtain m' where m': "fold push (rev ws) (tos, gmem s) = (tos - 4 * of_nat (length ws), m')"
    "words_at m' (tos - 4 * of_nat (length ws)) ws"
    "\<forall>a. 4 * length ws \<le> unat (a - (tos - 4 * of_nat (length ws))) \<longrightarrow> m' a = gmem s a"
    using push_words [OF len] by blast
  show ?thesis
  proof (cases change)
    case False
    with ret k g gate change show ?thesis using m'
      by (auto simp: fix_stack_def Let_def push_frame_fold have_val_Return tos ws dest: test_sp_accepted split: if_splits)
  next
    case True
    let ?ws = "frame_words ctxt (iflags (g_pct g)) irq trap False"
    have f: "fold push (rev ws) (tos, gmem s) =
        fold push (rev (frame_words (ctxt\<lparr>c_ss := x\<rparr>) (iflags (g_pct g)) irq trap False))
          (push (c_sp ctxt) (push (c_ss ctxt) (tos, gmem s)))" for x
      using True by (simp add: ws frame_words_def)
    from True ret k g gate change m' f[symmetric] show ?thesis
      by (auto simp: fix_stack_def Let_def push_frame_fold have_val_Return tos ws dest: test_sp_accepted split: if_splits)
  qed
qed

section \<open>Which interrupt is delivered\<close>

lemma bits_first:
  assumes "lowest_bit x l"
  shows "filter (bit x) [0..<32] = l # filter (bit (x AND NOT (bit32 l))) [0..<32]"
proof -
  have l: "l < 32" "bit x l" "\<And>i. i < l \<Longrightarrow> \<not> bit x i"
    using assms bit_imp_le_length [of x l] by (auto simp: lowest_bit_def)
  then have "[0..<32] = [0..<l] @ l # [Suc l..<32]" using upt_add_eq_append [of 0 l "32 - l"] by (simp add: upt_conv_Cons)
  moreover have "filter (bit x) [0..<l] = []" "filter (bit (x AND NOT (bit32 l))) [0..<l] = []"
    using l(3) by (auto simp: filter_empty_conv bit_simps)
  moreover have "filter (bit (x AND NOT (bit32 l))) [Suc l..<32] = filter (bit x) [Suc l..<32]"
    by (intro filter_cong) (auto simp: bit_simps)
  ultimately show ?thesis using l by (simp add: bit_simps)
qed

lemma bits_none: "filter (bit (x :: u32)) [0..<32] = [] \<longleftrightarrow> x = 0"
  using word_neq_0_bit [of x] by (auto simp: filter_empty_conv)

lemma first_of_cases:
  obtains "x = 0" "first_of x = - 1" | l where "x \<noteq> 0" "first_of x = int l" "lowest_bit x l" "l < 32"
proof (cases "x = 0")
  case False
  then obtain l where "l < 32" "lowest_bit x l" using lowest_bit_exists by blast
  with False that ffs_lowest show ?thesis by (simp add: first_of_def)
qed (use that in \<open>simp add: first_of_def\<close>)

lemma hw_irqs_pending_eq: "are_hw_irqs_pending t = Some (first_of (hw_irqs_pend t AND NOT (hw_irqs_mask t)))"
  by (cases "hw_irqs_pend t AND NOT (hw_irqs_mask t)" rule: first_of_cases)
    (auto simp: are_hw_irqs_pending_def first_of_def CONFIG_NO_HWIRQS_def Let_def)

text \<open>The events of a guest in the order of their priority: the trap the thread raised, the extended
  trap, and, when the guest has interrupts enabled, the hardware interrupts and the extended
  interrupts it does not mask, each from the lowest number.\<close>

definition pending_traps :: "u32 \<Rightarrow> nat \<Rightarrow> partition_control_table \<Rightarrow> (virq \<times> nat) list" where
  "pending_traps f n t = (if f AND KTHREAD_TRAP_PENDING_F \<noteq> 0 then [(VTrap, n)] else []) @
     (if bit (ext_irqs_pend t) 16 then [(VExtIrq, 16)] else [])"

definition pending_irqs :: "partition_control_table \<Rightarrow> (virq \<times> nat) list" where
  "pending_irqs t = map (Pair VHwIrq) (filter (bit (hw_irqs_pend t AND NOT (hw_irqs_mask t))) [0..<32]) @
     map (Pair VExtIrq) (filter (bit (ext_irqs_pend t AND NOT (ext_irqs_to_mask t) AND NOT PRTOS_EXT_TRAPS)) [0..<32])"

definition deliverable :: "u32 \<Rightarrow> nat \<Rightarrow> partition_control_table \<Rightarrow> (virq \<times> nat) list" where
  "deliverable f n t = pending_traps f n t @ (if are_part_ctrl_table_irqs_set (iflags t) then pending_irqs t else [])"

lemma deliver_Return:
  assumes ret: "deliver c acc this ctxt kind irq s = Return (r, ctxt') s'"
    and k: "k = current_kthread (cpus (kern s) this)" and g: "guest_of (kern s) k = Some g"
  shows "r = 0 \<and> (\<exists>access. idt_gate (gmem s) (idtr_linear_base (pct_arch (g_pct g)))
        (ucast (vector_of kind (g_pct g) (nat irq))) = (c_ip ctxt', c_cs ctxt', access)) \<and>
    (\<exists>f. guest_of (kern s') k = Some (g\<lparr>g_pct := (g_pct g)\<lparr>iflags := f\<rparr>\<rparr>)) \<and>
    k_flags (kthreads (kern s') k) = k_flags (kthreads (kern s) k)"
proof -
  let ?v = "ucast (vector_of kind (g_pct g) (nat irq)) :: u32"
  obtain s1 where fs: "fix_stack acc this ctxt irq ?v (kind = VTrap) s = Return ctxt' s1"
    and r: "r = 0" "s' = upd_kern (pendirq_audit c ?v) s1"
    using ret g by (auto simp: deliver_def arch_emul_irq_def andthen_Return have_val_Return k irq_vector_to_address_def Let_def)
  obtain ip cs access where gate: "idt_gate (gmem s) (idtr_linear_base (pct_arch (g_pct g))) ?v = (ip, cs, access)"
    by (cases "idt_gate (gmem s) (idtr_linear_base (pct_arch (g_pct g))) ?v")
  note F = fix_stack_Return [OF fs k g gate refl refl refl]
  have "\<exists>f. guest_of (kern s1) k = Some (g\<lparr>g_pct := (g_pct g)\<lparr>iflags := f\<rparr>\<rparr>)"
    using F g by (cases "access AND 1 = 0") (auto simp: state_writes guest_of_def intro: exI [of _ "iflags (g_pct g)"])
  moreover have "k_flags (kthreads (kern s1) k) = k_flags (kthreads (kern s) k)"
    using F by (cases "access AND 1 = 0") (auto simp: state_writes)
  ultimately show ?thesis using F gate r
    by (auto simp: upd_kern_def pendirq_audit_def guest_of_def raise_audit_event_def)
qed

text \<open>C5. Entering a handler of the guest: when the emulation of an interrupt returns, the guest
  resumes at the handler its gate names, below the hypervisor and never at its privilege; the
  interrupted context, with the error code of a trap that has one, lies on the stack the handler
  runs on, within the 16 or 24 bytes below the top of that stack, of which (unless they wrap around)
  the lowest was found writable by the guest; no other byte of memory is changed.\<close>

theorem fix_stack_frame:
  assumes ret: "fix_stack acc this ctxt irq vector trap s = Return ctxt' s'"
    and k: "k = current_kthread (cpus (kern s) this)" and g: "guest_of (kern s) k = Some g"
    and gate: "idt_gate (gmem s) (idtr_linear_base (pct_arch (g_pct g))) vector = (ip, cs, access)"
    and change: "change = (c_cs ctxt AND 3 \<noteq> cs AND 3)"
    and tos: "tos = (if \<not> change then c_sp ctxt else if cs AND 3 = 1 then tss_sp1 (g_tss g) else tss_sp2 (g_tss g))"
    and ws: "ws = frame_words ctxt (iflags (g_pct g)) irq trap change"
  shows "c_ip ctxt' = ip \<and> c_cs ctxt' = cs \<and> ip < CONFIG_PRTOS_OFFSET \<and> cs AND 3 \<noteq> 0 \<and>
    vector < max_idt_vec (pct_arch (g_pct g)) \<and>
    c_sp ctxt' = tos - 4 * of_nat (length ws) \<and> words_at (gmem s') (c_sp ctxt') ws \<and>
    (\<forall>a. 4 * length ws \<le> unat (a - c_sp ctxt') \<longrightarrow> gmem s' a = gmem s a) \<and>
    (tos - (if change then 24 else 16) < tos \<longrightarrow> acc True (tos - (if change then 24 else 16))) \<and>
    4 * length ws \<le> (if change then 24 else 16) \<and>
    kern s' = (if access AND 1 = 0
      then upd_pct k (\<lambda>t. t\<lparr>iflags := iflags t AND NOT CPU_FLAG_IF\<rparr>) (kern s) else kern s)"
  using fix_stack_Return [OF ret k g gate change tos ws] .

lemma deliver_event:
  assumes k: "k = current_kthread (cpus (kern s1) this)" and g: "guest_of (kern s1) k = Some g1"
    and L: "pending_traps (k_flags (kthreads (kern s1) k)) n (g_pct g1) @ pending_irqs (g_pct g1) = L"
    and same: "gmem s1 = m" "idtr_linear_base (pct_arch (g_pct g1)) = b" "vector_of kind (g_pct g1) (nat i) = v"
  shows "\<forall>r ctxt' s'. deliver c acc this ctxt kind i s1 = Return (r, ctxt') s' \<longrightarrow>
    r = 0 \<and> (\<exists>access. idt_gate m b (ucast v) = (c_ip ctxt', c_cs ctxt', access)) \<and>
    (\<exists>g'. guest_of (kern s') k = Some g' \<and>
      pending_traps (k_flags (kthreads (kern s') k)) n (g_pct g') @ pending_irqs (g_pct g') = L)"
proof (intro allI impI)
  fix r ctxt' s' assume "deliver c acc this ctxt kind i s1 = Return (r, ctxt') s'"
  from deliver_Return [OF this k g] L same show "r = 0 \<and> (\<exists>access. idt_gate m b (ucast v) = (c_ip ctxt', c_cs ctxt', access)) \<and>
    (\<exists>g'. guest_of (kern s') k = Some g' \<and>
      pending_traps (k_flags (kthreads (kern s') k)) n (g_pct g') @ pending_irqs (g_pct g') = L)"
    by (auto simp: pending_traps_def pending_irqs_def)
qed

lemma case_cons: "xs = (a, b) # ys \<Longrightarrow> (case xs of [] \<Rightarrow> P | (a, b) # zs \<Rightarrow> Q a b) = Q a b"
  by simp

text \<open>C4. Which virtual interrupt a guest gets: on the way back to a guest without a software trap,
  the first of the deliverable events is delivered, in the order trap, extended trap, hardware
  interrupts, extended interrupts, lowest number first, and nothing happens when there is none.
  When the delivery returns, the guest resumes at the handler of that event, and exactly that event
  is no longer pending: no event is lost, repeated or reordered.\<close>

theorem raise_pend_irqs_priority:
  assumes k: "k = current_kthread (cpus (kern s) this)" and g: "guest_of (kern s) k = Some g"
    and guest: "\<not> is_hpv_irq_ctxt ctxt" "g_sw_trap g AND 1 = 0"
    and f: "f = k_flags (kthreads (kern s) k)" and n: "n = unat (c_irq_nr ctxt)"
  shows "case deliverable f n (g_pct g) of
      [] \<Rightarrow> raise_pend_irqs c acc this ctxt s = Return (- 1, ctxt) s
    | (kind, i) # es \<Rightarrow> \<forall>r ctxt' s'. raise_pend_irqs c acc this ctxt s = Return (r, ctxt') s' \<longrightarrow>
        r = 0 \<and> (\<exists>access. idt_gate (gmem s) (idtr_linear_base (pct_arch (g_pct g)))
          (ucast (vector_of kind (g_pct g) i)) = (c_ip ctxt', c_cs ctxt', access)) \<and>
        (\<exists>g'. guest_of (kern s') k = Some g' \<and>
          pending_traps (k_flags (kthreads (kern s') k)) n (g_pct g') @ pending_irqs (g_pct g') =
          remove1 (kind, i) (pending_traps f n (g_pct g) @ pending_irqs (g_pct g)))"
proof -
  let ?t = "g_pct g"
  let ?h = "hw_irqs_pend ?t AND NOT (hw_irqs_mask ?t)" and ?e = "ext_irqs_pend ?t AND NOT (ext_irqs_to_mask ?t)"
  have et: "are_ext_traps_pending ?t = (if bit (ext_irqs_pend ?t) 16 then 16 else - 1)"
  proof (cases "ext_irqs_pend ?t AND PRTOS_EXT_TRAPS" rule: first_of_cases)
    case 1
    then show ?thesis by (simp add: are_ext_traps_pending_def PRTOS_EXT_TRAPS_def word_and_bit32_eq_0)
  next
    case (2 l)
    then have "bit (ext_irqs_pend ?t) l" "l = 16" by (auto simp: lowest_bit_def PRTOS_EXT_TRAPS_def bit_simps)
    with 2 show ?thesis by (simp add: are_ext_traps_pending_def)
  qed
  have fl: "are_kthread_flags_set (kern s) k KTHREAD_TRAP_PENDING_F = f AND KTHREAD_TRAP_PENDING_F"
    by (simp add: are_kthread_flags_set_def f)
  consider (trap) "f AND KTHREAD_TRAP_PENDING_F \<noteq> 0"
    | (ext) "f AND KTHREAD_TRAP_PENDING_F = 0" "bit (ext_irqs_pend ?t) 16"
    | (off) "f AND KTHREAD_TRAP_PENDING_F = 0" "\<not> bit (ext_irqs_pend ?t) 16" "\<not> are_part_ctrl_table_irqs_set (iflags ?t)"
    | (on) "f AND KTHREAD_TRAP_PENDING_F = 0" "\<not> bit (ext_irqs_pend ?t) 16" "are_part_ctrl_table_irqs_set (iflags ?t)"
    by blast
  then show ?thesis
  proof cases
    case trap
    let ?s = "upd_kern (\<lambda>s. upd_pct k (\<lambda>t. t\<lparr>iflags := disable_part_ctrl_table_irqs (iflags t)\<rparr>)
       (clear_kthread_flags k KTHREAD_TRAP_PENDING_F s)) s"
    let ?g = "g\<lparr>g_pct := ?t\<lparr>pct_flags := pct_flags ?t AND NOT KTHREAD_TRAP_PENDING_F\<rparr>\<rparr>"
    have ev: "raise_pend_irqs c acc this ctxt s = deliver c acc this ctxt VTrap (uint (c_irq_nr ctxt)) ?s"
      using trap g guest k fl by (simp add: raise_pend_irqs_def Let_def)
    have k1: "k = current_kthread (cpus (kern ?s) this)" and g1: "guest_of (kern ?s) k = Some ?g"
      and f1: "k_flags (kthreads (kern ?s) k) = f AND NOT KTHREAD_TRAP_PENDING_F"
      using k g f by (simp_all add: upd_kern_def clear_kthread_flags_def andnot_flags_def state_writes guest_of_def
          disable_part_ctrl_table_irqs_def)
    have "(f AND NOT KTHREAD_TRAP_PENDING_F) AND KTHREAD_TRAP_PENDING_F = 0" by (simp add: and.assoc)
    then have L: "pending_traps (k_flags (kthreads (kern ?s) k)) n (g_pct ?g) @ pending_irqs (g_pct ?g) =
        remove1 (VTrap, n) (pending_traps f n ?t @ pending_irqs ?t)"
      using trap by (simp add: f1 pending_traps_def pending_irqs_def)
    have del: "deliverable f n ?t = (VTrap, n) # tl (deliverable f n ?t)"
      using trap by (simp add: deliverable_def pending_traps_def)
    show ?thesis unfolding case_cons [OF del] ev
      by (rule deliver_event [OF k1 g1 L]) (simp_all add: upd_kern_def n)
  next
    case ext
    let ?s = "upd_kern (upd_pct k (\<lambda>t. t\<lparr>ext_irqs_pend := ext_irqs_pend t AND NOT (bit32 16),
       iflags := disable_part_ctrl_table_irqs (iflags t)\<rparr>)) s"
    let ?g = "g\<lparr>g_pct := ?t\<lparr>ext_irqs_pend := ext_irqs_pend ?t AND NOT (bit32 16)\<rparr>\<rparr>"
    have ev: "raise_pend_irqs c acc this ctxt s = deliver c acc this ctxt VExtIrq 16 ?s"
      using ext g guest k fl et by (simp add: raise_pend_irqs_def Let_def)
    have k1: "k = current_kthread (cpus (kern ?s) this)" and g1: "guest_of (kern ?s) k = Some ?g"
      and f1: "k_flags (kthreads (kern ?s) k) = f"
      using k g f by (simp_all add: upd_kern_def state_writes guest_of_def disable_part_ctrl_table_irqs_def)
    have same: "(ext_irqs_pend ?t AND NOT (bit32 16)) AND NOT (ext_irqs_to_mask ?t) AND NOT PRTOS_EXT_TRAPS =
        ext_irqs_pend ?t AND NOT (ext_irqs_to_mask ?t) AND NOT PRTOS_EXT_TRAPS"
      by (rule bit_word_eqI) (auto simp: bit_simps PRTOS_EXT_TRAPS_def)
    have L: "pending_traps (k_flags (kthreads (kern ?s) k)) n (g_pct ?g) @ pending_irqs (g_pct ?g) =
        remove1 (VExtIrq, 16) (pending_traps f n ?t @ pending_irqs ?t)"
      using ext by (simp add: f1 pending_traps_def pending_irqs_def same bit_simps)
    have del: "deliverable f n ?t = (VExtIrq, 16) # tl (deliverable f n ?t)"
      using ext by (simp add: deliverable_def pending_traps_def)
    show ?thesis unfolding case_cons [OF del] ev
      by (rule deliver_event [OF k1 g1 L]) (simp_all add: upd_kern_def)
  next
    case off
    then show ?thesis using g guest k fl et
      by (simp add: deliverable_def pending_traps_def raise_pend_irqs_def Let_def)
  next
    case on
    have none: "pending_traps f n ?t = []" using on by (simp add: pending_traps_def)
    then have del: "deliverable f n ?t = pending_irqs ?t" using on by (simp add: deliverable_def)
    have ext: "ext_irqs_pend ?t AND NOT (ext_irqs_to_mask ?t) AND NOT PRTOS_EXT_TRAPS = ?e"
      using on(2) by (intro bit_word_eqI) (auto simp: bit_simps PRTOS_EXT_TRAPS_def)
    then have irqs: "pending_irqs ?t = map (Pair VHwIrq) (filter (bit ?h) [0..<32]) @
        map (Pair VExtIrq) (filter (bit ?e) [0..<32])" by (simp only: pending_irqs_def)
    show ?thesis
    proof (cases ?h rule: first_of_cases)
      case (2 l)
      let ?s = "upd_kern (upd_pct k (\<lambda>t. t\<lparr>hw_irqs_pend := hw_irqs_pend t AND NOT (bit32 l),
         hw_irqs_mask := mask_part_ctrl_table_irq (hw_irqs_mask t) (bit32 l),
         iflags := disable_part_ctrl_table_irqs (iflags t)\<rparr>)) s"
      let ?g = "g\<lparr>g_pct := ?t\<lparr>hw_irqs_pend := hw_irqs_pend ?t AND NOT (bit32 l)\<rparr>\<rparr>"
      have ev: "raise_pend_irqs c acc this ctxt s = deliver c acc this ctxt VHwIrq (int l) ?s"
        using on g guest k fl et 2 by (simp add: raise_pend_irqs_def Let_def hw_irqs_pending_eq)
      have k1: "k = current_kthread (cpus (kern ?s) this)" and g1: "guest_of (kern ?s) k = Some ?g"
        and f1: "k_flags (kthreads (kern ?s) k) = f"
        using k g f by (simp_all add: upd_kern_def state_writes guest_of_def disable_part_ctrl_table_irqs_def
            mask_part_ctrl_table_irq_def)
      have same: "(hw_irqs_pend ?t AND NOT (bit32 l)) AND NOT (hw_irqs_mask ?t) = ?h AND NOT (bit32 l)"
        by (simp add: ac_simps)
      have L: "pending_traps (k_flags (kthreads (kern ?s) k)) n (g_pct ?g) @ pending_irqs (g_pct ?g) =
          remove1 (VHwIrq, l) (pending_traps f n ?t @ pending_irqs ?t)"
        using on bits_first [OF 2(3)] by (simp add: f1 none irqs) (simp add: pending_traps_def pending_irqs_def same ext)
      have "pending_irqs ?t = (VHwIrq, l) # tl (pending_irqs ?t)"
        using bits_first [OF 2(3)] by (simp add: irqs)
      then have hd: "deliverable f n ?t = (VHwIrq, l) # tl (pending_irqs ?t)" by (simp only: del)
      show ?thesis unfolding case_cons [OF hd] ev
        by (rule deliver_event [OF k1 g1 L]) (simp_all add: upd_kern_def)
    next
      case h: 1
      show ?thesis
      proof (cases ?e rule: first_of_cases)
        case 1
        then show ?thesis using on g guest k fl et h
          by (simp add: raise_pend_irqs_def Let_def hw_irqs_pending_eq are_ext_irqs_pending_def del irqs bits_none [THEN iffD2])
      next
        case (2 l)
        let ?s = "upd_kern (upd_pct k (\<lambda>t. t\<lparr>ext_irqs_pend := ext_irqs_pend t AND NOT (bit32 l),
           ext_irqs_to_mask := mask_part_ctrl_table_irq (ext_irqs_to_mask t) (bit32 l),
           iflags := disable_part_ctrl_table_irqs (iflags t)\<rparr>)) s"
        let ?g = "g\<lparr>g_pct := ?t\<lparr>ext_irqs_pend := ext_irqs_pend ?t AND NOT (bit32 l)\<rparr>\<rparr>"
        have ev: "raise_pend_irqs c acc this ctxt s = deliver c acc this ctxt VExtIrq (int l) ?s"
          using on g guest k fl et h 2 by (simp add: raise_pend_irqs_def Let_def hw_irqs_pending_eq are_ext_irqs_pending_def)
        have k1: "k = current_kthread (cpus (kern ?s) this)" and g1: "guest_of (kern ?s) k = Some ?g"
          and f1: "k_flags (kthreads (kern ?s) k) = f"
          using k g f by (simp_all add: upd_kern_def state_writes guest_of_def disable_part_ctrl_table_irqs_def
              mask_part_ctrl_table_irq_def)
        have same: "(ext_irqs_pend ?t AND NOT (bit32 l)) AND NOT (ext_irqs_to_mask ?t) AND NOT PRTOS_EXT_TRAPS = ?e AND NOT (bit32 l)"
          using on(2) by (intro bit_word_eqI) (auto simp: bit_simps PRTOS_EXT_TRAPS_def)
        have fb: "filter (bit ?e) [0..<32] = l # filter (bit (?e AND NOT (bit32 l))) [0..<32]" by (rule bits_first [OF 2(3)])
        have L: "pending_traps (k_flags (kthreads (kern ?s) k)) n (g_pct ?g) @ pending_irqs (g_pct ?g) =
            remove1 (VExtIrq, l) (pending_traps f n ?t @ pending_irqs ?t)"
          using on h(1) fb by (simp add: f1 none irqs bits_none [THEN iffD2]) (simp add: pending_traps_def pending_irqs_def same ext bits_none [THEN iffD2] bit_simps)
        have "pending_irqs ?t = (VExtIrq, l) # tl (pending_irqs ?t)"
          using fb h(1) by (simp add: irqs bits_none [THEN iffD2])
        then have hd: "deliverable f n ?t = (VExtIrq, l) # tl (pending_irqs ?t)" by (simp only: del)
        show ?thesis unfolding case_cons [OF hd] ev
          by (rule deliver_event [OF k1 g1 L]) (simp_all add: upd_kern_def)
      qed
    qed
  qed
qed

section \<open>A guest with two pending interrupts\<close>

text \<open>Its gate 0 is an interrupt gate to \<open>0x6002000\<close> in a segment of ring 1.\<close>

definition demo_ctxt :: cpu_ctxt where
  "demo_ctxt = \<lparr>c_bx = 0, c_cx = 0, c_dx = 0, c_si = 0, c_di = 0, c_bp = 0, c_ax = 0, c_ds = 0x22, c_es = 0x22,
     c_fs = 0, c_gs = 0, c_irq_nr = 0, c_err_code = 0, c_ip = 0x6000123, c_cs = 0x19, c_flags = 0x202,
     c_sp = 0x6005000, c_ss = 0x22\<rparr>"

definition demo_virq :: comms where
  "demo_virq = \<lparr>kern = upd_pct (KGuest 0 0) (\<lambda>t. t\<lparr>iflags := 0x200, hw_irqs_pend := 6\<rparr>) demo_state,
     channel_table = undefined, port_table = undefined,
     gmem = store_word 0x6001004 0x06008e00 (store_word 0x6001000 0x00192000 (\<lambda>_. 0))\<rparr>"

lemma demo_fix_stack:
  "case fix_stack (\<lambda>_ _. True) 0 demo_ctxt 1 0 False demo_virq of Return _ _ \<Rightarrow> True | Stop _ \<Rightarrow> False"
  "idt_gate (gmem demo_virq) 0x6001000 0 = (0x6002000, 0x19, 0x8e)"
  "test_sp (\<lambda>_ _. True) 0xfd000000 16 = Some 0"
  by code_simp+

lemma demo_virq_guest:
  "guest_of (kern demo_virq) (KGuest 0 0) = Some ((demo_guest 0 0)\<lparr>g_pct := demo_pct\<lparr>iflags := 0x200, hw_irqs_pend := 6\<rparr>\<rparr>)"
  "current_kthread (cpus (kern demo_virq) 0) = KGuest 0 0"
  by (simp_all add: demo_virq_def state_writes guest_of_def demo_state_def demo_thread_def demo_guest_def)

lemma demo_gate: "idt_gate (gmem demo_virq) (idtr_linear_base (pct_arch (g_pct ((demo_guest 0 0)\<lparr>g_pct :=
    demo_pct\<lparr>iflags := 0x200, hw_irqs_pend := 6\<rparr>\<rparr>)))) 0 = (0x6002000, 0x19, 0x8e)"
  using demo_fix_stack(2) by (simp add: demo_pct_def)

theorem fix_stack_frame_witness:
  "\<exists>ctxt' s'. fix_stack (\<lambda>_ _. True) 0 demo_ctxt 1 0 False demo_virq = Return ctxt' s' \<and>
    c_ip ctxt' = 0x6002000 \<and> c_cs ctxt' = 0x19 \<and> words_at (gmem s') 0x6004ff4 [0x6000123, 0x19, 0x202]"
proof -
  obtain ctxt' s' where r: "fix_stack (\<lambda>_ _. True) 0 demo_ctxt 1 0 False demo_virq = Return ctxt' s'"
    using demo_fix_stack(1) by (auto split: outcome.splits)
  show ?thesis
    using fix_stack_frame [OF r demo_virq_guest(2) [symmetric] demo_virq_guest(1) demo_gate refl refl refl] r
    by (intro exI [of _ ctxt'] exI [of _ s']) (auto simp: frame_words_def demo_ctxt_def CPU_FLAG_IF_def)
qed

lemma demo_raise:
  "case raise_pend_irqs demo_conf (\<lambda>_ _. True) 0 demo_ctxt demo_virq of Return _ _ \<Rightarrow> True | Stop _ \<Rightarrow> False"
  by code_simp

theorem raise_pend_irqs_priority_witness:
  "\<exists>ctxt' s' g'. raise_pend_irqs demo_conf (\<lambda>_ _. True) 0 demo_ctxt demo_virq = Return (0, ctxt') s' \<and>
     c_ip ctxt' = 0x6002000 \<and> guest_of (kern s') (KGuest 0 0) = Some g' \<and>
     pending_traps (k_flags (kthreads (kern s') (KGuest 0 0))) 0 (g_pct g') @ pending_irqs (g_pct g') = [(VHwIrq, 2)]"
proof -
  let ?t = "demo_pct\<lparr>iflags := 0x200, hw_irqs_pend := 6\<rparr>"
  have d: "deliverable KTHREAD_READY_F 0 ?t = [(VHwIrq, 1), (VHwIrq, 2)]"
    "pending_traps KTHREAD_READY_F 0 ?t @ pending_irqs ?t = [(VHwIrq, 1), (VHwIrq, 2)]"
    "vector_of VHwIrq ?t 1 = 0" "idtr_linear_base (pct_arch ?t) = 0x6001000"
    by code_simp+
  have f: "KTHREAD_READY_F = k_flags (kthreads (kern demo_virq) (KGuest 0 0))" "(0 :: nat) = unat (c_irq_nr demo_ctxt)"
    "\<not> is_hpv_irq_ctxt demo_ctxt" "g_sw_trap ((demo_guest 0 0)\<lparr>g_pct := ?t\<rparr>) AND 1 = 0" by code_simp+
  obtain r ctxt' s' where run: "raise_pend_irqs demo_conf (\<lambda>_ _. True) 0 demo_ctxt demo_virq = Return (r, ctxt') s'"
    using demo_raise by (auto split: outcome.splits)
  show ?thesis
    using raise_pend_irqs_priority [OF demo_virq_guest(2) [symmetric] demo_virq_guest(1) f(3,4,1,2)] d demo_fix_stack(2) run
    by auto
qed

text \<open>C37. The stack of a guest that takes an interrupt at its own privilege is wherever its stack
  pointer says: pages that the hypervisor can write pass the probe, and with a stack pointer above
  \<open>CONFIG_PRTOS_OFFSET\<close> the frame, three words the guest chooses, overwrites hypervisor memory.\<close>

theorem fix_stack_writes_hypervisor:
  assumes k: "k = current_kthread (cpus (kern s) this)" and g: "guest_of (kern s) k = Some g"
    and gate: "idt_gate (gmem s) (idtr_linear_base (pct_arch (g_pct g))) vector = (ip, cs, access)"
    and valid: "vector < max_idt_vec (pct_arch (g_pct g))" "ip < CONFIG_PRTOS_OFFSET" "cs AND 3 \<noteq> 0"
    and ring: "c_cs ctxt AND 3 = cs AND 3" and probe: "test_sp acc (c_sp ctxt) 16 = Some 0"
    and sp: "CONFIG_PRTOS_OFFSET + 16 \<le> c_sp ctxt"
  shows "\<exists>ctxt' s'. fix_stack acc this ctxt irq vector False s = Return ctxt' s' \<and>
    CONFIG_PRTOS_OFFSET < c_sp ctxt' \<and>
    words_at (gmem s') (c_sp ctxt') [c_ip ctxt, c_cs ctxt, (c_flags ctxt AND NOT CPU_FLAG_IF) OR iflags (g_pct g)]"
proof -
  have "\<exists>ctxt' s'. fix_stack acc this ctxt irq vector False s = Return ctxt' s'"
    using assms by (auto simp: fix_stack_def Let_def push_frame_def not_le split: prod.splits)
  then obtain ctxt' s' where r: "fix_stack acc this ctxt irq vector False s = Return ctxt' s'" by blast
  have "uint (c_sp ctxt - 12) = uint (c_sp ctxt) - 12"
    using sp by (subst uint_sub_lem [THEN iffD1]) (simp_all add: word_le_def CONFIG_PRTOS_OFFSET_def)
  then have "CONFIG_PRTOS_OFFSET < c_sp ctxt - 12" using sp by (simp add: word_le_def word_less_def CONFIG_PRTOS_OFFSET_def)
  moreover have "4 * of_nat (length (frame_words ctxt (iflags (g_pct g)) irq False False)) = (12 :: u32)"
    by (simp add: frame_words_def)
  ultimately show ?thesis
    using fix_stack_Return [OF r k g gate refl refl refl] ring r
    by (intro exI [of _ ctxt'] exI [of _ s']) (auto simp: frame_words_def)
qed

theorem fix_stack_writes_hypervisor_witness:
  "\<exists>ctxt' s'. fix_stack (\<lambda>_ _. True) 0 (demo_ctxt\<lparr>c_sp := 0xfd000000\<rparr>) 1 0 False demo_virq = Return ctxt' s' \<and>
    CONFIG_PRTOS_OFFSET < c_sp ctxt' \<and> words_at (gmem s') (c_sp ctxt') [0x6000123, 0x19, 0x202]"
  using fix_stack_writes_hypervisor [OF demo_virq_guest(2) [symmetric] demo_virq_guest(1) demo_gate, of "demo_ctxt\<lparr>c_sp := 0xfd000000\<rparr>" "\<lambda>_ _. True" 1]
    demo_fix_stack(3)
  by (simp add: demo_ctxt_def demo_pct_def CONFIG_PRTOS_OFFSET_def CPU_FLAG_IF_def)

end
