(* ===== verification/VMap.thy ===== *)
theory VMap
  imports PhysMem Irqs
begin

text \<open>
  Address translation: the page table entries of \<open>core/include/x86/paging.h\<close>, the mapping of pages
  of \<open>core/kernel/x86/vmmap.c\<close>, the accesses to physical memory of \<open>core/kernel/x86/physmm.c\<close> and
  the initial page table of a partition, \<open>core/kernel/mmu/vmmap.c\<close>.  Page tables are words of the
  physical memory \<open>pmem\<close>.  The hypervisor reaches them through the virtual frames of the page
  cache: an access to a virtual address goes to the physical page the frame shows (\<open>window\<close>), and is
  a fault, \<open>None\<close>, where nothing is mapped.  Word accesses are aligned, so that they stay within a
  page.  The translation buffer of the processor is left out.
\<close>

section \<open>Page table entries\<close>

definition PG_ARCH_PRESENT :: u32 where "PG_ARCH_PRESENT = 0x001"
definition PG_ARCH_RW :: u32 where "PG_ARCH_RW = 0x002"
definition PG_ARCH_USER :: u32 where "PG_ARCH_USER = 0x004"
definition PG_ARCH_PCD :: u32 where "PG_ARCH_PCD = 0x010"
definition PG_ARCH_PSE :: u32 where "PG_ARCH_PSE = 0x080"
definition PG_ARCH_GLOBAL :: u32 where "PG_ARCH_GLOBAL = 0x100"
definition PG_ARCH_ADDR :: u32 where "PG_ARCH_ADDR = NOT 0xfff"
definition PG_ATTR_USER :: u32 where "PG_ATTR_USER = push_bit 17 1"

definition PTDL1_SHIFT :: nat where "PTDL1_SHIFT = 22"
definition PTDL1SIZE :: u32 where "PTDL1SIZE = 4096"
definition PTDL2SIZE :: u32 where "PTDL2SIZE = 4096"
definition PTDL1ENTRIES :: nat where "PTDL1ENTRIES = 1024"
definition PTDL2ENTRIES :: nat where "PTDL2ENTRIES = 1024"
definition LPAGE_SIZE :: u32 where "LPAGE_SIZE = 0x400000"
definition PPAG_PTDL1 :: "3 word" where "PPAG_PTDL1 = 1"
definition PPAG_PTDL2 :: "3 word" where "PPAG_PTDL2 = 2"
definition CONFIG_PRTOS_LOAD_ADDR :: u32 where "CONFIG_PRTOS_LOAD_ADDR = 0x1000000"
definition PRTOS_PCTRLTAB_ADDR :: u32 where "PRTOS_PCTRLTAB_ADDR = CONFIG_PRTOS_OFFSET - 256 * 1024"
definition PRTOS_MEM_AREA_UNMAPPED :: u32 where "PRTOS_MEM_AREA_UNMAPPED = 2"
definition PRTOS_MEM_AREA_READONLY :: u32 where "PRTOS_MEM_AREA_READONLY = 4"
definition PRTOS_MEM_AREA_UNCACHEABLE :: u32 where "PRTOS_MEM_AREA_UNCACHEABLE = 8"

definition VADDR_TO_PDE_INDEX :: "u32 \<Rightarrow> u32" where
  "VADDR_TO_PDE_INDEX x = drop_bit 22 (x AND 0xffc00000)"

definition VADDR_TO_PTE_INDEX :: "u32 \<Rightarrow> u32" where
  "VADDR_TO_PTE_INDEX x = drop_bit 12 (x AND 0x3ff000)"

definition VIRT2PHYS :: "u32 \<Rightarrow> u32" where
  "VIRT2PHYS x = x - CONFIG_PRTOS_OFFSET + CONFIG_PRTOS_LOAD_ADDR"

definition PHYS2VIRT :: "u32 \<Rightarrow> u32" where
  "PHYS2VIRT x = x + CONFIG_PRTOS_OFFSET - CONFIG_PRTOS_LOAD_ADDR"

definition IS_PRESENT :: "u32 \<Rightarrow> bool" where "IS_PRESENT x \<longleftrightarrow> x AND PG_ARCH_PRESENT \<noteq> 0"
definition SET_NOT_PRESENT :: "u32 \<Rightarrow> u32" where "SET_NOT_PRESENT x = x AND NOT PG_ARCH_PRESENT"
definition SET_PTE_RONLY :: "u32 \<Rightarrow> u32" where "SET_PTE_RONLY x = x AND NOT PG_ARCH_RW"
definition SET_PTE_UNCACHED :: "u32 \<Rightarrow> u32" where "SET_PTE_UNCACHED x = x AND NOT PG_ARCH_PCD"

definition vm_arch_attr_to_attr :: "u32 \<Rightarrow> u32" where
  "vm_arch_attr_to_attr entry =
     (let flags = entry AND (PAGE_SIZE - 1); attr = 0;
          attr = (if flags AND PG_ARCH_PRESENT \<noteq> 0 then attr OR PG_ATTR_PRESENT else attr);
          attr = (if flags AND PG_ARCH_USER \<noteq> 0 then attr OR PG_ATTR_USER else attr);
          attr = (if flags AND PG_ARCH_RW \<noteq> 0 then attr OR PG_ATTR_RW else attr);
          attr = (if flags AND PG_ARCH_PCD = 0 then attr OR PG_ATTR_CACHED else attr)
      in attr OR (flags AND NOT (PG_ARCH_PRESENT OR PG_ARCH_USER OR PG_ARCH_RW OR PG_ARCH_PCD)))"

definition vm_attr_to_arch_attr :: "u32 \<Rightarrow> u32" where
  "vm_attr_to_arch_attr flags =
     (let attr = 0;
          attr = (if flags AND PG_ATTR_PRESENT \<noteq> 0 then attr OR PG_ARCH_PRESENT else attr);
          attr = (if flags AND PG_ATTR_USER \<noteq> 0 then attr OR PG_ARCH_USER else attr);
          attr = (if flags AND PG_ATTR_RW \<noteq> 0 then attr OR PG_ARCH_RW else attr);
          attr = (if flags AND PG_ATTR_CACHED = 0 then attr OR PG_ARCH_PCD else attr)
      in attr OR (flags AND 0xffff))"

section \<open>Access to memory\<close>

record mmu =
  mm :: physmm
  mkern :: kstate
  pmem :: memory

text \<open>Through a virtual address of the hypervisor.\<close>

definition vread :: "mmu \<Rightarrow> u32 \<Rightarrow> u32 option" where
  "vread s v = map_option (\<lambda>p. load_word (pmem s) (p + (v AND (PAGE_SIZE - 1)))) (window (mm s) (v AND PAGE_MASK))"

definition vwrite :: "u32 \<Rightarrow> u32 \<Rightarrow> mmu \<Rightarrow> mmu option" where
  "vwrite v x s = map_option (\<lambda>p. s\<lparr>pmem := store_word (p + (v AND (PAGE_SIZE - 1))) x (pmem s)\<rparr>)
     (window (mm s) (v AND PAGE_MASK))"

text \<open>Calls into the physical memory manager.\<close>

definition map_page :: "u32 \<Rightarrow> page_ref \<Rightarrow> mmu \<Rightarrow> (u32 \<times> mmu) option" where
  "map_page p_addr page s = do { (v, m) \<leftarrow> vcache_map_page p_addr page (mm s); Some (v, s\<lparr>mm := m\<rparr>) }"

definition unlock_page :: "page_ref \<Rightarrow> mmu \<Rightarrow> mmu option" where
  "unlock_page page s = do { m \<leftarrow> vcache_unlock_page page (mm s); Some (s\<lparr>mm := m\<rparr>) }"

definition find_page :: "prtos_conf \<Rightarrow> u32 \<Rightarrow> nat \<Rightarrow> mmu \<Rightarrow> ((page_ref \<times> u32) option \<times> mmu) option" where
  "find_page c a p s = do { (r, k) \<leftarrow> pmm_find_page c a p (mkern s); Some (r, s\<lparr>mkern := k\<rparr>) }"

definition anonymous_page :: "prtos_conf \<Rightarrow> u32 \<Rightarrow> mmu \<Rightarrow> (page_ref \<times> mmu) option" where
  "anonymous_page c a s = do {
     (r, k) \<leftarrow> phys_mm_find_anonymous_page c a (mkern s); r \<leftarrow> r; Some (r, s\<lparr>mkern := k\<rparr>) }"

definition inc_counter :: "page_ref \<Rightarrow> mmu \<Rightarrow> mmu option" where
  "inc_counter page s = do { m \<leftarrow> phys_page_inc_counter page (mm s); Some (s\<lparr>mm := m\<rparr>) }"

definition dec_counter :: "page_ref \<Rightarrow> mmu \<Rightarrow> mmu option" where
  "dec_counter page s = do { m \<leftarrow> phys_page_dec_counter page (mm s); Some (s\<lparr>mm := m\<rparr>) }"

definition set_type :: "page_ref \<Rightarrow> 3 word \<Rightarrow> mmu \<Rightarrow> mmu" where
  "set_type page ty s = s\<lparr>mm := upd_page page (\<lambda>p. p\<lparr>pp_type := ty\<rparr>) (mm s)\<rparr>"

definition page_of_s :: "mmu \<Rightarrow> page_ref \<Rightarrow> phys_page" where
  "page_of_s s page = phys_page_table (mm s) page"

definition read_by_pass_mmu_byte :: "prtos_conf \<Rightarrow> u32 \<Rightarrow> mmu \<Rightarrow> (u8 \<times> mmu) option" where
  "read_by_pass_mmu_byte c a s =
     (if a > CONFIG_PRTOS_OFFSET
      then map_option (\<lambda>p. (pmem s (p + (a AND (PAGE_SIZE - 1))), s)) (window (mm s) (a AND PAGE_MASK))
      else do {
        (page, s) \<leftarrow> anonymous_page c a s;
        (v, s) \<leftarrow> map_page a page s;
        p \<leftarrow> window (mm s) (v AND PAGE_MASK);
        let x = pmem s (p + (v AND (PAGE_SIZE - 1)));
        s \<leftarrow> unlock_page page s;
        Some (x, s) })"

definition read_by_pass_mmu_word :: "prtos_conf \<Rightarrow> u32 \<Rightarrow> mmu \<Rightarrow> (u32 \<times> mmu) option" where
  "read_by_pass_mmu_word c a s =
     (if a > CONFIG_PRTOS_OFFSET then do { x \<leftarrow> vread s a; Some (x, s) }
      else do {
        (page, s) \<leftarrow> anonymous_page c a s;
        (v, s) \<leftarrow> map_page a page s;
        x \<leftarrow> vread s v;
        s \<leftarrow> unlock_page page s;
        Some (x, s) })"

definition write_by_pass_mmu_word :: "prtos_conf \<Rightarrow> u32 \<Rightarrow> u32 \<Rightarrow> mmu \<Rightarrow> mmu option" where
  "write_by_pass_mmu_word c a x s =
     (if a > CONFIG_PRTOS_OFFSET then vwrite a x s
      else do {
        (page, s) \<leftarrow> anonymous_page c a s;
        (v, s) \<leftarrow> map_page a page s;
        s \<leftarrow> vwrite v x s;
        unlock_page page s })"

definition enable_by_pass_mmu :: "prtos_conf \<Rightarrow> u32 \<Rightarrow> nat \<Rightarrow> mmu \<Rightarrow> (u32 \<times> page_ref \<times> mmu) option" where
  "enable_by_pass_mmu c a p s = do {
     (r, s) \<leftarrow> find_page c a p s;
     (page, _) \<leftarrow> r;
     (v, s) \<leftarrow> map_page a page s;
     Some (v, page, s) }"

definition disable_by_pass_mmu :: "page_ref \<Rightarrow> mmu \<Rightarrow> mmu option" where
  "disable_by_pass_mmu page s = unlock_page page s"

section \<open>The frames of the hypervisor\<close>

definition ROUNDUP :: "u32 \<Rightarrow> u32 \<Rightarrow> u32" where
  "ROUNDUP addr ps = ((NOT addr + 1) AND (ps - 1)) + addr"

text \<open>What \<open>setup_vm_map\<close> leaves to the page cache: the virtual addresses after the hypervisor.\<close>

definition setup_vm_map_frames :: "prtos_conf \<Rightarrow> u32 \<times> int" where
  "setup_vm_map_frames c =
     (let a = phys_mem_area_table c (unat (hpv_physical_memory_areas_offset c));
          lim = area_start_addr a + area_size a - 1;
          start = ROUNDUP (PHYS2VIRT (lim + 1)) LPAGE_SIZE
      in (start, sint ((0xffffffff - start + 1) div PAGE_SIZE)))"

section \<open>Mapping a page of a guest\<close>

text \<open>The allocator of page table pages is a parameter of \<open>vm_map_user_page\<close>; its state is the pool
  and the size left of it.\<close>

type_synonym pool = "u32 \<times> int"

definition vm_map_user_page ::
    "prtos_conf \<Rightarrow> nat \<Rightarrow> u32 \<Rightarrow> u32 \<Rightarrow> u32 \<Rightarrow> u32 \<Rightarrow>
     (u32 \<Rightarrow> u32 \<Rightarrow> pool \<Rightarrow> mmu \<Rightarrow> (u32 \<times> pool \<times> mmu) option) \<Rightarrow> pool \<Rightarrow> mmu \<Rightarrow> (int \<times> pool \<times> mmu) option" where
  "vm_map_user_page c k ptd_level_1 p_addr v_addr flags alloc pool s = do {
     _ \<leftarrow> ASSERT (p_addr AND (PAGE_SIZE - 1) = 0 \<and> v_addr AND (PAGE_SIZE - 1) = 0);
     _ \<leftarrow> ASSERT (v_addr < CONFIG_PRTOS_OFFSET);
     let l1e = ptd_level_1 + 4 * VADDR_TO_PDE_INDEX v_addr;
     let l2e = 4 * VADDR_TO_PTE_INDEX v_addr;
     e \<leftarrow> vread s l1e;
     if e AND PG_ARCH_PRESENT = 0 then do {
       (p_table, pool, s) \<leftarrow> alloc PTDL2SIZE PTDL2SIZE pool s;
       (r, s) \<leftarrow> find_page c p_table k s;
       case r of None \<Rightarrow> Some (- 1, pool, s)
       | Some (page, _) \<Rightarrow> do {
         s \<leftarrow> inc_counter page (set_type page PPAG_PTDL2 s);
         (v, s) \<leftarrow> map_page p_table page s;
         s \<leftarrow> foldM (\<lambda>e. vwrite (v + 4 * of_nat e) 0) [0..<PTDL2ENTRIES] s;
         s \<leftarrow> vwrite l1e (p_table OR PG_ARCH_PRESENT OR PG_ARCH_RW) s;
         s \<leftarrow> vwrite (v + l2e) ((p_addr AND PAGE_MASK) OR vm_attr_to_arch_attr flags) s;
         s \<leftarrow> unlock_page page s;
         Some (0, pool, s) } }
     else do {
       let p_table = e AND PAGE_MASK;
       (r, s) \<leftarrow> find_page c p_table k s;
       (page, _) \<leftarrow> r;
       _ \<leftarrow> ASSERT (pp_type (page_of_s s page) = PPAG_PTDL2);
       _ \<leftarrow> ASSERT (pp_counter (page_of_s s page) > 0);
       (v, s) \<leftarrow> map_page p_table page s;
       s \<leftarrow> vwrite (v + l2e) ((p_addr AND PAGE_MASK) OR vm_attr_to_arch_attr flags) s;
       s \<leftarrow> unlock_page page s;
       Some (0, pool, s) } }"

section \<open>The initial page table of a partition\<close>

fun vaddr_to_paddr :: "(nat \<Rightarrow> prtos_conf_memory_area) \<Rightarrow> nat \<Rightarrow> nat \<Rightarrow> u32 \<Rightarrow> u32" where
  "vaddr_to_paddr areas e 0 v = - 1"
| "vaddr_to_paddr areas e (Suc k) v =
     (if area_mapped_at (areas e) \<le> v \<and> area_mapped_at (areas e) + area_size (areas e) - 1 \<ge> v
      then v - area_mapped_at (areas e) + area_start_addr (areas e)
      else vaddr_to_paddr areas (Suc e) k v)"

definition s32 :: "int \<Rightarrow> int" where
  "s32 x = sint (word_of_int x :: u32)"

definition alloc_mem ::
    "prtos_conf \<Rightarrow> nat \<Rightarrow> u32 \<Rightarrow> u32 \<Rightarrow> pool \<Rightarrow> mmu \<Rightarrow> (u32 \<times> pool \<times> mmu) option" where
  "alloc_mem c p sz align pool s =
     (let (a, max_size) = pool;
          (a, max_size) = (if a AND (align - 1) \<noteq> 0
             then (align + (a AND NOT (align - 1)), s32 (max_size - uint (align - (a AND (align - 1)))))
             else (a, max_size));
          addr = a;
          pool = (a + sz, s32 (max_size - uint sz))
      in if snd pool < 0 then Some (- 1, pool, s)
         else do {
           s \<leftarrow> foldM (\<lambda>e. write_by_pass_mmu_word c (addr + 4 * of_nat e) 0) [0..<unat ((sz + 3) div 4)] s;
           let r = vaddr_to_paddr (\<lambda>e. part_area c p (int e)) 0 (nat (num_of_physical_memory_areas (partition_cfg c p))) addr;
           Some (r, pool, s) })"

text \<open>The loop over the pages of \<open>[a, b)\<close>; it does not end when the range begins at 0 and ends in
  the last page.\<close>

partial_function (option) page_loop ::
    "(u32 \<Rightarrow> u32 \<Rightarrow> 's \<Rightarrow> (int \<times> 's) option) \<Rightarrow> u32 \<Rightarrow> u32 \<Rightarrow> u32 \<Rightarrow> u32 \<Rightarrow> 's \<Rightarrow> (int \<times> u32 \<times> 's) option" where
  "page_loop body a b addr v s =
     (if addr \<ge> a \<and> addr < b then do {
        (r, s) \<leftarrow> body addr v s;
        if r < 0 then Some (- 1, v, s) else page_loop body a b (addr + PAGE_SIZE) (v + PAGE_SIZE) s }
      else Some (0, v, s))"

text \<open>A call of \<open>vm_map_user_page\<close> in such a loop.\<close>

definition map_user :: "prtos_conf \<Rightarrow> nat \<Rightarrow> u32 \<Rightarrow> u32 \<Rightarrow> u32 \<Rightarrow> u32 \<Rightarrow> pool \<times> mmu \<Rightarrow> (int \<times> pool \<times> mmu) option" where
  "map_user c p ptd attr addr v ps = vm_map_user_page c p ptd addr v attr (alloc_mem c p) (fst ps) (snd ps)"

text \<open>A sequence of steps that ends with the first failure.\<close>

definition then_ok :: "(int \<times> 'v \<times> 's) option \<Rightarrow> ('v \<Rightarrow> 's \<Rightarrow> (int \<times> 'v \<times> 's) option) \<Rightarrow> (int \<times> 'v \<times> 's) option" where
  "then_ok m f = do { (r, v, s) \<leftarrow> m; if r < 0 then Some (- 1, v, s) else f v s }"

definition setup_pbl ::
    "prtos_conf \<Rightarrow> (u32 \<Rightarrow> u32 option) \<Rightarrow> u32 \<Rightarrow> u32 \<Rightarrow> nat \<Rightarrow> u32 \<Rightarrow> u32 \<Rightarrow> pool \<Rightarrow> mmu \<Rightarrow> (int \<times> mmu) option" where
  "setup_pbl c alloc spbl epbl p ptd at pool s = do {
     _ \<leftarrow> ASSERT (epbl - spbl \<le> 256 * 1024);
     let boot = boot_partition_table c p;
     _ \<leftarrow> ASSERT (num_of_custom_files boot \<le> 3);
     let pt = partition_table (mkern s) p;
     stack \<leftarrow> (if pbl_stack pt = 0 then alloc (18 * PAGE_SIZE) else Some (pbl_stack pt));
     let s = s\<lparr>mkern := (mkern s)\<lparr>partition_table := (partition_table (mkern s))(p := pt\<lparr>pbl_stack := stack\<rparr>)\<rparr>\<rparr>;
     let ro = PG_ATTR_PRESENT OR PG_ATTR_USER OR PG_ATTR_CACHED;
     let a = VIRT2PHYS stack;
     (r, _, _, s) \<leftarrow> then_ok (page_loop (map_user c p ptd (ro OR PG_ATTR_RW)) a (a + 18 * PAGE_SIZE - 1) a (at - 18 * PAGE_SIZE) (pool, s))
      (\<lambda>_ ps. then_ok (page_loop (map_user c p ptd ro) spbl (spbl + 256 * 1024 - 1) spbl at ps)
      (\<lambda>_ ps. let a = boot_image_start boot;
                  s = snd ps;
                  s = s\<lparr>mkern := (mkern s)\<lparr>partition_table := (partition_table (mkern s))
                     (p := (partition_table (mkern s) p)\<lparr>p_image_start := a\<rparr>)\<rparr>\<rparr>
              in then_ok (page_loop (map_user c p ptd ro) a (a + img_size boot - 1) a a (fst ps, s))
      (\<lambda>v ps. foldM (\<lambda>i (r, v, ps). if r < 0 then Some (r, v, ps) else
           let f = custom_file_table boot i in
           page_loop (map_user c p ptd ro) (cf_start_addr f) (cf_start_addr f + cf_size f - 1) (cf_start_addr f) v ps)
        [0..<unat (num_of_custom_files boot)] (0, v, ps))));
     Some (r, s) }"

text \<open>The attributes of the pages of an area.\<close>

definition area_attr :: "u32 \<Rightarrow> u32" where
  "area_attr flags =
     (let attr = PG_ATTR_PRESENT OR PG_ATTR_USER;
          attr = (if flags AND PRTOS_MEM_AREA_UNCACHEABLE = 0 then attr OR PG_ATTR_CACHED else attr)
      in if flags AND PRTOS_MEM_AREA_READONLY = 0 then attr OR PG_ATTR_RW else attr)"

text \<open>The areas of the partition that are not unmapped, one after the other.\<close>

definition for_areas ::
    "prtos_conf \<Rightarrow> nat \<Rightarrow> (prtos_conf_memory_area \<Rightarrow> u32 \<Rightarrow> u32 \<Rightarrow> pool \<times> mmu \<Rightarrow> (int \<times> pool \<times> mmu) option) \<Rightarrow>
     pool \<times> mmu \<Rightarrow> (int \<times> u32 \<times> pool \<times> mmu) option" where
  "for_areas c p body ps = foldM (\<lambda>e (r, v, ps).
     let area = part_area c p (int e) in
     if r < 0 \<or> area_flags area AND PRTOS_MEM_AREA_UNMAPPED \<noteq> 0 then Some (r, v, ps)
     else page_loop (body area) (area_start_addr area) (area_start_addr area + area_size area - 1)
            (area_start_addr area) (area_mapped_at area) ps)
     [0..<nat (num_of_physical_memory_areas (partition_cfg c p))] (0, 0, ps)"

text \<open>The last pass over an area: it counts the references, and maps the pages that hold page tables
  read-only.\<close>

definition protect_page ::
    "prtos_conf \<Rightarrow> nat \<Rightarrow> u32 \<Rightarrow> prtos_conf_memory_area \<Rightarrow> u32 \<Rightarrow> u32 \<Rightarrow> pool \<times> mmu \<Rightarrow> (int \<times> pool \<times> mmu) option" where
  "protect_page c p ptd area addr v ps = do {
     (r, s) \<leftarrow> find_page c addr p (snd ps);
     case r of None \<Rightarrow> Some (0, fst ps, s)
     | Some (page, _) \<Rightarrow> do {
         s \<leftarrow> inc_counter page s;
         let attr = PG_ATTR_PRESENT OR PG_ATTR_USER OR
           (if area_flags area AND PRTOS_MEM_AREA_UNCACHEABLE \<noteq> 0 then 0 else PG_ATTR_CACHED);
         if pp_type (page_of_s s page) \<noteq> PPAG_STD then map_user c p ptd attr addr v (fst ps, s)
         else Some (0, fst ps, s) } }"

partial_function (option) map_pct ::
    "(u32 \<Rightarrow> u32 \<Rightarrow> 's \<Rightarrow> (int \<times> 's) option) \<Rightarrow> u32 \<Rightarrow> u32 \<Rightarrow> u32 \<Rightarrow> 's \<Rightarrow> (int \<times> 's) option" where
  "map_pct body lim addr v s =
     (if addr < lim then do {
        (r, s) \<leftarrow> body addr v s;
        if r < 0 then Some (- 1, s) else map_pct body lim (addr + PAGE_SIZE) (v + PAGE_SIZE) s }
      else Some (0, s))"

definition setup_page_table ::
    "prtos_conf \<Rightarrow> (u32 \<Rightarrow> u32 option) \<Rightarrow> u32 \<Rightarrow> u32 \<Rightarrow> nat \<Rightarrow> u32 \<Rightarrow> u32 \<Rightarrow> mmu \<Rightarrow> (u32 \<times> mmu) option" where
  "setup_page_table c alloc spbl epbl p page_table sz s = do {
     (pt, pool, s) \<leftarrow> alloc_mem c p PTDL1SIZE PTDL1SIZE (page_table, sint sz) s;
     if pt = NOT 0 then Some (NOT 0, s) else do {
     (r, s) \<leftarrow> find_page c pt p s;
     case r of None \<Rightarrow> Some (NOT 0, s) | Some (page, _) \<Rightarrow> do {
     s \<leftarrow> inc_counter page (set_type page PPAG_PTDL1 s);
     (ptd, s) \<leftarrow> map_page pt page s;
     s \<leftarrow> foldM (\<lambda>e. write_by_pass_mmu_word c (ptd + 4 * of_nat e) 0) [0..<PTDL1ENTRIES] s;
     (r, _, pool, s) \<leftarrow> for_areas c p (\<lambda>area. map_user c p ptd (area_attr (area_flags area))) (pool, s);
     if r < 0 then Some (NOT 0, s) else do {
     let part = partition_table (mkern s) p;
     _ \<leftarrow> ASSERT (pct_array_size part \<noteq> 0);
     (r, pool, s) \<leftarrow> map_pct (map_user c p ptd (PG_ATTR_PRESENT OR PG_ATTR_USER))
        (VIRT2PHYS (pct_array part) + pct_array_size part) (VIRT2PHYS (pct_array part)) PRTOS_PCTRLTAB_ADDR (pool, s);
     if r < 0 then Some (NOT 0, s) else do {
     (r, s) \<leftarrow> setup_pbl c alloc spbl epbl p ptd (PRTOS_PCTRLTAB_ADDR - 256 * 1024) pool s;
     if r < 0 then Some (NOT 0, s) else do {
     (r, _, pool, s) \<leftarrow> for_areas c p (protect_page c p ptd) (pool, s);
     if r < 0 then Some (NOT 0, s) else do {
     s \<leftarrow> unlock_page page s;
     Some (pt, s) } } } } } } }"

text \<open>The entries of the hypervisor, from its own page table, which is a parameter.\<close>

definition setup_ptd_level_1_table :: "(nat \<Rightarrow> u32) \<Rightarrow> u32 \<Rightarrow> mmu \<Rightarrow> mmu option" where
  "setup_ptd_level_1_table page_tables ptd =
     foldM (\<lambda>e. vwrite (ptd + 4 * of_nat e) (page_tables e)) [unat (VADDR_TO_PDE_INDEX CONFIG_PRTOS_OFFSET)..<PTDL1ENTRIES]"

section \<open>Addresses within a page\<close>

lemma plus_or_disjoint: "x AND y = 0 \<Longrightarrow> x + y = (x OR y :: u32)"
  using word_plus_and_or [of x y] by simp

lemma low_bits: "(0xfff :: u32) = mask 12" "(3 :: u32) = mask 2" "(1023 :: u32) = mask 10"
  by (simp_all add: mask_eq_exp_minus_1)

lemma and_mask_zero:
  assumes "(w :: u32) AND mask n = 0" "i < n"
  shows "\<not> bit w i"
proof
  assume b: "bit w i"
  then have "bit (w AND mask n) i" using assms(2) bit_imp_le_length [OF b] by (simp add: bit_simps)
  then show False using assms(1) by simp
qed

lemma and_not_mask_zero:
  assumes "(w :: u32) AND NOT (mask n) = 0" "n \<le> i"
  shows "\<not> bit w i"
proof
  assume b: "bit w i"
  then have "bit (w AND NOT (mask n)) i" using assms(2) bit_imp_le_length [OF b] by (simp add: bit_simps)
  then show False using assms(1) by simp
qed

lemma page_offset:
  assumes "v AND 0xfff = (0 :: u32)" "x AND NOT 0xfff = (0 :: u32)"
  shows "(v + x) AND PAGE_MASK = v" "(v + x) AND (PAGE_SIZE - 1) = x"
proof -
  have v: "bit v i \<Longrightarrow> 12 \<le> i" for i
    using and_mask_zero [OF assms(1) [unfolded low_bits]] not_le by blast
  have x: "bit x i \<Longrightarrow> i < 12" for i
    using and_not_mask_zero [OF assms(2) [unfolded low_bits]] not_le by blast
  have ps: "PAGE_SIZE - 1 = mask 12" by (simp add: PAGE_SIZE_def mask_eq_exp_minus_1)
  have "v AND x = 0"
    using v x by (intro bit_word_eqI) (fastforce simp: bit_and_iff dest: leD)
  then have e: "v + x = v OR x" by (rule plus_or_disjoint)
  show "(v + x) AND PAGE_MASK = v" unfolding e PAGE_MASK_def low_bits
    using v x by (intro bit_word_eqI) (auto simp: bit_simps not_le not_less dest: leD)
  show "(v + x) AND (PAGE_SIZE - 1) = x" unfolding e ps
    using v x by (intro bit_word_eqI) (auto simp: bit_simps not_le not_less dest: leD)
qed

lemma entry_offset:
  assumes "i \<le> (1023 :: u32)"
  shows "(4 * i) AND NOT 0xfff = 0" "(4 * i) AND 3 = 0"
proof -
  have f: "4 * i = push_bit 2 i" by (simp add: push_bit_eq_mult)
  have "i < 2 ^ 10" using assms by (simp add: word_le_def word_less_def)
  then have i: "bit i j \<Longrightarrow> j < 10" for j using word_lt_exp_bit not_le by blast
  show "(4 * i) AND NOT 0xfff = 0" unfolding f low_bits
    using i by (intro bit_word_eqI) (fastforce simp: bit_simps dest: i)
  show "(4 * i) AND 3 = 0" unfolding f low_bits by (rule bit_word_eqI) (auto simp: bit_simps)
qed

lemma index_bound: "VADDR_TO_PDE_INDEX v \<le> 1023" "VADDR_TO_PTE_INDEX v \<le> 1023"
proof -
  have le: "(w :: u32) \<le> 1023" if "\<And>i. 10 \<le> i \<Longrightarrow> \<not> bit w i" for w
  proof -
    have "w = w AND mask 10" using that not_le by (intro bit_word_eqI) (auto simp: bit_simps)
    then show ?thesis unfolding low_bits by (metis word_and_le1)
  qed
  have p: "(0x3ff000 :: u32) = push_bit 12 (mask 10)" "(0xffc00000 :: u32) = push_bit 22 (mask 10)"
    by (simp_all add: mask_eq_exp_minus_1 push_bit_eq_mult)
  show "VADDR_TO_PDE_INDEX v \<le> 1023" "VADDR_TO_PTE_INDEX v \<le> 1023"
    unfolding VADDR_TO_PDE_INDEX_def VADDR_TO_PTE_INDEX_def p
    by (auto intro!: le simp: bit_simps)
qed

lemma indices_page:
  assumes "VADDR_TO_PDE_INDEX v = VADDR_TO_PDE_INDEX w" "VADDR_TO_PTE_INDEX v = VADDR_TO_PTE_INDEX w"
  shows "v AND PAGE_MASK = w AND PAGE_MASK"
proof (rule bit_word_eqI)
  have p: "(0x3ff000 :: u32) = push_bit 12 (mask 10)" "(0xffc00000 :: u32) = push_bit 22 (mask 10)"
    by (simp_all add: mask_eq_exp_minus_1 push_bit_eq_mult)
  fix i assume i: "i < LENGTH(32)"
  have a: "bit (VADDR_TO_PDE_INDEX v) (i - 22) = bit (VADDR_TO_PDE_INDEX w) (i - 22)"
    "bit (VADDR_TO_PTE_INDEX v) (i - 12) = bit (VADDR_TO_PTE_INDEX w) (i - 12)" using assms by simp_all
  consider "i < 12" | "12 \<le> i" "i < 22" | "22 \<le> i" by linarith
  then show "bit (v AND PAGE_MASK) i = bit (w AND PAGE_MASK) i"
    using i a unfolding PAGE_MASK_def low_bits VADDR_TO_PDE_INDEX_def VADDR_TO_PTE_INDEX_def p
    by cases (auto simp: bit_simps)
qed

lemma page_indices:
  assumes "v AND PAGE_MASK = w AND PAGE_MASK"
  shows "VADDR_TO_PDE_INDEX v = VADDR_TO_PDE_INDEX w" "VADDR_TO_PTE_INDEX v = VADDR_TO_PTE_INDEX w"
proof -
  have k: "PAGE_MASK AND 0xffc00000 = 0xffc00000" "PAGE_MASK AND 0x3ff000 = 0x3ff000"
    by (simp_all add: PAGE_MASK_def)
  have "x AND 0xffc00000 = (x AND PAGE_MASK) AND 0xffc00000" "x AND 0x3ff000 = (x AND PAGE_MASK) AND 0x3ff000" for x
    by (simp_all only: and.assoc k)
  with assms show "VADDR_TO_PDE_INDEX v = VADDR_TO_PDE_INDEX w" "VADDR_TO_PTE_INDEX v = VADDR_TO_PTE_INDEX w"
    unfolding VADDR_TO_PDE_INDEX_def VADDR_TO_PTE_INDEX_def by metis+
qed

lemma multiples_of_4:
  assumes xy: "x AND 3 = 0" "y AND 3 = (0 :: u32)"
  shows "(x - y) AND 3 = 0" "(x + y) AND 3 = 0"
proof -
  have m: "x = 4 * drop_bit 2 x" if "x AND 3 = (0 :: u32)" for x
  proof -
    have "bit x i \<Longrightarrow> 2 \<le> i" for i using and_mask_zero [OF that [unfolded low_bits]] not_le by blast
    then have "x = push_bit 2 (drop_bit 2 x)"
      by (intro bit_word_eqI) (fastforce simp: bit_simps le_add_diff_inverse simp del: add_2_eq_Suc)
    then show ?thesis by (simp add: push_bit_eq_mult mult.commute)
  qed
  have "x - y = push_bit 2 (drop_bit 2 x - drop_bit 2 y)" "x + y = push_bit 2 (drop_bit 2 x + drop_bit 2 y)"
    using m [OF xy(1)] m [OF xy(2)] by (simp_all add: push_bit_eq_mult algebra_simps)
  moreover have "push_bit 2 z AND 3 = 0" for z :: u32
    unfolding low_bits by (rule bit_word_eqI) (auto simp: bit_simps)
  ultimately show "(x - y) AND 3 = 0" "(x + y) AND 3 = 0" by simp_all
qed

lemma aligned_apart:
  assumes "p AND 3 = (0 :: u32)" "q AND 3 = 0" "p \<noteq> q"
  shows "apart4 p q"
proof -
  have g: "4 \<le> x" if "x AND 3 = 0" "x \<noteq> (0 :: u32)" for x
  proof (rule ccontr)
    assume "\<not> 4 \<le> x"
    then have "x < 2 ^ 2" by simp
    then have "x AND mask 2 = x" by (rule less_mask_eq)
    with that show False unfolding low_bits by simp
  qed
  show ?thesis unfolding apart4_def using assms by (auto intro!: g multiples_of_4)
qed

lemma load_store_aligned:
  assumes "p AND 3 = 0" "q AND 3 = 0"
  shows "load_word (store_word p x m) q = (if q = p then x else load_word m q)"
  using load_store_other [OF aligned_apart, of p q] assms by auto

section \<open>Attributes\<close>

lemma arch_flags:
  "PG_ARCH_PRESENT = bit32 0" "PG_ARCH_RW = bit32 1" "PG_ARCH_USER = bit32 2" "PG_ARCH_PCD = bit32 4"
  "PG_ATTR_PRESENT = bit32 16" "PG_ATTR_USER = bit32 17" "PG_ATTR_RW = bit32 18" "PG_ATTR_CACHED = bit32 19"
  by (simp_all add: PG_ARCH_PRESENT_def PG_ARCH_RW_def PG_ARCH_USER_def PG_ARCH_PCD_def bit32_def
      PG_ATTR_PRESENT_def PG_ATTR_USER_def PG_ATTR_RW_def PG_ATTR_CACHED_def)

lemma bit_set_if: "bit (if b then x OR y else x) n \<longleftrightarrow> bit x n \<or> b \<and> bit (y :: u32) n"
  by (simp add: bit_or_iff)

lemma bit_arch_to_attr:
  "bit (vm_arch_attr_to_attr e) n \<longleftrightarrow> n = 16 \<and> bit e 0 \<or> n = 17 \<and> bit e 2 \<or> n = 18 \<and> bit e 1 \<or> n = 19 \<and> \<not> bit e 4 \<or>
     n < 12 \<and> n \<noteq> 0 \<and> n \<noteq> 1 \<and> n \<noteq> 2 \<and> n \<noteq> 4 \<and> bit e n"
proof -
  have ps: "PAGE_SIZE - 1 = mask 12" by (simp add: PAGE_SIZE_def mask_eq_exp_minus_1)
  have f: "(e AND mask 12) AND bit32 n = 0 \<longleftrightarrow> \<not> bit e n" if "n < 12" for n
    using that word_and_bit32_eq_0 [of n "e AND mask 12"] by (simp add: bit_and_iff bit_mask_iff)
  have "bit (vm_arch_attr_to_attr e) n \<longleftrightarrow> bit e 0 \<and> n = 16 \<or> bit e 2 \<and> n = 17 \<or> bit e 1 \<and> n = 18 \<or> \<not> bit e 4 \<and> n = 19 \<or>
      bit ((e AND mask 12) AND NOT (bit32 0 OR bit32 2 OR bit32 1 OR bit32 4)) n"
    unfolding vm_arch_attr_to_attr_def Let_def ps arch_flags bit_or_iff [of "if _ then _ else _"] bit_set_if f [of 0] 
    by (simp add: f disj_ac)
  moreover have "bit ((e AND mask 12) AND NOT (bit32 0 OR bit32 2 OR bit32 1 OR bit32 4)) n \<longleftrightarrow>
      n < 12 \<and> n \<noteq> 0 \<and> n \<noteq> 1 \<and> n \<noteq> 2 \<and> n \<noteq> 4 \<and> bit e n"
    by (simp only: bit_and_iff bit_mask_iff bit_not_iff bit_or_iff bit_bit32 possible_bit_word) auto
  ultimately show ?thesis by (simp add: conj_ac)
qed

lemma bit_attr_to_arch:
  "bit (vm_attr_to_arch_attr f) n \<longleftrightarrow> n = 0 \<and> bit f 16 \<or> n = 2 \<and> bit f 17 \<or> n = 1 \<and> bit f 18 \<or> n = 4 \<and> \<not> bit f 19 \<or>
     n < 16 \<and> bit f n"
proof -
  have m: "(0xffff :: u32) = mask 16" by (simp add: mask_eq_exp_minus_1)
  have "bit (vm_attr_to_arch_attr f) n \<longleftrightarrow> bit f 16 \<and> n = 0 \<or> bit f 17 \<and> n = 2 \<or> bit f 18 \<and> n = 1 \<or> \<not> bit f 19 \<and> n = 4 \<or>
      bit (f AND mask 16) n"
    unfolding vm_attr_to_arch_attr_def Let_def m arch_flags bit_or_iff [of "if _ then _ else _"] bit_set_if
    by (simp add: word_and_bit32_eq_0 disj_ac eq_commute [of "Suc 0" n])
  moreover have "bit (f AND mask 16) n \<longleftrightarrow> n < 16 \<and> bit f n"
    by (simp only: bit_and_iff bit_mask_iff possible_bit_word) auto
  ultimately show ?thesis by (simp add: conj_ac)
qed

text \<open>Reading the attributes of an entry and writing them back gives the entry.\<close>

lemma attr_flags:
  "bit (vm_arch_attr_to_attr e) 16 = bit e 0" "bit (vm_arch_attr_to_attr e) 17 = bit e 2"
  "bit (vm_arch_attr_to_attr e) 18 = bit e 1" "bit (vm_arch_attr_to_attr e) 19 = (\<not> bit e 4)"
  by (simp_all add: bit_arch_to_attr)

lemma attr_roundtrip: "vm_attr_to_arch_attr (vm_arch_attr_to_attr e) = e AND (PAGE_SIZE - 1)"
proof (rule bit_word_eqI)
  fix n
  have ps: "PAGE_SIZE - 1 = mask 12" by (simp add: PAGE_SIZE_def mask_eq_exp_minus_1)
  have low: "n < 16 \<and> bit (vm_arch_attr_to_attr e) n \<longleftrightarrow> n < 12 \<and> n \<noteq> 0 \<and> n \<noteq> 1 \<and> n \<noteq> 2 \<and> n \<noteq> 4 \<and> bit e n"
    unfolding bit_arch_to_attr by linarith
  have "bit (e AND (PAGE_SIZE - 1)) n \<longleftrightarrow> n < 12 \<and> bit e n"
    unfolding ps by (simp only: bit_and_iff bit_mask_iff possible_bit_word) auto
  moreover have "bit (vm_attr_to_arch_attr (vm_arch_attr_to_attr e)) n \<longleftrightarrow> n = 0 \<and> bit e 0 \<or> n = 2 \<and> bit e 2 \<or>
      n = 1 \<and> bit e 1 \<or> n = 4 \<and> bit e 4 \<or> n < 12 \<and> n \<noteq> 0 \<and> n \<noteq> 1 \<and> n \<noteq> 2 \<and> n \<noteq> 4 \<and> bit e n"
    unfolding bit_attr_to_arch low attr_flags not_not by (rule refl)
  ultimately show "bit (vm_attr_to_arch_attr (vm_arch_attr_to_attr e)) n = bit (e AND (PAGE_SIZE - 1)) n" by auto
qed

section \<open>Pages in use stay mapped\<close>

text \<open>The address of a page, and the page a search finds.\<close>

definition page_addr :: "prtos_conf \<Rightarrow> page_ref \<Rightarrow> u32" where
  "page_addr c r = region_start_addr (memory_region_table c (pg_region r)) + push_bit PAGE_SHIFT (of_nat (pg_index r))"

definition regions_aligned :: "prtos_conf \<Rightarrow> bool" where
  "regions_aligned c \<longleftrightarrow> (\<forall>r. region_start_addr (memory_region_table c r) AND 0xfff = 0)"

lemma push_drop_12:
  assumes "(d :: u32) AND 0xfff = 0"
  shows "push_bit 12 (drop_bit 12 d) = d"
proof (rule bit_word_eqI)
  fix i assume "i < LENGTH(32)"
  moreover have "bit d i \<Longrightarrow> 12 \<le> i" using and_mask_zero [OF assms [unfolded low_bits]] not_le by blast
  ultimately show "bit (push_bit 12 (drop_bit 12 d)) i = bit d i"
    by (auto simp: bit_simps)
qed

lemma aligned_diff:
  assumes "(a :: u32) AND 0xfff = 0" "b AND 0xfff = 0"
  shows "(a - b) AND 0xfff = 0" "(a + b) AND 0xfff = 0"
proof -
  have "a - b = push_bit 12 (drop_bit 12 a - drop_bit 12 b)" "a + b = push_bit 12 (drop_bit 12 a + drop_bit 12 b)"
    using push_drop_12 [OF assms(1)] push_drop_12 [OF assms(2)]
    by (simp_all add: push_bit_eq_mult algebra_simps)
  moreover have "push_bit 12 z AND 0xfff = 0" for z :: u32
    unfolding low_bits by (rule bit_word_eqI) (auto simp: bit_simps)
  ultimately show "(a - b) AND 0xfff = 0" "(a + b) AND 0xfff = 0" by simp_all
qed

lemma page_aligned [simp]: "(a AND PAGE_MASK) AND 0xfff = 0"
  unfolding PAGE_MASK_def low_bits by (rule bit_word_eqI) (auto simp: bit_simps)

lemma page_addr_aligned: "regions_aligned c \<Longrightarrow> page_addr c r AND 0xfff = 0"
  unfolding page_addr_def PAGE_SHIFT_def
  by (rule aligned_diff(2)) (auto simp: regions_aligned_def low_bits bit_simps intro!: bit_word_eqI)

lemma page_in_region_addr:
  assumes "regions_aligned c"
  shows "page_addr c (page_in_region c r (a AND PAGE_MASK)) = a AND PAGE_MASK"
proof -
  let ?b = "region_start_addr (memory_region_table c r)"
  have "((a AND PAGE_MASK) - ?b) AND 0xfff = 0"
    using assms by (intro aligned_diff) (simp_all add: regions_aligned_def)
  from push_drop_12 [OF this] show ?thesis
    by (simp add: page_addr_def page_in_region_def PAGE_SHIFT_def)
qed

lemma find_page_addr:
  assumes "regions_aligned c" "find_page c a p s = Some (Some (page, f), s')"
  shows "page_addr c page = a AND PAGE_MASK"
  using assms page_in_region_addr
  by (auto simp: find_page_def pmm_find_page_def bind_eq_Some_iff Let_def split: option.splits if_splits)

lemma find_page_same:
  "find_page c a p s = Some (r, s') \<Longrightarrow> mm s' = mm s \<and> pmem s' = pmem s"
  by (auto simp: find_page_def bind_eq_Some_iff)

section \<open>The frames stay aligned, above the hypervisor\<close>

definition frames_aligned :: "physmm \<Rightarrow> bool" where
  "frames_aligned m \<longleftrightarrow> vmm_start_addr m AND 0xfff = 0 \<and> CONFIG_PRTOS_OFFSET < vmm_start_addr m \<and>
     (\<forall>r. pp_mapped (phys_page_table m r) \<longrightarrow>
        pp_v_addr (phys_page_table m r) AND 0xfff = 0 \<and> CONFIG_PRTOS_OFFSET < pp_v_addr (phys_page_table m r))"

lemma frames_aligned_map:
  assumes f: "frames_aligned m" and ok: "vcache_ok pa m lru" and r: "vcache_map_page a page m = Some (v, m')"
  shows "frames_aligned m'"
proof (cases "pp_mapped (phys_page_table m page)")
  case True
  then show ?thesis using r f by (simp add: vcache_map_page_def)
next
  case unmapped: False
  have n: "vmm_get_num_of_free_frames m = Some (num_of_frames m)"
    using ok by (intro free_frames) (simp add: vcache_ok_def)
  show ?thesis
  proof (cases "num_of_frames m \<le> 0")
    case True
    with r unmapped n obtain x lru2 where x: "dyn_list_remove_tail () (cache_lru m) = Some (Some x, lru2)"
      by (auto simp: vcache_map_page_def bind_eq_Some_iff)
    have "lru \<noteq> []" using x ok remove_empty(2) [of "cache_lru m" "()"] by (auto simp: vcache_ok_def)
    then obtain xs y where "lru = xs @ [y]" by (cases lru rule: rev_cases) auto
    with evict_ok [of pa m xs y] ok x have "pp_mapped (phys_page_table m x)" by (auto simp: vcache_ok_def)
    with f x unmapped n True r show ?thesis
      by (auto simp: vcache_map_page_def frames_aligned_def Let_def split: if_splits)
  next
    case False
    have "(vmm_start_addr m + 0x1000) AND 0xfff = 0"
      using f by (intro aligned_diff) (simp_all add: frames_aligned_def)
    moreover have "uint (vmm_start_addr m) + 4096 < 2 ^ 32" using ok False by (simp add: vcache_ok_def)
    then have "uint (vmm_start_addr m + 0x1000) = uint (vmm_start_addr m) + 4096" by (subst uint_add_lem [THEN iffD1]) simp_all
    then have "CONFIG_PRTOS_OFFSET < vmm_start_addr m + 0x1000" using f by (simp add: frames_aligned_def word_less_def)
    ultimately show ?thesis using f unmapped n False r
      by (auto simp: vcache_map_page_def frames_aligned_def vmm_alloc_def Let_def PAGE_SHIFT_def bind_eq_Some_iff split: if_splits)
  qed
qed

definition mmu_ok :: "prtos_conf \<Rightarrow> mmu \<Rightarrow> page_ref list \<Rightarrow> bool" where
  "mmu_ok c s lru \<longleftrightarrow> vcache_ok (page_addr c) (mm s) lru \<and> frames_aligned (mm s) \<and> regions_aligned c"

definition in_use :: "mmu \<Rightarrow> page_ref \<Rightarrow> u32 \<Rightarrow> bool" where
  "in_use s page v \<longleftrightarrow> pp_mapped (page_of_s s page) \<and> \<not> pp_unlocked (page_of_s s page) \<and> pp_v_addr (page_of_s s page) = v"

lemma in_use_window:
  "mmu_ok c s lru \<Longrightarrow> in_use s page v \<Longrightarrow> window (mm s) v = Some (page_addr c page) \<and> v AND 0xfff = 0"
  by (auto simp: mmu_ok_def in_use_def vcache_ok_def frames_aligned_def page_of_s_def)

lemma map_page_kept:
  assumes "map_page a page s = Some (v, s')"
  shows "pmem s' = pmem s" "mkern s' = mkern s"
    "pp_type (page_of_s s' q) = pp_type (page_of_s s q)" "pp_counter (page_of_s s' q) = pp_counter (page_of_s s q)"
  using assms by (auto simp: map_page_def vcache_map_page_def vmm_alloc_def page_of_s_def bind_eq_Some_iff Let_def split: if_splits)

lemma unlock_page_kept:
  assumes "unlock_page page s = Some s'"
  shows "pmem s' = pmem s" "mkern s' = mkern s"
    "pp_type (page_of_s s' q) = pp_type (page_of_s s q)" "pp_counter (page_of_s s' q) = pp_counter (page_of_s s q)"
  using assms by (auto simp: unlock_page_def vcache_unlock_page_def page_of_s_def bind_eq_Some_iff Let_def split: if_splits)

lemma map_page_ok:
  assumes ok: "mmu_ok c s lru" and a: "a AND PAGE_MASK = page_addr c page" and r: "map_page a page s = Some (va, s')"
  shows "\<exists>v lru'. va = v + (a AND (PAGE_SIZE - 1)) \<and> v AND 0xfff = 0 \<and> mmu_ok c s' lru' \<and>
    window (mm s') v = Some (page_addr c page) \<and> pp_mapped (page_of_s s' page) \<and> pp_v_addr (page_of_s s' page) = v \<and>
    CONFIG_PRTOS_OFFSET < v \<and> (\<forall>q w. in_use s q w \<longrightarrow> in_use s' q w)"
proof -
  obtain m' where m': "vcache_map_page a page (mm s) = Some (va, m')" "s' = s\<lparr>mm := m'\<rparr>"
    using r by (auto simp: map_page_def bind_eq_Some_iff)
  have vok: "vcache_ok (page_addr c) (mm s) lru" using ok by (simp add: mmu_ok_def)
  have room: "pp_mapped (phys_page_table (mm s) page) \<or> 0 < num_of_frames (mm s) \<or> lru \<noteq> []"
  proof (rule ccontr)
    assume n: "\<not> ?thesis"
    with vok have "num_of_frames (mm s) = 0" by (simp add: vcache_ok_def)
    moreover have "dyn_list_remove_tail () (cache_lru (mm s)) = Some (None, cache_lru (mm s))"
      using vok n by (intro remove_empty(2)) (simp add: vcache_ok_def)
    ultimately show False using m'(1) n free_frames [of "mm s"] by (simp add: vcache_map_page_def)
  qed
  obtain v lru' where v: "va = v + (a AND (PAGE_SIZE - 1))" "vcache_ok (page_addr c) m' lru'"
    "pp_mapped (phys_page_table m' page)" "pp_v_addr (phys_page_table m' page) = v" "window m' v = Some (page_addr c page)"
    "lru' = lru \<or> num_of_frames (mm s) = 0 \<and> lru' = butlast lru"
    "\<forall>q. q \<noteq> page \<and> pp_mapped (phys_page_table (mm s) q) \<and> \<not> (lru' \<noteq> lru \<and> q = last lru) \<longrightarrow>
       phys_page_table m' q = phys_page_table (mm s) q"
    using map_page_works [OF vok a room] m'(1) by auto
  have fa: "frames_aligned m'" using frames_aligned_map [OF _ vok m'(1)] ok by (simp add: mmu_ok_def)
  have use: "in_use s' q w" if u: "in_use s q w" for q w
  proof (cases "q = page")
    case True
    then show ?thesis using u m' by (auto simp: in_use_def page_of_s_def vcache_map_page_def)
  next
    case False
    have "q \<notin> set lru" using u vok by (auto simp: in_use_def page_of_s_def vcache_ok_def)
    then have "\<not> (lru' \<noteq> lru \<and> q = last lru)" using v(6) last_in_set by (cases "lru = []") auto
    with u v(7) False m'(2) show ?thesis by (auto simp: in_use_def page_of_s_def)
  qed
  show ?thesis using v fa use ok m'(2)
    by (intro exI [of _ v] exI [of _ lru']) (auto simp: mmu_ok_def page_of_s_def frames_aligned_def)
qed

lemma unlock_page_ok:
  assumes ok: "mmu_ok c s lru" and r: "unlock_page page s = Some s'"
  shows "\<exists>lru'. mmu_ok c s' lru' \<and> (\<forall>q w. q \<noteq> page \<longrightarrow> in_use s q w \<longrightarrow> in_use s' q w)"
proof -
  obtain m' where m': "vcache_unlock_page page (mm s) = Some m'" "s' = s\<lparr>mm := m'\<rparr>"
    using r by (auto simp: unlock_page_def bind_eq_Some_iff)
  have vok: "vcache_ok (page_addr c) (mm s) lru" using ok by (simp add: mmu_ok_def)
  have "pp_mapped (phys_page_table (mm s) page)" using m' by (auto simp: vcache_unlock_page_def bind_eq_Some_iff)
  from unlock_page_works [OF vok this] m'(1) obtain lru' where
    "vcache_ok (page_addr c) m' lru'" by auto
  moreover have "frames_aligned m'" using m'(1) ok
    by (auto simp: mmu_ok_def frames_aligned_def vcache_unlock_page_def bind_eq_Some_iff Let_def split: if_splits)
  moreover have "in_use s' q w" if "q \<noteq> page" "in_use s q w" for q w
    using that m' by (auto simp: in_use_def page_of_s_def vcache_unlock_page_def bind_eq_Some_iff Let_def split: if_splits)
  ultimately show ?thesis using ok m'(2) by (auto simp: mmu_ok_def)
qed

section \<open>The page table as a map\<close>

lemma vread_frame:
  assumes "window (mm s) v = Some p" "v AND 0xfff = 0" "i \<le> 1023"
  shows "vread s (v + 4 * i) = Some (load_word (pmem s) (p + 4 * i))"
  using assms page_offset [OF assms(2) entry_offset(1) [OF assms(3)]] by (simp add: vread_def)

lemma vwrite_frame:
  assumes "window (mm s) v = Some p" "v AND 0xfff = 0" "i \<le> 1023"
  shows "vwrite (v + 4 * i) x s = Some (s\<lparr>pmem := store_word (p + 4 * i) x (pmem s)\<rparr>)"
  using assms page_offset [OF assms(2) entry_offset(1) [OF assms(3)]] by (simp add: vwrite_def)

lemma page_word_aligned: "p AND 0xfff = (0 :: u32) \<Longrightarrow> p AND 3 = 0"
proof -
  assume "p AND 0xfff = 0"
  then have "bit p i \<Longrightarrow> 12 \<le> i" for i unfolding low_bits using and_mask_zero not_le by blast
  then show "p AND 3 = 0" unfolding low_bits by (intro bit_word_eqI) (fastforce simp: bit_simps)
qed

lemma entry_aligned:
  assumes "p AND 0xfff = (0 :: u32)" "i \<le> 1023"
  shows "(p + 4 * i) AND 3 = 0"
  using assms by (intro multiples_of_4 page_word_aligned entry_offset)

lemma entry_inj:
  assumes "p AND 0xfff = (0 :: u32)" "q AND 0xfff = 0" "i \<le> 1023" "j \<le> 1023" "p + 4 * i = q + 4 * j"
  shows "p = q \<and> i = j"
proof -
  have "p = q" using assms page_offset(1) [of p "4 * i"] page_offset(1) [of q "4 * j"] entry_offset(1) by metis
  moreover have "i = j"
  proof -
    have "4 * i = 4 * j" using assms(5) calculation by simp
    moreover have "uint (4 * x) = 4 * uint x" if "x \<le> (1023 :: u32)" for x
      using that by (subst uint_mult_lem [THEN iffD1]) (simp_all add: word_le_def)
    ultimately have "4 * uint i = 4 * uint j" using assms(3,4) by metis
    then show ?thesis by (simp add: word_uint_eq_iff)
  qed
  ultimately show ?thesis by simp
qed

lemma zero_table:
  assumes w: "window (mm s) v = Some p" and a: "v AND 0xfff = 0" "p AND 0xfff = 0"
  shows "n \<le> 1024 \<Longrightarrow> \<exists>m. foldM (\<lambda>e. vwrite (v + 4 * of_nat e) 0) [0..<n] s = Some (s\<lparr>pmem := m\<rparr>) \<and>
    (\<forall>q. q AND 3 = 0 \<longrightarrow> load_word m q = (if \<exists>e < n. q = p + 4 * of_nat e then 0 else load_word (pmem s) q))"
proof (induction n)
  case 0
  then show ?case by (intro exI [of _ "pmem s"]) simp
next
  case (Suc n)
  then obtain m where m: "foldM (\<lambda>e. vwrite (v + 4 * of_nat e) 0) [0..<n] s = Some (s\<lparr>pmem := m\<rparr>)"
    "\<forall>q. q AND 3 = 0 \<longrightarrow> load_word m q = (if \<exists>e < n. q = p + 4 * of_nat e then 0 else load_word (pmem s) q)" by auto
  have n: "of_nat n \<le> (1023 :: u32)" using Suc.prems by (simp add: word_le_nat_alt unat_of_nat32)
  have "vwrite (v + 4 * of_nat n) 0 (s\<lparr>pmem := m\<rparr>) = Some (s\<lparr>pmem := store_word (p + 4 * of_nat n) 0 m\<rparr>)"
    using vwrite_frame [of "s\<lparr>pmem := m\<rparr>" v p "of_nat n" 0] w a n by simp
  with m(1) have "foldM (\<lambda>e. vwrite (v + 4 * of_nat e) 0) [0..<Suc n] s = Some (s\<lparr>pmem := store_word (p + 4 * of_nat n) 0 m\<rparr>)"
    by (simp add: foldM_append)
  moreover have "load_word (store_word (p + 4 * of_nat n) 0 m) q =
      (if \<exists>e < Suc n. q = p + 4 * of_nat e then 0 else load_word (pmem s) q)" if "q AND 3 = 0" for q
    using that m(2) load_store_aligned [of "p + 4 * of_nat n" q 0 m] entry_aligned [OF a(2) n] by (auto simp: less_Suc_eq)
  ultimately show ?case by blast
qed

text \<open>The directory entry of an address, a present entry, and the entry the processor finds for an
  address: the page table as a map from the pages of the guest.\<close>

definition pde :: "memory \<Rightarrow> u32 \<Rightarrow> u32 \<Rightarrow> u32" where
  "pde m dir v = load_word m (dir + 4 * VADDR_TO_PDE_INDEX v)"

definition entry :: "u32 \<Rightarrow> u32 option" where
  "entry e = (if IS_PRESENT e then Some e else None)"

definition walk :: "memory \<Rightarrow> u32 \<Rightarrow> u32 \<Rightarrow> u32 option" where
  "walk m dir v = entry (pde m dir v) \<bind> (\<lambda>e. entry (load_word m ((e AND PAGE_MASK) + 4 * VADDR_TO_PTE_INDEX v)))"

text \<open>The tables of a directory: each one is the page of one entry only, and none is the directory.\<close>

definition is_table :: "memory \<Rightarrow> u32 \<Rightarrow> u32 \<Rightarrow> bool" where
  "is_table m dir t \<longleftrightarrow> (\<exists>v < CONFIG_PRTOS_OFFSET. IS_PRESENT (pde m dir v) \<and> pde m dir v AND PAGE_MASK = t)"

definition tables_apart :: "memory \<Rightarrow> u32 \<Rightarrow> bool" where
  "tables_apart m dir \<longleftrightarrow> \<not> is_table m dir dir \<and>
     (\<forall>v w. v < CONFIG_PRTOS_OFFSET \<and> w < CONFIG_PRTOS_OFFSET \<and> IS_PRESENT (pde m dir v) \<and> IS_PRESENT (pde m dir w) \<and>
        pde m dir v AND PAGE_MASK = pde m dir w AND PAGE_MASK \<longrightarrow> VADDR_TO_PDE_INDEX v = VADDR_TO_PDE_INDEX w)"

lemma pde_same: "VADDR_TO_PDE_INDEX v = VADDR_TO_PDE_INDEX w \<Longrightarrow> pde m dir v = pde m dir w"
  by (simp add: pde_def)

lemmas entry_page = page_offset(1) [OF _ entry_offset(1) [OF index_bound(1)]] page_offset(1) [OF _ entry_offset(1) [OF index_bound(2)]]

lemmas dir_aligned = entry_aligned [OF _ index_bound(1)] and pte_aligned = entry_aligned [OF page_aligned index_bound(2)]

lemma walk_store:
  assumes ap: "tables_apart m dir" and d: "dir AND 0xfff = 0" and a: "a < CONFIG_PRTOS_OFFSET" "IS_PRESENT (pde m dir a)"
    and m': "\<And>q. q AND 3 = 0 \<Longrightarrow> load_word m' q =
      (if q = (pde m dir a AND PAGE_MASK) + 4 * VADDR_TO_PTE_INDEX a then x else load_word m q)"
  shows "tables_apart m' dir \<and> (\<forall>w < CONFIG_PRTOS_OFFSET.
    walk m' dir w = (if w AND PAGE_MASK = a AND PAGE_MASK then entry x else walk m dir w))"
proof -
  let ?t = "pde m dir a AND PAGE_MASK"
  have td: "?t \<noteq> dir" using ap a by (auto simp: tables_apart_def is_table_def)
  have pde: "pde m' dir v = pde m dir v" for v
  proof -
    have "dir + 4 * VADDR_TO_PDE_INDEX v \<noteq> ?t + 4 * VADDR_TO_PTE_INDEX a"
      using td entry_inj [OF d page_aligned index_bound(1) index_bound(2)] by metis
    then show ?thesis using m' [OF dir_aligned [OF d]] by (simp add: pde_def)
  qed
  have "walk m' dir w = (if w AND PAGE_MASK = a AND PAGE_MASK then entry x else walk m dir w)" if w: "w < CONFIG_PRTOS_OFFSET" for w
  proof (cases "IS_PRESENT (pde m dir w)")
    case p: True
    let ?u = "pde m dir w AND PAGE_MASK"
    have eq: "?u + 4 * VADDR_TO_PTE_INDEX w = ?t + 4 * VADDR_TO_PTE_INDEX a \<longleftrightarrow> w AND PAGE_MASK = a AND PAGE_MASK"
    proof
      assume "?u + 4 * VADDR_TO_PTE_INDEX w = ?t + 4 * VADDR_TO_PTE_INDEX a"
      then have "?u = ?t" "VADDR_TO_PTE_INDEX w = VADDR_TO_PTE_INDEX a"
        using entry_inj [OF page_aligned page_aligned index_bound(2) index_bound(2)] by blast+
      moreover from this(1) have "VADDR_TO_PDE_INDEX w = VADDR_TO_PDE_INDEX a"
        using ap a w p unfolding tables_apart_def by blast
      ultimately show "w AND PAGE_MASK = a AND PAGE_MASK" by (intro indices_page)
    next
      assume "w AND PAGE_MASK = a AND PAGE_MASK"
      then show "?u + 4 * VADDR_TO_PTE_INDEX w = ?t + 4 * VADDR_TO_PTE_INDEX a"
        by (simp only: page_indices [of w a] pde_same [of w a])
    qed
    then show ?thesis using p m' [OF pte_aligned] by (simp add: walk_def pde entry_def)
  next
    case n: False
    then have "w AND PAGE_MASK \<noteq> a AND PAGE_MASK" using page_indices [of w a] a(2) pde_same by metis
    then show ?thesis using n by (simp add: walk_def pde entry_def)
  qed
  moreover have "tables_apart m' dir" using ap by (simp add: tables_apart_def is_table_def pde)
  ultimately show ?thesis by simp
qed

text \<open>An entry of a new table.\<close>

lemma walk_new_table:
  assumes ap: "tables_apart m dir" and d: "dir AND 0xfff = 0" and a: "a < CONFIG_PRTOS_OFFSET" "\<not> IS_PRESENT (pde m dir a)"
    and t: "t AND PAGE_MASK = t" "t \<noteq> dir" "\<not> is_table m dir t" and e: "IS_PRESENT e" "e AND PAGE_MASK = t"
    and m': "\<And>q. q AND 3 = 0 \<Longrightarrow> load_word m' q =
      (if q = t + 4 * VADDR_TO_PTE_INDEX a then x else if q = dir + 4 * VADDR_TO_PDE_INDEX a then e
       else if \<exists>i < 1024. q = t + 4 * of_nat i then 0 else load_word m q)"
  shows "tables_apart m' dir \<and> (\<forall>w < CONFIG_PRTOS_OFFSET.
    walk m' dir w = (if w AND PAGE_MASK = a AND PAGE_MASK then entry x else walk m dir w))"
proof -
  have ta: "t AND 0xfff = 0" using page_aligned [of t] t(1) by simp
  have i1024: "of_nat i \<le> (1023 :: u32)" if "i < 1024" for i using that by (simp add: word_le_nat_alt unat_of_nat32)
  have pde: "pde m' dir v = (if VADDR_TO_PDE_INDEX v = VADDR_TO_PDE_INDEX a then e else pde m dir v)" for v
  proof -
    have "dir + 4 * VADDR_TO_PDE_INDEX v \<noteq> t + 4 * i" if "i \<le> 1023" for i
      using t(2) entry_inj [OF d ta index_bound(1) that] by blast
    moreover have "dir + 4 * VADDR_TO_PDE_INDEX v = dir + 4 * VADDR_TO_PDE_INDEX a \<longleftrightarrow> VADDR_TO_PDE_INDEX v = VADDR_TO_PDE_INDEX a"
      using entry_inj [OF d d index_bound(1) index_bound(1), of v a] by auto
    ultimately show ?thesis using m' [OF dir_aligned [OF d]] i1024 index_bound(2) by (auto simp: pde_def)
  qed
  have "walk m' dir w = (if w AND PAGE_MASK = a AND PAGE_MASK then entry x else walk m dir w)" if w: "w < CONFIG_PRTOS_OFFSET" for w
  proof (cases "VADDR_TO_PDE_INDEX w = VADDR_TO_PDE_INDEX a")
    case True
    then have pw: "pde m' dir w = e" "\<not> IS_PRESENT (pde m dir w)" using pde pde_same [OF True] a(2) by simp_all
    let ?q = "t + 4 * VADDR_TO_PTE_INDEX w"
    have eq: "?q = t + 4 * VADDR_TO_PTE_INDEX a \<longleftrightarrow> w AND PAGE_MASK = a AND PAGE_MASK"
    proof
      assume "?q = t + 4 * VADDR_TO_PTE_INDEX a"
      then have "VADDR_TO_PTE_INDEX w = VADDR_TO_PTE_INDEX a" using entry_inj [OF ta ta index_bound(2) index_bound(2)] by blast
      with True show "w AND PAGE_MASK = a AND PAGE_MASK" by (rule indices_page)
    next
      assume "w AND PAGE_MASK = a AND PAGE_MASK"
      then show "?q = t + 4 * VADDR_TO_PTE_INDEX a" by (simp only: page_indices(2) [of w a])
    qed
    have "VADDR_TO_PTE_INDEX w = of_nat (unat (VADDR_TO_PTE_INDEX w))" by simp
    moreover have "unat (VADDR_TO_PTE_INDEX w) < 1024" using index_bound(2) [of w] by (simp add: word_le_nat_alt)
    ultimately have z: "\<exists>i < 1024. ?q = t + 4 * of_nat i" by metis
    have "?q \<noteq> dir + 4 * VADDR_TO_PDE_INDEX a" using t(2) entry_inj [OF ta d index_bound(2) index_bound(1)] by blast
    then have "load_word m' ?q = (if w AND PAGE_MASK = a AND PAGE_MASK then x else 0)"
      using m' [OF entry_aligned [OF ta index_bound(2)]] eq z by simp
    moreover have "\<not> IS_PRESENT 0" by (simp add: IS_PRESENT_def)
    moreover have "walk m' dir w = entry (load_word m' ?q)" by (simp add: walk_def pw(1) entry_def [of e] e)
    moreover have "walk m dir w = None" using pw(2) by (simp add: walk_def entry_def)
    ultimately show ?thesis by (simp add: entry_def)
  next
    case False
    then have "w AND PAGE_MASK \<noteq> a AND PAGE_MASK" using page_indices(1) [of w a] by blast
    moreover have "pde m' dir w = pde m dir w" using False by (simp add: pde)
    moreover note n = calculation
    show ?thesis
    proof (cases "IS_PRESENT (pde m dir w)")
      case True
      let ?u = "pde m dir w AND PAGE_MASK"
      have "?u \<noteq> t" "?u \<noteq> dir" using True w t(3) ap by (auto simp: tables_apart_def is_table_def)
      then have ne: "?u + 4 * VADDR_TO_PTE_INDEX w \<noteq> t + 4 * i" "?u + 4 * VADDR_TO_PTE_INDEX w \<noteq> dir + 4 * i" if "i \<le> 1023" for i
        using entry_inj [OF page_aligned ta index_bound(2) that] entry_inj [OF page_aligned d index_bound(2) that] by blast+
      have none: "\<not> (\<exists>i < 1024. ?u + 4 * VADDR_TO_PTE_INDEX w = t + 4 * of_nat i)" using ne(1) i1024 by blast
      have "load_word m' (?u + 4 * VADDR_TO_PTE_INDEX w) = load_word m (?u + 4 * VADDR_TO_PTE_INDEX w)"
        by (simp only: m' [OF pte_aligned] none ne(1) [OF index_bound(2)] ne(2) [OF index_bound(1)] if_False)
      then show ?thesis using n True by (simp add: walk_def entry_def [of "pde m dir w"])
    qed (use n in \<open>simp add: walk_def entry_def\<close>)
  qed
  moreover have "tables_apart m' dir"
  proof -
    have "\<not> is_table m' dir dir" using ap e t(2) by (auto simp: tables_apart_def is_table_def pde)
    moreover have "VADDR_TO_PDE_INDEX v = VADDR_TO_PDE_INDEX w"
      if "v < CONFIG_PRTOS_OFFSET" "w < CONFIG_PRTOS_OFFSET" "IS_PRESENT (pde m' dir v)" "IS_PRESENT (pde m' dir w)"
        "pde m' dir v AND PAGE_MASK = pde m' dir w AND PAGE_MASK" for v w
    proof -
      have "pde m dir u AND PAGE_MASK \<noteq> t" if "u < CONFIG_PRTOS_OFFSET" "IS_PRESENT (pde m dir u)" for u
        using t(3) that by (auto simp: is_table_def)
      note old = this
      show ?thesis
      proof (cases "VADDR_TO_PDE_INDEX v = VADDR_TO_PDE_INDEX a")
        case True
        then show ?thesis using that old [of w] by (cases "VADDR_TO_PDE_INDEX w = VADDR_TO_PDE_INDEX a") (simp_all add: pde e(2))
      next
        case v: False
        show ?thesis
        proof (cases "VADDR_TO_PDE_INDEX w = VADDR_TO_PDE_INDEX a")
          case True
          then show ?thesis using that old [of v] v by (simp add: pde e(2))
        next
          case False
          with v have "pde m' dir v = pde m dir v" "pde m' dir w = pde m dir w" by (simp_all add: pde)
          then show ?thesis using ap [unfolded tables_apart_def] that by metis
        qed
      qed
    qed
    ultimately show ?thesis unfolding tables_apart_def by blast
  qed
  ultimately show ?thesis by simp
qed

text \<open>What \<open>vm_map_user_page\<close> relies on of the allocator it is given: the page is whole, in no use as
  a table, and nothing but the page is written.\<close>

definition alloc_fresh :: "prtos_conf \<Rightarrow> page_ref \<Rightarrow> u32 \<Rightarrow>
    (u32 \<Rightarrow> u32 \<Rightarrow> pool \<Rightarrow> mmu \<Rightarrow> (u32 \<times> pool \<times> mmu) option) \<Rightarrow> pool \<Rightarrow> mmu \<Rightarrow> bool" where
  "alloc_fresh c d ptd alloc pool s \<longleftrightarrow>
     (\<forall>t pool' s1. alloc PTDL2SIZE PTDL2SIZE pool s = Some (t, pool', s1) \<longrightarrow>
        (\<exists>lru. mmu_ok c s1 lru) \<and> in_use s1 d ptd \<and> t AND PAGE_MASK = t \<and> t \<noteq> page_addr c d \<and>
        \<not> is_table (pmem s) (page_addr c d) t \<and>
        (\<forall>q. q AND 3 = 0 \<and> \<not> (\<exists>i < 1024. q = t + 4 * of_nat i) \<longrightarrow> load_word (pmem s1) q = load_word (pmem s) q))"

lemma page_of_aligned: "a AND (PAGE_SIZE - 1) = 0 \<Longrightarrow> a AND PAGE_MASK = a"
  using page_offset(1) [of a 0] by (simp add: PAGE_SIZE_def)

lemma mmu_ok_counts:
  assumes "mmu_ok c s lru"
  shows "mmu_ok c (set_type page ty s) lru" "inc_counter page s = Some s' \<Longrightarrow> mmu_ok c s' lru"
  using assms by (auto simp: mmu_ok_def set_type_def inc_counter_def phys_page_inc_counter_def bind_eq_Some_iff Let_def
      vcache_ok_def frames_aligned_def window_def split: if_splits)

lemma in_use_counts:
  assumes "in_use s d v"
  shows "in_use (set_type page ty s) d v" "inc_counter page s = Some s' \<Longrightarrow> in_use s' d v"
  using assms by (auto simp: in_use_def page_of_s_def set_type_def inc_counter_def phys_page_inc_counter_def bind_eq_Some_iff Let_def
      split: if_splits)

lemma inc_counter_kept: "inc_counter page s = Some s' \<Longrightarrow> pmem s' = pmem s \<and> mkern s' = mkern s"
  by (auto simp: inc_counter_def bind_eq_Some_iff)

lemma set_type_kept [simp]: "pmem (set_type page ty s) = pmem s" "mkern (set_type page ty s) = mkern s"
  by (simp_all add: set_type_def)

lemma pmem_upd [simp]:
  "mmu_ok c (s\<lparr>pmem := m\<rparr>) lru = mmu_ok c s lru" "in_use (s\<lparr>pmem := m\<rparr>) d v = in_use s d v"
  "mmu_ok c (s\<lparr>mkern := k\<rparr>) lru = mmu_ok c s lru" "in_use (s\<lparr>mkern := k\<rparr>) d v = in_use s d v"
  by (simp_all add: mmu_ok_def in_use_def page_of_s_def)

lemma find_page_ok:
  assumes "find_page c a p s = Some (r, s')"
  shows "mmu_ok c s' lru = mmu_ok c s lru" "in_use s' d v = in_use s d v" "pmem s' = pmem s"
  using find_page_same [OF assms] by (simp_all add: mmu_ok_def in_use_def page_of_s_def)

text \<open>Writing an entry of a table in the page of \<open>t\<close>.\<close>

lemma write_entry:
  assumes ok: "mmu_ok c s lru" and t: "t AND PAGE_MASK = t" "page_addr c page = t"
    and map: "map_page t page s = Some (v, s1)" and w: "vwrite (v + 4 * VADDR_TO_PTE_INDEX a) x s1 = Some s2"
    and u: "unlock_page page s2 = Some s3" and use: "in_use s d ptd" "page \<noteq> d"
  shows "(\<exists>lru. mmu_ok c s3 lru) \<and> in_use s3 d ptd \<and> pmem s3 = store_word (t + 4 * VADDR_TO_PTE_INDEX a) x (pmem s)"
proof -
  have ta: "t AND (PAGE_SIZE - 1) = 0" using page_aligned [of t] t(1) by (simp add: PAGE_SIZE_def)
  have "t AND PAGE_MASK = page_addr c page" using t by simp
  from map_page_ok [OF ok this map] ta obtain lru1 where m: "v AND 0xfff = 0" "mmu_ok c s1 lru1"
    "window (mm s1) v = Some (page_addr c page)" "in_use s1 d ptd" using use by auto
  have "vwrite (v + 4 * VADDR_TO_PTE_INDEX a) x s1 = Some (s1\<lparr>pmem := store_word (t + 4 * VADDR_TO_PTE_INDEX a) x (pmem s1)\<rparr>)"
    using vwrite_frame [OF m(3,1) index_bound(2)] t(2) by simp
  then have s2: "s2 = s1\<lparr>pmem := store_word (t + 4 * VADDR_TO_PTE_INDEX a) x (pmem s)\<rparr>"
    using w map_page_kept(1) [OF map] by simp
  then have "mmu_ok c s2 lru1" "in_use s2 d ptd" using m by simp_all
  with unlock_page_ok [OF this(1) u] use unlock_page_kept(1) [OF u] s2 show ?thesis by auto
qed

lemma map_in_table:
  assumes ok: "mmu_ok c s lru" and dir: "in_use s d ptd" and ap: "tables_apart (pmem s) (page_addr c d)"
    and a: "v_addr < CONFIG_PRTOS_OFFSET" and p: "IS_PRESENT (pde (pmem s) (page_addr c d) v_addr)"
    and t: "t = pde (pmem s) (page_addr c d) v_addr AND PAGE_MASK"
    and find: "find_page c t k s = Some (Some (page, f), s1)" and map: "map_page t page s1 = Some (v, s2)"
    and w: "vwrite (v + 4 * VADDR_TO_PTE_INDEX v_addr) x s2 = Some s3" and u: "unlock_page page s3 = Some s4"
  shows "(\<exists>lru. mmu_ok c s4 lru) \<and> in_use s4 d ptd \<and> tables_apart (pmem s4) (page_addr c d) \<and>
    (\<forall>w < CONFIG_PRTOS_OFFSET. walk (pmem s4) (page_addr c d) w =
      (if w AND PAGE_MASK = v_addr AND PAGE_MASK then entry x else walk (pmem s) (page_addr c d) w))"
proof -
  let ?dir = "page_addr c d"
  have rg: "regions_aligned c" using ok by (simp add: mmu_ok_def)
  have tm: "t AND PAGE_MASK = t" unfolding t by (simp add: and.assoc)
  have pt: "page_addr c page = t" using find_page_addr [OF rg find] tm by simp
  have "t \<noteq> ?dir" using ap a p t by (auto simp: tables_apart_def is_table_def)
  with pt have pd: "page \<noteq> d" by auto
  have W: "(\<exists>lru. mmu_ok c s4 lru) \<and> in_use s4 d ptd \<and> pmem s4 = store_word (t + 4 * VADDR_TO_PTE_INDEX v_addr) x (pmem s)"
    using write_entry [OF _ tm pt map w u _ pd, of lru ptd] find_page_ok [OF find] ok dir by simp
  have ta: "t AND 0xfff = 0" unfolding t by simp
  have "tables_apart (pmem s4) ?dir \<and> (\<forall>w < CONFIG_PRTOS_OFFSET. walk (pmem s4) ?dir w =
      (if w AND PAGE_MASK = v_addr AND PAGE_MASK then entry x else walk (pmem s) ?dir w))"
  proof (rule walk_store [OF ap page_addr_aligned [OF rg] a p])
    fix q :: u32 assume "q AND 3 = 0"
    then show "load_word (pmem s4) q = (if q = (pde (pmem s) ?dir v_addr AND PAGE_MASK) + 4 * VADDR_TO_PTE_INDEX v_addr
        then x else load_word (pmem s) q)"
      using W load_store_aligned [OF entry_aligned [OF ta index_bound(2)]] t by simp
  qed
  with W show ?thesis by blast
qed

lemma map_new_table:
  assumes dir: "in_use s1 d ptd" and ap: "tables_apart (pmem s) (page_addr c d)"
    and a: "v_addr < CONFIG_PRTOS_OFFSET" and p: "\<not> IS_PRESENT (pde (pmem s) (page_addr c d) v_addr)"
    and ok: "mmu_ok c s1 lru" and t: "t AND PAGE_MASK = t" "t \<noteq> page_addr c d" "\<not> is_table (pmem s) (page_addr c d) t"
    and same: "\<And>q. q AND 3 = 0 \<Longrightarrow> \<not> (\<exists>i < 1024. q = t + 4 * of_nat i) \<Longrightarrow> load_word (pmem s1) q = load_word (pmem s) q"
    and find: "find_page c t k s1 = Some (Some (page, f), s2)" and inc: "inc_counter page (set_type page ty s2) = Some s3"
    and map: "map_page t page s3 = Some (v, s4)"
    and z: "foldM (\<lambda>e. vwrite (v + 4 * of_nat e) 0) [0..<PTDL2ENTRIES] s4 = Some s5"
    and l1: "vwrite (ptd + 4 * VADDR_TO_PDE_INDEX v_addr) (t OR PG_ARCH_PRESENT OR PG_ARCH_RW) s5 = Some s6"
    and w: "vwrite (v + 4 * VADDR_TO_PTE_INDEX v_addr) x s6 = Some s7" and u: "unlock_page page s7 = Some s8"
  shows "(\<exists>lru. mmu_ok c s8 lru) \<and> in_use s8 d ptd \<and> tables_apart (pmem s8) (page_addr c d) \<and>
    (\<forall>w < CONFIG_PRTOS_OFFSET. walk (pmem s8) (page_addr c d) w =
      (if w AND PAGE_MASK = v_addr AND PAGE_MASK then entry x else walk (pmem s) (page_addr c d) w))"
proof -
  let ?dir = "page_addr c d" and ?e = "t OR PG_ARCH_PRESENT OR PG_ARCH_RW"
  let ?l2 = "t + 4 * VADDR_TO_PTE_INDEX v_addr" and ?l1 = "?dir + 4 * VADDR_TO_PDE_INDEX v_addr"
  have rg: "regions_aligned c" using ok by (simp add: mmu_ok_def)
  have pt: "page_addr c page = t" using find_page_addr [OF rg find] t by simp
  then have pd: "page \<noteq> d" using t by auto
  have ta: "t AND 0xfff = 0" "t AND (PAGE_SIZE - 1) = 0" using page_aligned [of t] t(1) by (simp_all add: PAGE_SIZE_def)
  have s3: "mmu_ok c s3 lru" "in_use s3 d ptd" "pmem s3 = pmem s1"
    using mmu_ok_counts(2) [OF mmu_ok_counts(1) inc] in_use_counts(2) [OF in_use_counts(1) inc] inc_counter_kept [OF inc]
      find_page_ok [OF find] ok dir by simp_all
  obtain lru4 where s4: "v AND 0xfff = 0" "mmu_ok c s4 lru4" "window (mm s4) v = Some t" "in_use s4 d ptd" "pmem s4 = pmem s1"
    using map_page_ok [OF s3(1) _ map] map_page_kept(1) [OF map] t(1) pt s3(2,3) ta(2) by auto
  obtain m where m0: "foldM (\<lambda>e. vwrite (v + 4 * of_nat e) 0) [0..<1024] s4 = Some (s4\<lparr>pmem := m\<rparr>)"
    "\<forall>q. q AND 3 = 0 \<longrightarrow> load_word m q = (if \<exists>e < 1024. q = t + 4 * of_nat e then 0 else load_word (pmem s4) q)"
    using zero_table [OF s4(3,1) ta(1), of 1024] by blast
  have m: "s5 = s4\<lparr>pmem := m\<rparr>" "\<And>q. q AND 3 = 0 \<Longrightarrow>
      load_word m q = (if \<exists>e < 1024. q = t + 4 * of_nat e then 0 else load_word (pmem s1) q)"
    using z m0(1) by (simp_all only: PTDL2ENTRIES_def option.inject m0(2) [rule_format] s4(5))
  have "mmu_ok c s5 lru4" "in_use s5 d ptd" using s4 m(1) by simp_all
  from in_use_window [OF this] have w5: "window (mm s5) ptd = Some ?dir" "ptd AND 0xfff = 0" by simp_all
  have s6: "s6 = s5\<lparr>pmem := store_word ?l1 ?e m\<rparr>" using vwrite_frame [OF w5 index_bound(1)] l1 m(1) by simp
  have w6: "window (mm s6) v = Some t" using s6 m(1) s4(3) by simp
  have s7: "s7 = s6\<lparr>pmem := store_word ?l2 x (pmem s6)\<rparr>" using vwrite_frame [OF w6 s4(1) index_bound(2)] w by simp
  have "mmu_ok c s7 lru4" "in_use s7 d ptd" using s4 m(1) s6 s7 by simp_all
  from unlock_page_ok [OF this(1) u] this(2) pd have fin: "(\<exists>lru. mmu_ok c s8 lru) \<and> in_use s8 d ptd" by auto
  have mem: "pmem s8 = store_word ?l2 x (store_word ?l1 ?e m)" using unlock_page_kept(1) [OF u] s7 s6 by simp
  have "\<not> bit t i" if "i < 12" for i using and_mask_zero [OF ta(1) [unfolded low_bits] that] .
  then have e: "IS_PRESENT ?e" "?e AND PAGE_MASK = t"
  proof -
    show "IS_PRESENT ?e" unfolding IS_PRESENT_def word_neq_0_bit
      by (intro exI [of _ 0]) (simp add: PG_ARCH_PRESENT_def bit_simps)
    have "PG_ARCH_PRESENT AND PAGE_MASK = 0" "PG_ARCH_RW AND PAGE_MASK = 0"
      by (simp_all add: PG_ARCH_PRESENT_def PG_ARCH_RW_def PAGE_MASK_def)
    then show "?e AND PAGE_MASK = t" using t(1) by (simp add: word_ao_dist)
  qed
  have "tables_apart (pmem s8) ?dir \<and> (\<forall>w < CONFIG_PRTOS_OFFSET. walk (pmem s8) ?dir w =
      (if w AND PAGE_MASK = v_addr AND PAGE_MASK then entry x else walk (pmem s) ?dir w))"
  proof (rule walk_new_table [OF ap page_addr_aligned [OF rg] a p t e])
    fix q :: u32 assume q: "q AND 3 = 0"
    show "load_word (pmem s8) q = (if q = ?l2 then x else if q = ?l1 then ?e
        else if \<exists>i < 1024. q = t + 4 * of_nat i then 0 else load_word (pmem s) q)"
      unfolding mem load_store_aligned [OF entry_aligned [OF ta(1) index_bound(2)] q]
        load_store_aligned [OF dir_aligned [OF page_addr_aligned [OF rg]] q] m(2) [OF q]
      using same [OF q] by (cases "\<exists>i < 1024. q = t + 4 * of_nat i") (simp_all only: if_True if_False not_False_eq_True)
  qed
  with fin show ?thesis by blast
qed

text \<open>C10. Mapping a page into the address space of a guest, seen through the page tables: when it
  succeeds, the page of the guest address is translated to the entry with the physical page and the
  attributes asked for, and the translation of no other address below the hypervisor changes, whether
  the table was there or was allocated; the tables stay apart and the directory stays mapped.\<close>

theorem vm_map_user_page_correct:
  assumes ok: "mmu_ok c s lru" and dir: "in_use s d ptd" and ap: "tables_apart (pmem s) (page_addr c d)"
    and fresh: "alloc_fresh c d ptd alloc pool s"
    and run: "vm_map_user_page c k ptd p_addr v_addr flags alloc pool s = Some (0, pool', s')"
  shows "(\<exists>lru'. mmu_ok c s' lru') \<and> in_use s' d ptd \<and> tables_apart (pmem s') (page_addr c d) \<and>
    (\<forall>w < CONFIG_PRTOS_OFFSET. walk (pmem s') (page_addr c d) w =
      (if w AND PAGE_MASK = v_addr then entry (p_addr OR vm_attr_to_arch_attr flags)
       else walk (pmem s) (page_addr c d) w))"
proof -
  let ?e = "pde (pmem s) (page_addr c d) v_addr"
  have A: "p_addr AND (PAGE_SIZE - 1) = 0" "v_addr AND (PAGE_SIZE - 1) = 0" "v_addr < CONFIG_PRTOS_OFFSET"
    using run by (auto simp: vm_map_user_page_def bind_eq_Some_iff)
  have pv: "p_addr AND PAGE_MASK = p_addr" "v_addr AND PAGE_MASK = v_addr" using A by (simp_all add: page_of_aligned)
  have rd: "vread s (ptd + 4 * VADDR_TO_PDE_INDEX v_addr) = Some ?e"
    using vread_frame in_use_window [OF ok dir] index_bound by (simp add: pde_def)
  show ?thesis
  proof (cases "IS_PRESENT ?e")
    case True
    then have "?e AND PG_ARCH_PRESENT \<noteq> 0" by (simp add: IS_PRESENT_def)
    with run rd obtain page f s1 v s2 s3 where
      "find_page c (?e AND PAGE_MASK) k s = Some (Some (page, f), s1)" "map_page (?e AND PAGE_MASK) page s1 = Some (v, s2)"
      "vwrite (v + 4 * VADDR_TO_PTE_INDEX v_addr) (p_addr OR vm_attr_to_arch_attr flags) s2 = Some s3"
      "unlock_page page s3 = Some s'"
      by (auto simp: vm_map_user_page_def bind_eq_Some_iff Let_def pv)
    from map_in_table [OF ok dir ap A(3) True refl this] show ?thesis by (simp add: pv)
  next
    case False
    then have "?e AND PG_ARCH_PRESENT = 0" by (simp add: IS_PRESENT_def)
    with run rd obtain t pool1 s1 page f s2 s3 v s4 s5 s6 s7 where
      t: "alloc PTDL2SIZE PTDL2SIZE pool s = Some (t, pool1, s1)" and
      "find_page c t k s1 = Some (Some (page, f), s2)" "inc_counter page (set_type page PPAG_PTDL2 s2) = Some s3"
      "map_page t page s3 = Some (v, s4)" "foldM (\<lambda>e. vwrite (v + 4 * of_nat e) 0) [0..<PTDL2ENTRIES] s4 = Some s5"
      "vwrite (ptd + 4 * VADDR_TO_PDE_INDEX v_addr) (t OR PG_ARCH_PRESENT OR PG_ARCH_RW) s5 = Some s6"
      "vwrite (v + 4 * VADDR_TO_PTE_INDEX v_addr) (p_addr OR vm_attr_to_arch_attr flags) s6 = Some s7"
      "unlock_page page s7 = Some s'"
      by (auto simp: vm_map_user_page_def bind_eq_Some_iff Let_def pv split: option.splits)
    moreover from fresh [unfolded alloc_fresh_def, rule_format, OF t] obtain lru1 where "mmu_ok c s1 lru1" "in_use s1 d ptd"
      "t AND PAGE_MASK = t" "t \<noteq> page_addr c d" "\<not> is_table (pmem s) (page_addr c d) t"
      "\<And>q. q AND 3 = 0 \<Longrightarrow> \<not> (\<exists>i < 1024. q = t + 4 * of_nat i) \<Longrightarrow> load_word (pmem s1) q = load_word (pmem s) q" by blast
    ultimately show ?thesis using map_new_table [OF _ ap A(3) False] by (simp add: pv)
  qed
qed

lemma anonymous_page_addr:
  assumes "regions_aligned c" "anonymous_page c a s = Some (page, s')"
  shows "page_addr c page = a AND PAGE_MASK" "mm s' = mm s" "pmem s' = pmem s"
  using assms page_in_region_addr
  by (auto simp: anonymous_page_def phys_mm_find_anonymous_page_def bind_eq_Some_iff Let_def split: option.splits if_splits)

lemma page_split: "(a AND PAGE_MASK) + (a AND (PAGE_SIZE - 1)) = a"
proof -
  have ps: "PAGE_SIZE - 1 = mask 12" by (simp add: PAGE_SIZE_def mask_eq_exp_minus_1)
  have "(a AND PAGE_MASK) AND (a AND (PAGE_SIZE - 1)) = 0" unfolding PAGE_MASK_def low_bits ps
    by (rule bit_word_eqI) (auto simp: bit_simps)
  moreover have "(a AND PAGE_MASK) OR (a AND (PAGE_SIZE - 1)) = a" unfolding PAGE_MASK_def low_bits ps
    by (rule bit_word_eqI) (auto simp: bit_simps)
  ultimately show ?thesis using plus_or_disjoint by metis
qed

lemma write_by_pass_ok:
  assumes ok: "mmu_ok c s lru" and a: "a \<le> CONFIG_PRTOS_OFFSET" and r: "write_by_pass_mmu_word c a x s = Some s'"
  shows "(\<exists>lru'. mmu_ok c s' lru') \<and> (\<forall>q w. page_addr c q \<noteq> a AND PAGE_MASK \<longrightarrow> in_use s q w \<longrightarrow> in_use s' q w) \<and>
    pmem s' = store_word a x (pmem s)"
proof -
  have rg: "regions_aligned c" using ok by (simp add: mmu_ok_def)
  obtain page s1 v s2 s3 where p: "anonymous_page c a s = Some (page, s1)" and m: "map_page a page s1 = Some (v, s2)"
    and w: "vwrite v x s2 = Some s3" and u: "unlock_page page s3 = Some s'"
    using r leD [OF a] by (auto simp: write_by_pass_mmu_word_def bind_eq_Some_iff)
  note P = anonymous_page_addr [OF rg p]
  have ok1: "mmu_ok c s1 lru" using ok P by (simp add: mmu_ok_def)
  have use1: "in_use s1 q w = in_use s q w" for q w using P by (simp add: in_use_def page_of_s_def)
  obtain v0 lru2 where v: "v = v0 + (a AND (PAGE_SIZE - 1))" "v0 AND 0xfff = 0" "mmu_ok c s2 lru2"
    "window (mm s2) v0 = Some (page_addr c page)" "\<forall>q w. in_use s1 q w \<longrightarrow> in_use s2 q w"
    using map_page_ok [OF ok1 P(1) [symmetric] m] by blast
  have off: "(a AND (PAGE_SIZE - 1)) AND NOT 0xfff = 0"
    by (simp add: PAGE_SIZE_def and.assoc)
  have "(v AND PAGE_MASK) = v0" "v AND (PAGE_SIZE - 1) = a AND (PAGE_SIZE - 1)"
    using page_offset [OF v(2) off] v(1) by simp_all
  then have s3: "s3 = s2\<lparr>pmem := store_word a x (pmem s2)\<rparr>"
    using w v(4) P(1) by (simp add: vwrite_def page_split)
  then have "mmu_ok c s3 lru2" using v(3) by simp
  from unlock_page_ok [OF this u] obtain lru3 where "mmu_ok c s' lru3" "\<forall>q w. q \<noteq> page \<longrightarrow> in_use s3 q w \<longrightarrow> in_use s' q w" by blast
  moreover have "pmem s' = store_word a x (pmem s)"
    using unlock_page_kept(1) [OF u] s3 map_page_kept(1) [OF m] P(3) by simp
  moreover have "in_use s3 q w" if "in_use s q w" for q w using that v(5) use1 s3 by simp
  ultimately show ?thesis using P(1) by metis
qed

lemma alloc_mem_fresh:
  assumes ok: "mmu_ok c s lru" and dir: "in_use s d ptd" and a: "a AND PAGE_MASK = a" "uint a + 4096 \<le> uint CONFIG_PRTOS_OFFSET"
    and n: "4096 \<le> n" "n < 2 ^ 31" and unused: "a \<noteq> page_addr c d" "\<not> is_table (pmem s) (page_addr c d) a"
    and id: "vaddr_to_paddr (\<lambda>e. part_area c p (int e)) 0 (nat (num_of_physical_memory_areas (partition_cfg c p))) a = a"
  shows "alloc_fresh c d ptd (alloc_mem c p) (a, n) s"
proof -
  have ta: "a AND 0xfff = 0" using page_aligned [of a] a(1) by simp
  have off: "of_nat e \<le> (1023 :: u32)" if "e < 1024" for e using that by (simp add: word_le_nat_alt unat_of_nat32)
  have le: "a + 4 * of_nat e \<le> CONFIG_PRTOS_OFFSET" if "e < 1024" for e
  proof -
    have u: "unat a + 4096 \<le> unat CONFIG_PRTOS_OFFSET" using a(2) unfolding uint_nat by linarith
    with that unat_lt32 [of CONFIG_PRTOS_OFFSET] have "unat a + 4 * e < 2 ^ 32" by linarith
    then have "unat (a + of_nat (4 * e)) = unat a + 4 * e" by (rule unat_add_of_nat)
    with u that have "unat (a + of_nat (4 * e)) \<le> unat CONFIG_PRTOS_OFFSET" by linarith
    then show ?thesis by (simp only: word_le_nat_alt of_nat_mult of_nat_numeral)
  qed
  have "(\<exists>lru. mmu_ok c s1 lru) \<and> in_use s1 d ptd \<and> t AND PAGE_MASK = t \<and> t \<noteq> page_addr c d \<and>
      \<not> is_table (pmem s) (page_addr c d) t \<and>
      (\<forall>q. q AND 3 = 0 \<and> \<not> (\<exists>i < 1024. q = t + 4 * of_nat i) \<longrightarrow> load_word (pmem s1) q = load_word (pmem s) q)"
    if r: "alloc_mem c p PTDL2SIZE PTDL2SIZE (a, n) s = Some (t, pool', s1)" for t pool' s1
  proof -
    have "s32 (n - 4096) = n - 4096" 
      using n uint_word_of_int_u32 [of "n - 4096"] sint_small [of "word_of_int (n - 4096)"] by (simp add: s32_def)
    moreover have "a AND (PTDL2SIZE - 1) = 0" using ta by (simp add: PTDL2SIZE_def)
    ultimately have f: "foldM (\<lambda>e. write_by_pass_mmu_word c (a + 4 * of_nat e) 0) [0..<1024] s = Some s1" "t = a"
      using r n id by (auto simp: alloc_mem_def Let_def bind_eq_Some_iff PTDL2SIZE_def)
    let ?P = "\<lambda>s'. (\<exists>lru. mmu_ok c s' lru) \<and> in_use s' d ptd \<and>
      (\<forall>q. q AND 3 = 0 \<and> \<not> (\<exists>i < 1024. q = a + 4 * of_nat i) \<longrightarrow> load_word (pmem s') q = load_word (pmem s) q)"
    have "?P s1"
    proof (rule foldM_inv [OF f(1)])
      show "?P s" using ok dir by blast
      fix e s2 s3 assume e: "e \<in> set [0..<1024]" and w: "write_by_pass_mmu_word c (a + 4 * of_nat e) 0 s2 = Some s3" and P: "?P s2"
      then have e: "e < 1024" by simp
      from P obtain lru2 where "mmu_ok c s2 lru2" by blast
      note W = write_by_pass_ok [OF this le [OF e] w]
      have "(a + 4 * of_nat e) AND PAGE_MASK = a" using page_offset(1) [OF ta entry_offset(1) [OF off [OF e]]] .
      with W P unused have "(\<exists>lru. mmu_ok c s3 lru) \<and> in_use s3 d ptd" by metis
      moreover have "load_word (pmem s3) q = load_word (pmem s) q" if "q AND 3 = 0" "\<not> (\<exists>i < 1024. q = a + 4 * of_nat i)" for q
      proof -
        have "q \<noteq> a + 4 * of_nat e" using that(2) e by blast
        then have "load_word (pmem s3) q = load_word (pmem s2) q"
          using W load_store_aligned [OF entry_aligned [OF ta off [OF e]] that(1)] by simp
        then show ?thesis using P that by metis
      qed
      ultimately show "?P s3" by blast
    qed
    then show ?thesis using a unused f(2) by simp
  qed
  then show ?thesis unfolding alloc_fresh_def by blast
qed

text \<open>A partition with a page directory in its first page, mapped at \<open>0xFD000000\<close>, whose entry 24 is the
  table in its second page, and four free frames; its pool of table pages starts at the third.\<close>

definition demo_pg_conf :: prtos_conf where
  "demo_pg_conf = demo_conf\<lparr>memory_region_table := (\<lambda>_. \<lparr>region_start_addr = 0x6000000, region_size = 0x2000000,
     region_flags = PRTOSC_REG_FLAG_PGTAB\<rparr>)\<rparr>"

definition demo_mmu :: mmu where
  "demo_mmu = \<lparr>mm = \<lparr>phys_page_table = (\<lambda>r.
       \<lparr>pp_v_addr = 0xFD000000, pp_mapped = (r = Page 0 0), pp_unlocked = False,
        pp_type = (if r = Page 0 0 then PPAG_PTDL1 else if r = Page 0 1 then PPAG_PTDL2 else PPAG_STD),
        pp_counter = (if r = Page 0 0 \<or> r = Page 0 1 then 1 else 0)\<rparr>),
     cache_lru = \<lparr>nodes = (\<lambda>_. \<lparr>dn_list = None, dn_prev = None, dn_next = None\<rparr>), dlists = (\<lambda>_. \<lparr>dl_head = None, dl_num = 0\<rparr>)\<rparr>,
     vmm_start_addr = 0xFD001000, num_of_frames = 4, vm_mapped = [(0x6000000, 0xFD000000, 0)]\<rparr>,
     mkern = demo_state, pmem = store_word 0x6000060 0x6001003 (\<lambda>_. 0)\<rparr>"

lemma demo_map_run:
  "case vm_map_user_page demo_pg_conf 0 0xFD000000 0x6005000 0x6005000 (area_attr 0) (alloc_mem demo_pg_conf 0) (0x6002000, 0x4000) demo_mmu
   of Some (r, _) \<Rightarrow> r = 0 | None \<Rightarrow> False"
  by code_simp

lemma demo_mmu_ok: "mmu_ok demo_pg_conf demo_mmu []" "in_use demo_mmu (Page 0 0) 0xFD000000"
  by (auto simp: mmu_ok_def in_use_def page_of_s_def demo_mmu_def vcache_ok_def frames_aligned_def regions_aligned_def demo_pg_conf_def
      dl_rep_Nil dl_detached_def window_def page_addr_def CONFIG_PRTOS_OFFSET_def)

lemma demo_dir: "page_addr demo_pg_conf (Page 0 0) = 0x6000000"
  by (simp add: page_addr_def demo_pg_conf_def)

lemma demo_pde: "pde (pmem demo_mmu) 0x6000000 v = (if VADDR_TO_PDE_INDEX v = 24 then 0x6001003 else 0)"
proof -
  have q: "(0x6000000 + 4 * VADDR_TO_PDE_INDEX v) AND 3 = 0" by (intro entry_aligned index_bound) simp
  have "0x6000000 + 4 * VADDR_TO_PDE_INDEX v = 0x6000000 + 4 * 24 \<longleftrightarrow> VADDR_TO_PDE_INDEX v = 24"
    using entry_inj [of "0x6000000" "0x6000000" "VADDR_TO_PDE_INDEX v" 24] index_bound(1) [of v] by auto
  moreover have "load_word (\<lambda>_. 0) a = 0" for a by (simp add: load_word_def)
  ultimately show ?thesis using load_store_aligned [of "0x6000060" _ "0x6001003" "\<lambda>_. 0", OF _ q]
    by (simp add: pde_def demo_mmu_def)
qed

lemma demo_tables: "tables_apart (pmem demo_mmu) 0x6000000" "\<not> is_table (pmem demo_mmu) 0x6000000 0x6002000"
  by (auto simp: tables_apart_def is_table_def demo_pde IS_PRESENT_def PAGE_MASK_def)

lemma demo_alloc_fresh: "alloc_fresh demo_pg_conf (Page 0 0) 0xFD000000 (alloc_mem demo_pg_conf 0) (0x6002000, 0x4000) demo_mmu"
proof (rule alloc_mem_fresh [OF demo_mmu_ok])
  show "vaddr_to_paddr (\<lambda>e. part_area demo_pg_conf 0 (int e)) 0 (nat (num_of_physical_memory_areas (partition_cfg demo_pg_conf 0))) 0x6002000 = 0x6002000"
    by code_simp
qed (simp_all add: demo_dir demo_tables PAGE_MASK_def CONFIG_PRTOS_OFFSET_def)

theorem vm_map_user_page_correct_witness:
  "\<exists>pool' s'. vm_map_user_page demo_pg_conf 0 0xFD000000 0x6005000 0x6005000 (area_attr 0) (alloc_mem demo_pg_conf 0)
     (0x6002000, 0x4000) demo_mmu = Some (0, pool', s') \<and> walk (pmem s') 0x6000000 0x6005123 = Some 0x6005007"
proof -
  obtain pool' s' where run: "vm_map_user_page demo_pg_conf 0 0xFD000000 0x6005000 0x6005000 (area_attr 0)
      (alloc_mem demo_pg_conf 0) (0x6002000, 0x4000) demo_mmu = Some (0, pool', s')"
    using demo_map_run by (auto split: option.splits)
  have x: "entry (0x6005000 OR vm_attr_to_arch_attr (area_attr 0)) = Some 0x6005007" by code_simp
  have "walk (pmem s') 0x6000000 0x6005123 = entry (0x6005000 OR vm_attr_to_arch_attr (area_attr 0))"
    using vm_map_user_page_correct [OF demo_mmu_ok _ demo_alloc_fresh run] demo_tables(1)
    by (simp add: demo_dir PAGE_MASK_def CONFIG_PRTOS_OFFSET_def)
  with run x show ?thesis by simp
qed

section \<open>The loop over the pages of an area\<close>

text \<open>The body for \<open>n\<close> pages in turn, as far as the first that fails.\<close>

fun try_pages :: "(u32 \<Rightarrow> u32 \<Rightarrow> 's \<Rightarrow> (int \<times> 's) option) \<Rightarrow> u32 \<Rightarrow> u32 \<Rightarrow> nat \<Rightarrow> 's \<Rightarrow> (int \<times> u32 \<times> 's) option" where
  "try_pages body addr v 0 s = Some (0, v, s)"
| "try_pages body addr v (Suc n) s = do {
     (r, s) \<leftarrow> body addr v s;
     if r < 0 then Some (- 1, v, s) else try_pages body (addr + PAGE_SIZE) (v + PAGE_SIZE) n s }"

lemma try_pages_returns:
  assumes "\<And>addr v s. body addr v s \<noteq> None"
  shows "try_pages body addr v n s \<noteq> None"
proof (induction n arbitrary: addr v s)
  case (Suc n)
  obtain r s1 where "body addr v s = Some (r, s1)" using assms [of addr v s] by auto
  with Suc [of "addr + PAGE_SIZE" "v + PAGE_SIZE" s1] show ?case by simp
qed simp

text \<open>The loop over the pages of an area ends: for an area of \<open>n\<close> whole pages that starts above
  address 0 and does not pass the top of the address space, even one that ends there, where the
  address wraps, it is the body on exactly those \<open>n\<close> pages, in ascending order, up to the first that
  fails; so it returns whenever the body does.\<close>

theorem page_loop_terminates:
  assumes a: "a \<noteq> 0" and n: "0 < n" "unat a + 4096 * n \<le> 2 ^ 32"
  shows "page_loop body a (a + of_nat (4096 * n) - 1) a v s = try_pages body a v n s \<and>
    ((\<forall>addr v s. body addr v s \<noteq> None) \<longrightarrow> page_loop body a (a + of_nat (4096 * n) - 1) a v s \<noteq> None)"
proof -
  let ?b = "a + of_nat (4096 * n) - 1"
  have "unat (a + of_nat (4096 * n - 1)) = unat a + (4096 * n - 1)" using n by (intro unat_add_of_nat) linarith
  moreover have "of_nat (4096 * n) - 1 = (of_nat (4096 * n - 1) :: u32)" using n by (simp add: of_nat_diff)
  ultimately have b: "unat ?b = unat a + 4096 * n - 1" using n by (simp add: algebra_simps)
  have "page_loop body a ?b (a + of_nat (4096 * k)) v s = try_pages body (a + of_nat (4096 * k)) v (n - k) s" if "k \<le> n" for k v s
    using that
  proof (induction "n - k" arbitrary: k v s)
    case 0
    then have k: "k = n" by simp
    have out: "\<not> (a \<le> a + of_nat (4096 * n) \<and> a + of_nat (4096 * n) < ?b)"
    proof (cases "unat a + 4096 * n < 2 ^ 32")
      case True
      then have "unat (a + of_nat (4096 * n)) = unat a + 4096 * n" by (rule unat_add_of_nat)
      with b have "\<not> unat (a + of_nat (4096 * n)) < unat ?b" by linarith
      then show ?thesis by (simp only: word_less_nat_alt simp_thms)
    next
      case False
      with n have "unat a + 4096 * n = 2 ^ 32" by simp
      moreover have "a + of_nat (4096 * n) = of_nat (unat a + 4096 * n)" by simp
      ultimately have "a + of_nat (4096 * n) = of_nat (2 ^ 32)" by (simp only:)
      then have "a + of_nat (4096 * n) = 0" by simp
      with a show ?thesis by (simp only: word_le_0_iff simp_thms)
    qed
    show ?case unfolding k by (subst page_loop.simps) (simp only: out if_False try_pages.simps diff_self_eq_0)
  next
    case (Suc j)
    then have k: "k < n" "n - k = Suc (n - Suc k)" by simp_all
    have "unat (a + of_nat (4096 * k)) = unat a + 4096 * k" using k n by (intro unat_add_of_nat) linarith
    with b k n have "unat a \<le> unat (a + of_nat (4096 * k))" "unat (a + of_nat (4096 * k)) < unat ?b" by linarith+
    then have "a \<le> a + of_nat (4096 * k)" "a + of_nat (4096 * k) < ?b" by (simp_all only: word_less_nat_alt word_le_nat_alt)
    then have inside: "a \<le> a + of_nat (4096 * k) \<and> a + of_nat (4096 * k) < ?b" by simp
    have next_page: "a + of_nat (4096 * k) + PAGE_SIZE = a + of_nat (4096 * Suc k)" by (simp add: PAGE_SIZE_def algebra_simps)
    have "j = n - Suc k" "Suc k \<le> n" using k Suc(2) by simp_all
    from Suc(1) [OF this] show ?case unfolding k(2)
      by (subst page_loop.simps) (simp only: inside simp_thms if_True try_pages.simps next_page)
  qed
  from this [of 0] have "page_loop body a ?b a v s = try_pages body a v n s" by simp
  then show ?thesis using try_pages_returns [of body a v n s] by simp
qed

theorem page_loop_terminates_witness:
  "page_loop (\<lambda>addr v l. Some (0, l @ [(addr, v)])) 0xFFFFE000 (0xFFFFE000 + of_nat (4096 * 2) - 1) 0xFFFFE000 0x1000 [] =
     Some (0, 0x3000, [(0xFFFFE000, 0x1000), (0xFFFFF000, 0x2000)])"
proof -
  have "try_pages (\<lambda>addr v l. Some (0, l @ [(addr, v)])) 0xFFFFE000 0x1000 2 [] =
      Some (0, 0x3000, [(0xFFFFE000, 0x1000), (0xFFFFF000, 0x2000)])"
    by (simp add: numeral_2_eq_2 PAGE_SIZE_def)
  then show ?thesis
    using page_loop_terminates [of "0xFFFFE000" 2 "\<lambda>addr v l. Some (0, l @ [(addr, v)])" "0x1000" "[]"] by simp
qed

end
