(* ===== verification/MmuCalls.thy ===== *)
theory MmuCalls
  imports VMap
begin

text \<open>
  The hypercalls on page tables, \<open>core/kernel/mmu/hypercalls.c\<close>: a guest writes entries of its page
  tables and declares which of its pages are page tables only through the hypervisor, which counts
  the references to every page and decides what an entry may map.  A routine that ends a scan of
  the entries early returns with the page still in use.
\<close>

section \<open>One entry\<close>

definition is_ptr_in_ctrl_table_page :: "u32 \<Rightarrow> guest \<Rightarrow> bool" where
  "is_ptr_in_ctrl_table_page addr g \<longleftrightarrow>
     VIRT2PHYS (g_pct_addr g) \<le> addr \<and> addr < VIRT2PHYS (g_pct_addr g) + pct_size (g_pct g)"

definition IS_VALID_PTD_PTR :: "3 word \<Rightarrow> u32 \<Rightarrow> bool" where
  "IS_VALID_PTD_PTR ty p_addr \<longleftrightarrow> ty = PPAG_PTDL1 \<and>
     (drop_bit 2 p_addr AND 1023) < VADDR_TO_PDE_INDEX CONFIG_PRTOS_OFFSET"

definition IS_VALID_PTD_ENTRY :: "3 word \<Rightarrow> bool" where
  "IS_VALID_PTD_ENTRY ty \<longleftrightarrow> ty = PPAG_PTDL2"

definition IS_VALID_PTE_ENTRY :: "3 word \<Rightarrow> bool" where
  "IS_VALID_PTE_ENTRY ty = True"

definition GET_USER_PTD_ENTRIES :: nat where
  "GET_USER_PTD_ENTRIES = unat (VADDR_TO_PDE_INDEX CONFIG_PRTOS_OFFSET)"

definition NR_PPAG :: u32 where "NR_PPAG = 3"

text \<open>The partition that runs.\<close>

definition my_partition :: "nat \<Rightarrow> mmu \<Rightarrow> nat option" where
  "my_partition this s = get_partition (mkern s) (current_kthread (cpus (mkern s) this))"

definition vmm_audit :: "u32 \<Rightarrow> u32 list \<Rightarrow> mmu \<Rightarrow> mmu" where
  "vmm_audit e args s = s\<lparr>mkern := raise_audit_event TRACE_VMM_MODULE e args (mkern s)\<rparr>"

definition update_ptd :: "prtos_conf \<Rightarrow> nat \<Rightarrow> page_ref \<Rightarrow> u32 \<Rightarrow> u32 \<Rightarrow> mmu \<Rightarrow> (int \<times> u32 \<times> mmu) option" where
  "update_ptd c this page p_addr val s = do {
     (v, s) \<leftarrow> map_page p_addr page s;
     if \<not> IS_VALID_PTD_PTR (pp_type (page_of_s s page)) p_addr then Some (PRTOS_INVALID_PARAM, val, s) else do {
     (old, s) \<leftarrow> read_by_pass_mmu_word c v s;
     s \<leftarrow> unlock_page page s;
     me \<leftarrow> my_partition this s;
     (ok, s) \<leftarrow> (if IS_PRESENT val then do {
         (r, s) \<leftarrow> find_page c (val AND PAGE_MASK) me s;
         case r of None \<Rightarrow> Some (False, vmm_audit 4 [val] s)
         | Some (q, _) \<Rightarrow>
             if \<not> IS_VALID_PTD_ENTRY (pp_type (page_of_s s q)) then Some (False, vmm_audit 4 [val] s)
             else do { s \<leftarrow> inc_counter q s; Some (True, s) } }
       else Some (True, s));
     if \<not> ok then Some (PRTOS_INVALID_PARAM, val, s)
     else if IS_PRESENT old then do {
       (r, s) \<leftarrow> find_page c (old AND PAGE_MASK) me s;
       case r of None \<Rightarrow> Some (PRTOS_INVALID_PARAM, val, s)
       | Some (q, _) \<Rightarrow> do {
           _ \<leftarrow> ASSERT (IS_VALID_PTD_ENTRY (pp_type (page_of_s s q)));
           _ \<leftarrow> ASSERT (pp_counter (page_of_s s q) > 0);
           s \<leftarrow> dec_counter q s;
           Some (PRTOS_OK, val, s) } }
     else Some (PRTOS_OK, val, s) } }"

text \<open>The page, if it is managed, and the flags of the area an entry refers to.  The flags are not
  set for an address in the control table of the guest: \<open>junk\<close> is what the variable holds then.\<close>

definition entry_target ::
    "prtos_conf \<Rightarrow> u32 \<Rightarrow> guest \<Rightarrow> nat \<Rightarrow> u32 \<Rightarrow> mmu \<Rightarrow> ((page_ref option \<times> u32 \<times> bool) option \<times> mmu) option" where
  "entry_target c junk g me a s = do {
     (r, s) \<leftarrow> find_page c a me s;
     case r of Some (q, f) \<Rightarrow> Some (Some (Some q, f, False), s)
     | None \<Rightarrow>
         if is_ptr_in_ctrl_table_page a g then Some (Some (None, junk, True), s)
         else do {
           (f, k) \<leftarrow> phys_mm_find_addr c a me (mkern s);
           Some (map_option (\<lambda>f. (None, f, False)) f, s\<lparr>mkern := k\<rparr>) } }"

text \<open>The value stored for an entry the guest asks for.\<close>

definition pte_value :: "u32 \<Rightarrow> u32 \<Rightarrow> (3 word) option \<Rightarrow> bool \<Rightarrow> u32" where
  "pte_value val af ty pct =
     (let attr = vm_arch_attr_to_attr val;
          attr = (if af AND PRTOS_MEM_AREA_READONLY \<noteq> 0 then attr AND NOT PG_ATTR_RW else attr);
          attr = (if af AND PRTOS_MEM_AREA_UNCACHEABLE \<noteq> 0 then attr AND NOT PG_ATTR_CACHED else attr);
          attr = (case ty of Some ty \<Rightarrow> if ty \<noteq> PPAG_STD then attr AND NOT PG_ATTR_RW else attr
                  | None \<Rightarrow> if pct then attr AND NOT PG_ATTR_RW else attr)
      in (val AND PG_ARCH_ADDR) OR vm_attr_to_arch_attr attr)"

text \<open>The new entry takes a reference to its page; the old one gives its reference back.\<close>

definition take_new :: "prtos_conf \<Rightarrow> u32 \<Rightarrow> guest \<Rightarrow> nat \<Rightarrow> u32 \<Rightarrow> mmu \<Rightarrow> (u32 option \<times> mmu) option" where
  "take_new c junk g me val s =
     (if IS_PRESENT val then do {
        (r, s) \<leftarrow> entry_target c junk g me (val AND PAGE_MASK) s;
        case r of None \<Rightarrow> Some (None, s)
        | Some (q, f, pct) \<Rightarrow> do {
            let new = pte_value val f (map_option (\<lambda>q. pp_type (page_of_s s q)) q) pct;
            s \<leftarrow> (case q of Some q \<Rightarrow> inc_counter q s | None \<Rightarrow> Some s);
            Some (Some new, s) } }
      else Some (Some val, s))"

definition drop_old :: "prtos_conf \<Rightarrow> u32 \<Rightarrow> guest \<Rightarrow> nat \<Rightarrow> u32 \<Rightarrow> mmu \<Rightarrow> (bool \<times> mmu) option" where
  "drop_old c junk g me old s =
     (if IS_PRESENT old then do {
        (r, s) \<leftarrow> entry_target c junk g me (old AND PAGE_MASK) s;
        case r of None \<Rightarrow> Some (False, s)
        | Some (q, _) \<Rightarrow> (case q of None \<Rightarrow> Some (True, s)
          | Some q \<Rightarrow> do {
              _ \<leftarrow> ASSERT (pp_counter (page_of_s s q) > 0);
              s \<leftarrow> dec_counter q s;
              Some (True, s) }) }
      else Some (True, s))"

definition update_pte :: "prtos_conf \<Rightarrow> u32 \<Rightarrow> nat \<Rightarrow> page_ref \<Rightarrow> u32 \<Rightarrow> u32 \<Rightarrow> mmu \<Rightarrow> (int \<times> u32 \<times> mmu) option" where
  "update_pte c junk this page p_addr val s = do {
     (v, s) \<leftarrow> map_page p_addr page s;
     (old, s) \<leftarrow> read_by_pass_mmu_word c v s;
     s \<leftarrow> unlock_page page s;
     me \<leftarrow> my_partition this s;
     g \<leftarrow> guest_of (mkern s) (current_kthread (cpus (mkern s) this));
     (new, s) \<leftarrow> take_new c junk g me val s;
     case new of None \<Rightarrow> Some (PRTOS_INVALID_PARAM, val, s)
     | Some val \<Rightarrow> do {
         (ok, s) \<leftarrow> drop_old c junk g me old s;
         Some (if ok then PRTOS_OK else PRTOS_INVALID_PARAM, val, s) } }"

section \<open>All entries of a page\<close>

text \<open>A scan of the entries; the body returns whether it goes on.\<close>

fun scan :: "(nat \<Rightarrow> 's \<Rightarrow> (bool \<times> 's) option) \<Rightarrow> nat list \<Rightarrow> 's \<Rightarrow> (bool \<times> 's) option" where
  "scan body [] s = Some (True, s)"
| "scan body (e # es) s = do { (go, s) \<leftarrow> body e s; if go then scan body es s else Some (False, s) }"

definition unset_entry :: "prtos_conf \<Rightarrow> nat \<Rightarrow> (3 word \<Rightarrow> bool) \<Rightarrow> u32 \<Rightarrow> nat \<Rightarrow> mmu \<Rightarrow> (bool \<times> mmu) option" where
  "unset_entry c this valid v e s = do {
     (x, s) \<leftarrow> read_by_pass_mmu_word c (v + 4 * of_nat e) s;
     if \<not> IS_PRESENT x then Some (True, s) else do {
     me \<leftarrow> my_partition this s;
     (r, s) \<leftarrow> find_page c (x AND PAGE_MASK) me s;
     case r of None \<Rightarrow> Some (False, s)
     | Some (q, _) \<Rightarrow> do {
         _ \<leftarrow> ASSERT (valid (pp_type (page_of_s s q)));
         _ \<leftarrow> ASSERT (pp_counter (page_of_s s q) > 0);
         s \<leftarrow> dec_counter q s;
         Some (True, s) } } }"

definition unset_ptd :: "prtos_conf \<Rightarrow> nat \<Rightarrow> u32 \<Rightarrow> page_ref \<Rightarrow> mmu \<Rightarrow> mmu option" where
  "unset_ptd c this p_addr page s = do {
     (v, s) \<leftarrow> map_page p_addr page s;
     (go, s) \<leftarrow> scan (unset_entry c this IS_VALID_PTD_ENTRY v) [0..<GET_USER_PTD_ENTRIES] s;
     if go then unlock_page page s else Some s }"

definition unset_pte :: "prtos_conf \<Rightarrow> nat \<Rightarrow> u32 \<Rightarrow> page_ref \<Rightarrow> mmu \<Rightarrow> mmu option" where
  "unset_pte c this p_addr page s = do {
     (v, s) \<leftarrow> map_page p_addr page s;
     (go, s) \<leftarrow> scan (unset_entry c this IS_VALID_PTE_ENTRY v) [0..<PTDL2ENTRIES] s;
     if go then unlock_page page s else Some s }"

definition set_ptd_entry :: "prtos_conf \<Rightarrow> nat \<Rightarrow> u32 \<Rightarrow> nat \<Rightarrow> mmu \<Rightarrow> (bool \<times> mmu) option" where
  "set_ptd_entry c this v e s = do {
     (x, s) \<leftarrow> read_by_pass_mmu_word c (v + 4 * of_nat e) s;
     if \<not> IS_PRESENT x then Some (True, s) else do {
     me \<leftarrow> my_partition this s;
     (r, s) \<leftarrow> find_page c (x AND PAGE_MASK) me s;
     case r of None \<Rightarrow> Some (False, s)
     | Some (q, _) \<Rightarrow>
         if \<not> IS_VALID_PTD_ENTRY (pp_type (page_of_s s q)) then do {
           s \<leftarrow> write_by_pass_mmu_word c (v + 4 * of_nat e) (SET_NOT_PRESENT x) (vmm_audit 4 [x] s);
           Some (True, s) }
         else do { s \<leftarrow> inc_counter q s; Some (True, s) } } }"

definition set_ptd :: "prtos_conf \<Rightarrow> (nat \<Rightarrow> u32) \<Rightarrow> nat \<Rightarrow> u32 \<Rightarrow> page_ref \<Rightarrow> u32 \<Rightarrow> mmu \<Rightarrow> mmu option" where
  "set_ptd c page_tables this p_addr page ty s = do {
     (v, s) \<leftarrow> map_page p_addr page s;
     (go, s) \<leftarrow> scan (set_ptd_entry c this v) [0..<GET_USER_PTD_ENTRIES] s;
     if go then do {
       s \<leftarrow> (if ty = ucast PPAG_PTDL1 then setup_ptd_level_1_table page_tables v s else Some s);
       unlock_page page s }
     else Some s }"

definition set_pte_entry :: "prtos_conf \<Rightarrow> nat \<Rightarrow> u32 \<Rightarrow> nat \<Rightarrow> mmu \<Rightarrow> (bool \<times> mmu) option" where
  "set_pte_entry c this v e s = do {
     (x, s) \<leftarrow> read_by_pass_mmu_word c (v + 4 * of_nat e) s;
     if \<not> IS_PRESENT x then Some (True, s) else do {
     me \<leftarrow> my_partition this s;
     (r, s) \<leftarrow> find_page c (x AND PAGE_MASK) me s;
     (r, s) \<leftarrow> (case r of Some (q, f) \<Rightarrow> Some (Some (Some q, f), s)
       | None \<Rightarrow> do { (f, k) \<leftarrow> phys_mm_find_addr c (x AND PAGE_MASK) me (mkern s);
                     Some (map_option (Pair None) f, s\<lparr>mkern := k\<rparr>) });
     case r of None \<Rightarrow> Some (False, s)
     | Some (q, f) \<Rightarrow> do {
         let x = (if f AND PRTOS_MEM_AREA_READONLY \<noteq> 0 then SET_PTE_RONLY x else x);
         let x = (if f AND PRTOS_MEM_AREA_UNCACHEABLE \<noteq> 0 then SET_PTE_UNCACHED x else x);
         (x, s) \<leftarrow> (case q of None \<Rightarrow> Some (x, s)
           | Some q \<Rightarrow> do {
               let x = (if pp_type (page_of_s s q) \<noteq> PPAG_STD then SET_PTE_RONLY x else x);
               s \<leftarrow> inc_counter q s;
               Some (x, s) });
         s \<leftarrow> write_by_pass_mmu_word c (v + 4 * of_nat e) x s;
         Some (True, s) } } }"

definition set_pte :: "prtos_conf \<Rightarrow> nat \<Rightarrow> u32 \<Rightarrow> page_ref \<Rightarrow> mmu \<Rightarrow> mmu option" where
  "set_pte c this p_addr page s = do {
     (v, s) \<leftarrow> map_page p_addr page s;
     (go, s) \<leftarrow> scan (set_pte_entry c this v) [0..<PTDL2ENTRIES] s;
     if go then unlock_page page s else Some s }"

section \<open>The hypercalls\<close>

definition update_page32_sys :: "prtos_conf \<Rightarrow> u32 \<Rightarrow> nat \<Rightarrow> u32 \<Rightarrow> u32 \<Rightarrow> mmu \<Rightarrow> (int \<times> mmu) option" where
  "update_page32_sys c junk this p_addr val s =
     (if p_addr AND 3 \<noteq> 0 then Some (PRTOS_INVALID_PARAM, s) else do {
     me \<leftarrow> my_partition this s;
     (r, s) \<leftarrow> find_page c p_addr me s;
     case r of None \<Rightarrow> Some (PRTOS_INVALID_PARAM, s) | Some (page, _) \<Rightarrow> do {
     let ty = pp_type (page_of_s s page);
     (r, val, s) \<leftarrow> (if ty = PPAG_PTDL1 then update_ptd c this page p_addr val s
        else if ty = PPAG_PTDL2 then update_pte c junk this page p_addr val s
        else Some (0, val, s));
     if r < 0 then Some (PRTOS_INVALID_PARAM, s) else do {
     (v, s) \<leftarrow> map_page p_addr page s;
     s \<leftarrow> write_by_pass_mmu_word c v val s;
     s \<leftarrow> unlock_page page s;
     Some (PRTOS_OK, s) } } })"

definition set_page_type_sys :: "prtos_conf \<Rightarrow> (nat \<Rightarrow> u32) \<Rightarrow> nat \<Rightarrow> u32 \<Rightarrow> u32 \<Rightarrow> mmu \<Rightarrow> (int \<times> mmu) option" where
  "set_page_type_sys c page_tables this p_addr ty s =
     (if ty \<ge> NR_PPAG then Some (PRTOS_INVALID_PARAM, s) else do {
     me \<leftarrow> my_partition this s;
     (r, s) \<leftarrow> find_page c p_addr me s;
     case r of None \<Rightarrow> Some (PRTOS_INVALID_PARAM, s) | Some (page, _) \<Rightarrow>
     let old = pp_type (page_of_s s page) in
     if ty = ucast old then Some (PRTOS_NO_ACTION, s)
     else if pp_counter (page_of_s s page) \<noteq> 0
     then Some (PRTOS_OP_NOT_ALLOWED, vmm_audit 3 [p_addr, ucast (pp_counter (page_of_s s page))] s)
     else do {
       s \<leftarrow> (if old = PPAG_PTDL1 then unset_ptd c this p_addr page s
            else if old = PPAG_PTDL2 then unset_pte c this p_addr page s else Some s);
       s \<leftarrow> (if ty = ucast PPAG_PTDL1 then set_ptd c page_tables this p_addr page ty s
            else if ty = ucast PPAG_PTDL2 then set_pte c this p_addr page s else Some s);
       Some (PRTOS_OK, set_type page (ucast ty) s) } })"

section \<open>The value of an entry\<close>

lemma bit_clear_if: "bit (if b then x AND NOT y else x) n \<longleftrightarrow> bit (x :: u32) n \<and> \<not> (b \<and> bit y n)"
  using bit_imp_le_length [of x n] by (auto simp: bit_and_iff bit_not_iff)

text \<open>The attributes stored, without the right to write where the area, the control table or the
  type of the page forbid it.\<close>

lemma pte_attr:
  obtains attr where "pte_value val af ty pct = (val AND PG_ARCH_ADDR) OR vm_attr_to_arch_attr attr"
    "\<And>n. bit attr n \<longleftrightarrow> bit (vm_arch_attr_to_attr val) n \<and> \<not> (af AND PRTOS_MEM_AREA_READONLY \<noteq> 0 \<and> n = 18) \<and>
       \<not> (af AND PRTOS_MEM_AREA_UNCACHEABLE \<noteq> 0 \<and> n = 19) \<and>
       \<not> ((case ty of Some ty \<Rightarrow> ty \<noteq> PPAG_STD | None \<Rightarrow> pct) \<and> n = 18)"
proof -
  have c: "(case ty of None \<Rightarrow> if pct then x AND NOT PG_ATTR_RW else x
      | Some ty \<Rightarrow> if ty \<noteq> PPAG_STD then x AND NOT PG_ATTR_RW else x) =
    (if (case ty of Some ty \<Rightarrow> ty \<noteq> PPAG_STD | None \<Rightarrow> pct) then x AND NOT PG_ATTR_RW else x)" for x
    by (cases ty) simp_all
  show thesis
    by (rule that, unfold pte_value_def Let_def c, rule refl)
      (auto simp only: bit_clear_if arch_flags bit_bit32 split: option.splits)
qed

lemma pte_value_page: "pte_value val af ty pct AND PAGE_MASK = val AND PAGE_MASK"
proof -
  obtain attr where v: "pte_value val af ty pct = (val AND PG_ARCH_ADDR) OR vm_attr_to_arch_attr attr"
    and a: "\<And>n. bit attr n \<Longrightarrow> bit (vm_arch_attr_to_attr val) n"
    using pte_attr [of val af ty pct] by metis
  have z: "vm_attr_to_arch_attr attr AND PAGE_MASK = 0"
  proof (rule bit_word_eqI)
    fix n
    have "12 \<le> n \<Longrightarrow> n < 16 \<Longrightarrow> \<not> bit attr n" using a [of n] by (auto simp: bit_arch_to_attr)
    then show "bit (vm_attr_to_arch_attr attr AND PAGE_MASK) n = bit (0 :: u32) n"
      unfolding PAGE_MASK_def low_bits by (auto simp: bit_attr_to_arch bit_and_iff bit_not_iff bit_mask_iff not_le)
  qed
  have "PG_ARCH_ADDR = PAGE_MASK" by (simp add: PG_ARCH_ADDR_def PAGE_MASK_def)
  then show ?thesis unfolding v by (simp add: word_ao_dist z and.assoc)
qed

lemma pte_value_flags:
  "bit (pte_value val af ty pct) 0 = bit val 0"
  "bit (pte_value val af ty pct) 1 \<longleftrightarrow> bit val 1 \<and> af AND PRTOS_MEM_AREA_READONLY = 0 \<and>
     (case ty of Some ty \<Rightarrow> ty = PPAG_STD | None \<Rightarrow> \<not> pct)"
proof -
  obtain attr where v: "pte_value val af ty pct = (val AND PG_ARCH_ADDR) OR vm_attr_to_arch_attr attr"
    and a: "\<And>n. bit attr n \<longleftrightarrow> bit (vm_arch_attr_to_attr val) n \<and> \<not> (af AND PRTOS_MEM_AREA_READONLY \<noteq> 0 \<and> n = 18) \<and>
       \<not> (af AND PRTOS_MEM_AREA_UNCACHEABLE \<noteq> 0 \<and> n = 19) \<and>
       \<not> ((case ty of Some ty \<Rightarrow> ty \<noteq> PPAG_STD | None \<Rightarrow> pct) \<and> n = 18)"
    using pte_attr [of val af ty pct] by metis
  have low: "\<not> bit (val AND PG_ARCH_ADDR) n" if "n < 12" for n
    using that unfolding PG_ARCH_ADDR_def low_bits by (auto simp: bit_and_iff bit_not_iff bit_mask_iff)
  show "bit (pte_value val af ty pct) 0 = bit val 0"
    unfolding v bit_or_iff bit_attr_to_arch a using low [of 0] by (simp add: attr_flags bit_arch_to_attr)
  show "bit (pte_value val af ty pct) 1 \<longleftrightarrow> bit val 1 \<and> af AND PRTOS_MEM_AREA_READONLY = 0 \<and>
     (case ty of Some ty \<Rightarrow> ty = PPAG_STD | None \<Rightarrow> \<not> pct)"
    unfolding v bit_or_iff bit_attr_to_arch a using low [of 1]
    by (cases ty) (simp_all add: attr_flags bit_arch_to_attr)
qed

section \<open>What a step of a hypercall keeps\<close>

definition mmu_inv :: "prtos_conf \<Rightarrow> mmu \<Rightarrow> bool" where
  "mmu_inv c s \<longleftrightarrow> (\<exists>lru. mmu_ok c s lru)"

definition keeps :: "mmu \<Rightarrow> mmu \<Rightarrow> bool" where
  "keeps s s' \<longleftrightarrow> pmem s' = pmem s \<and> (\<forall>q. pp_type (page_of_s s' q) = pp_type (page_of_s s q)) \<and>
     cpus (mkern s') = cpus (mkern s) \<and> kthreads (mkern s') = kthreads (mkern s)"

lemma keeps_refl [simp]: "keeps s s"
  by (simp add: keeps_def)

lemma keeps_trans: "keeps s s1 \<Longrightarrow> keeps s1 s2 \<Longrightarrow> keeps s s2"
  by (simp add: keeps_def)

lemma raise_audit_keeps [simp]:
  "cpus (raise_audit_event m e a k) = cpus k" "kthreads (raise_audit_event m e a k) = kthreads k"
  by (simp_all add: raise_audit_event_def)

lemma find_page_keeps:
  assumes "find_page c a p s = Some (r, s')"
  shows "keeps s s'" "mmu_inv c s' = mmu_inv c s"
proof -
  show "keeps s s'" using assms
    by (auto simp: find_page_def pmm_find_page_def bind_eq_Some_iff Let_def keeps_def page_of_s_def split: option.splits if_splits)
  show "mmu_inv c s' = mmu_inv c s" using find_page_ok(1) [OF assms] by (simp add: mmu_inv_def)
qed

lemma dec_counter_ok: "dec_counter q s = Some s' \<Longrightarrow> mmu_ok c s lru \<Longrightarrow> mmu_ok c s' lru"
  by (auto simp: mmu_ok_def dec_counter_def phys_page_dec_counter_def bind_eq_Some_iff Let_def
      vcache_ok_def frames_aligned_def window_def split: if_splits)

lemma inc_dec_keeps:
  "inc_counter q s = Some s' \<Longrightarrow> keeps s s' \<and> (mmu_inv c s \<longrightarrow> mmu_inv c s')"
  "dec_counter q s = Some s' \<Longrightarrow> keeps s s' \<and> (mmu_inv c s \<longrightarrow> mmu_inv c s')"
proof -
  assume r: "inc_counter q s = Some s'"
  then have "keeps s s'"
    by (auto simp: keeps_def inc_counter_def phys_page_inc_counter_def bind_eq_Some_iff Let_def page_of_s_def split: if_splits)
  with mmu_ok_counts(2) [OF _ r] show "keeps s s' \<and> (mmu_inv c s \<longrightarrow> mmu_inv c s')" unfolding mmu_inv_def by blast
next
  assume r: "dec_counter q s = Some s'"
  then have "keeps s s'"
    by (auto simp: keeps_def dec_counter_def phys_page_dec_counter_def bind_eq_Some_iff Let_def page_of_s_def split: if_splits)
  with dec_counter_ok [OF r] show "keeps s s' \<and> (mmu_inv c s \<longrightarrow> mmu_inv c s')" unfolding mmu_inv_def by blast
qed

lemma unlock_keeps:
  assumes "unlock_page q s = Some s'"
  shows "keeps s s' \<and> (mmu_inv c s \<longrightarrow> mmu_inv c s')"
  using unlock_page_kept [OF assms] unlock_page_ok [OF _ assms] by (auto simp: keeps_def mmu_inv_def)

lemma map_keeps:
  assumes "map_page a q s = Some (v, s')" "a AND PAGE_MASK = page_addr c q"
  shows "keeps s s' \<and> (mmu_inv c s \<longrightarrow> mmu_inv c s')"
  using map_page_kept [OF assms(1)] map_page_ok [OF _ assms(2,1)] by (auto simp: keeps_def mmu_inv_def)

text \<open>The word at an address of a page that was just mapped.\<close>

lemma mapped_word:
  assumes inv: "mmu_inv c s" and a: "a AND PAGE_MASK = page_addr c page" and m: "map_page a page s = Some (v, s1)"
  shows "write_by_pass_mmu_word c v x s1 = Some (s1\<lparr>pmem := store_word a x (pmem s)\<rparr>)"
    "read_by_pass_mmu_word c v s1 = Some (load_word (pmem s) a, s1)"
proof -
  obtain lru where ok: "mmu_ok c s lru" using inv by (auto simp: mmu_inv_def)
  obtain v0 where v: "v = v0 + (a AND (PAGE_SIZE - 1))" "v0 AND 0xfff = 0" "window (mm s1) v0 = Some (page_addr c page)"
    "CONFIG_PRTOS_OFFSET < v0" using map_page_ok [OF ok a m] by auto
  have off: "(a AND (PAGE_SIZE - 1)) AND NOT 0xfff = 0" by (simp add: PAGE_SIZE_def and.assoc)
  have vp: "v AND PAGE_MASK = v0" "v AND (PAGE_SIZE - 1) = a AND (PAGE_SIZE - 1)"
    using page_offset [OF v(2) off] v(1) by simp_all
  have "v = v0 OR (a AND (PAGE_SIZE - 1))"
    using v(1) plus_or_disjoint [of v0 "a AND (PAGE_SIZE - 1)"] v(2) by (simp add: PAGE_SIZE_def ac_simps)
  then have "v0 \<le> v" by (metis le_word_or2 or.commute)
  with v(4) have hi: "v > CONFIG_PRTOS_OFFSET" by (rule order.strict_trans2)
  show "write_by_pass_mmu_word c v x s1 = Some (s1\<lparr>pmem := store_word a x (pmem s)\<rparr>)"
    using hi v(3) vp a page_split [of a] map_page_kept(1) [OF m] by (simp add: write_by_pass_mmu_word_def vwrite_def)
  show "read_by_pass_mmu_word c v s1 = Some (load_word (pmem s) a, s1)"
    using hi v(3) vp a page_split [of a] map_page_kept(1) [OF m] by (simp add: read_by_pass_mmu_word_def vread_def)
qed

section \<open>What an entry may refer to\<close>

text \<open>Area \<open>i\<close> of a partition holds an address; the page of an address in it, when the region is managed.\<close>

definition area_holds :: "prtos_conf \<Rightarrow> nat \<Rightarrow> int \<Rightarrow> u32 \<Rightarrow> bool" where
  "area_holds c p i a \<longleftrightarrow> 0 \<le> i \<and> i < nr_areas c p \<and> fst (area_bounds c p i) \<le> a \<and> a \<le> snd (area_bounds c p i)"

definition managed_page :: "prtos_conf \<Rightarrow> nat \<Rightarrow> int \<Rightarrow> u32 \<Rightarrow> page_ref option" where
  "managed_page c p i a = (let r = unat (memory_region_offset (part_area c p i)) in
     if region_flags (memory_region_table c r) AND PRTOSC_REG_FLAG_PGTAB = 0 then None else Some (page_in_region c r a))"

definition area_of :: "prtos_conf \<Rightarrow> nat \<Rightarrow> u32 \<Rightarrow> int option" where
  "area_of c p a = area_search (area_bounds c p) a a 0 (num_of_physical_memory_areas (partition_cfg c p) - 1)"

lemma area_of_holds: "area_of c p a = Some i \<Longrightarrow> area_holds c p i a"
  unfolding area_of_def by (drule area_search_Some) (simp add: area_holds_def nr_areas_def)

text \<open>An entry for the page at \<open>a\<close>, writable if \<open>rw\<close>, is within the rights of the partition: the page
  lies in one of its areas, and is writable only if neither the area nor the type of the page forbids
  it, or it is a page of its control table, which is read-only.\<close>

definition may_map :: "prtos_conf \<Rightarrow> nat \<Rightarrow> guest \<Rightarrow> mmu \<Rightarrow> u32 \<Rightarrow> bool \<Rightarrow> bool" where
  "may_map c p g s a rw \<longleftrightarrow>
     (\<exists>i. area_holds c p i a \<and> (rw \<longrightarrow> area_flags (part_area c p i) AND PRTOS_MEM_AREA_READONLY = 0 \<and>
        (case managed_page c p i a of Some q \<Rightarrow> pp_type (page_of_s s q) = PPAG_STD | None \<Rightarrow> True))) \<or>
     is_ptr_in_ctrl_table_page a g \<and> \<not> rw"

lemma find_page_area:
  assumes "find_page c a p s = Some (r, s')" "a AND PAGE_MASK = a"
  shows "r = (case area_of c p a of None \<Rightarrow> None | Some i \<Rightarrow> map_option (\<lambda>q. (q, area_flags (part_area c p i))) (managed_page c p i a))"
  using assms by (auto simp: find_page_def pmm_find_page_def bind_eq_Some_iff Let_def area_of_def managed_page_def split: option.splits if_splits)

lemma find_addr_area:
  assumes "phys_mm_find_addr c a p k = Some (r, k')" "a AND PAGE_MASK = a"
  shows "r = map_option (\<lambda>i. area_flags (part_area c p i)) (area_of c p a) \<and> cpus k' = cpus k \<and> kthreads k' = kthreads k"
  using assms by (auto simp: phys_mm_find_addr_def bind_eq_Some_iff Let_def area_of_def split: option.splits if_splits)

lemma entry_target_keeps:
  assumes r: "entry_target c junk g p a s = Some (t, s')" and a: "a AND PAGE_MASK = a"
  shows "keeps s s' \<and> mmu_inv c s' = mmu_inv c s"
proof -
  obtain f s1 where f: "find_page c a p s = Some (f, s1)" using r by (auto simp: entry_target_def bind_eq_Some_iff)
  have "keeps s1 s' \<and> mmu_inv c s' = mmu_inv c s1"
    using r f find_addr_area [OF _ a] by (auto simp: entry_target_def bind_eq_Some_iff keeps_def page_of_s_def mmu_inv_def split: option.splits if_splits)
  with find_page_keeps [OF f] show ?thesis using keeps_trans by metis
qed

lemma entry_target_may_map:
  assumes r: "entry_target c junk g p a s = Some (Some (q, f, pct), s')" and a: "a AND PAGE_MASK = a"
    and rw: "rw \<longrightarrow> f AND PRTOS_MEM_AREA_READONLY = 0 \<and> (case q of Some q \<Rightarrow> pp_type (page_of_s s0 q) = PPAG_STD | None \<Rightarrow> \<not> pct)"
  shows "may_map c p g s0 a rw"
proof -
  obtain r1 s1 where f: "find_page c a p s = Some (r1, s1)" using r by (auto simp: entry_target_def bind_eq_Some_iff)
  note F = find_page_area [OF f a]
  show ?thesis
  proof (cases "area_of c p a")
    case None
    then have "pct" "q = None" "is_ptr_in_ctrl_table_page a g"
      using r f F by (auto simp: entry_target_def bind_eq_Some_iff dest: find_addr_area [OF _ a] split: if_splits)
    then show ?thesis using rw by (auto simp: may_map_def)
  next
    case (Some i)
    note h = area_of_holds [OF Some]
    show ?thesis
    proof (cases "managed_page c p i a")
      case None
      then have "q = None" "pct \<and> is_ptr_in_ctrl_table_page a g \<or> \<not> pct \<and> f = area_flags (part_area c p i)"
        using r f F Some
        by (auto simp: entry_target_def bind_eq_Some_iff dest: find_addr_area [OF _ a] split: if_splits)
      then show ?thesis using None h rw unfolding may_map_def by (cases pct) (auto intro: exI [of _ i])
    next
      case (Some q')
      then have "q = Some q'" "\<not> pct" "f = area_flags (part_area c p i)"
        using r f F \<open>area_of c p a = Some i\<close> by (auto simp: entry_target_def bind_eq_Some_iff)
      then show ?thesis using Some h rw unfolding may_map_def by (auto intro: exI [of _ i])
    qed
  qed
qed

lemma keeps_thread:
  assumes "keeps s s'"
  shows "my_partition this s' = my_partition this s" "current_kthread (cpus (mkern s') this) = current_kthread (cpus (mkern s) this)"
    "guest_of (mkern s') k = guest_of (mkern s) k" "pp_type (page_of_s s' q) = pp_type (page_of_s s q)" "pmem s' = pmem s"
  using assms by (simp_all add: keeps_def my_partition_def Kthread.get_partition_def guest_of_def)

lemma take_new_keeps:
  assumes r: "take_new c junk g p val s = Some (new, s')" and inv: "mmu_inv c s"
  shows "mmu_inv c s' \<and> keeps s s'"
    "new = Some x \<Longrightarrow> (if IS_PRESENT val
     then \<exists>q f pct s1. entry_target c junk g p (val AND PAGE_MASK) s = Some (Some (q, f, pct), s1) \<and>
       x = pte_value val f (map_option (\<lambda>q. pp_type (page_of_s s q)) q) pct
     else x = val)"
proof -
  have pm: "(val AND PAGE_MASK) AND PAGE_MASK = val AND PAGE_MASK" by (simp add: and.assoc)
  have "mmu_inv c s' \<and> keeps s s' \<and> (new = Some x \<longrightarrow> (if IS_PRESENT val
     then \<exists>q f pct s1. entry_target c junk g p (val AND PAGE_MASK) s = Some (Some (q, f, pct), s1) \<and>
       x = pte_value val f (map_option (\<lambda>q. pp_type (page_of_s s q)) q) pct
     else x = val))" (is "?P s'")
  proof (cases "IS_PRESENT val")
    case True
    then obtain t s1 where et: "entry_target c junk g p (val AND PAGE_MASK) s = Some (t, s1)"
      using r by (auto simp: take_new_def bind_eq_Some_iff)
    have K: "keeps s s1" "mmu_inv c s1" using entry_target_keeps [OF et pm] inv by simp_all
    show ?thesis
    proof (cases t)
      case None
      then show ?thesis using r et K True by (simp add: take_new_def)
    next
      case (Some tt)
      obtain q f pct where tt: "tt = (q, f, pct)" by (cases tt)
      have i: "(case q of Some q \<Rightarrow> inc_counter q s1 | None \<Rightarrow> Some s1) = Some s'"
        "new = Some (pte_value val f (map_option (\<lambda>q. pp_type (page_of_s s1 q)) q) pct)"
        using r et True Some tt by (auto simp: take_new_def bind_eq_Some_iff Let_def)
      have "keeps s1 s' \<and> mmu_inv c s'" using i(1) inc_dec_keeps(1) K(2) by (cases q) auto
      moreover have "(\<lambda>q. pp_type (page_of_s s1 q)) = (\<lambda>q. pp_type (page_of_s s q))" using keeps_thread(4) [OF K(1)] by simp
      ultimately show ?thesis using True Some tt et i(2) K keeps_trans by auto
    qed
  qed (use r inv in \<open>auto simp: take_new_def\<close>)
  then show "mmu_inv c s' \<and> keeps s s'"
    "new = Some x \<Longrightarrow> (if IS_PRESENT val
     then \<exists>q f pct s1. entry_target c junk g p (val AND PAGE_MASK) s = Some (Some (q, f, pct), s1) \<and>
       x = pte_value val f (map_option (\<lambda>q. pp_type (page_of_s s q)) q) pct
     else x = val)" by blast+
qed

lemma drop_old_keeps:
  assumes r: "drop_old c junk g p old s = Some (ok, s')" and inv: "mmu_inv c s"
  shows "mmu_inv c s' \<and> keeps s s'"
proof (cases "IS_PRESENT old")
  case True
  then obtain t s1 where et: "entry_target c junk g p (old AND PAGE_MASK) s = Some (t, s1)"
    using r by (auto simp: drop_old_def bind_eq_Some_iff)
  have K: "keeps s s1" "mmu_inv c s1" using entry_target_keeps [OF et] inv by (simp_all add: and.assoc)
  have "s' = s1 \<or> (\<exists>q. dec_counter q s1 = Some s')"
    using r et True by (auto simp: drop_old_def bind_eq_Some_iff split: option.splits)
  then have "keeps s1 s' \<and> mmu_inv c s'" using inc_dec_keeps(2) K(2) by auto
  with K show ?thesis using keeps_trans by blast
qed (use r inv in \<open>auto simp: drop_old_def\<close>)

lemma update_pte_result:
  assumes inv: "mmu_inv c s" and a: "p_addr AND PAGE_MASK = page_addr c page" and me: "my_partition this s = Some p"
    and g: "guest_of (mkern s) (current_kthread (cpus (mkern s) this)) = Some g"
    and r: "update_pte c junk this page p_addr val s = Some (r, val', s')" "0 \<le> r"
  shows "mmu_inv c s' \<and> keeps s s' \<and> (if IS_PRESENT val
    then \<exists>q f pct s1 s2. entry_target c junk g p (val AND PAGE_MASK) s1 = Some (Some (q, f, pct), s2) \<and>
      val' = pte_value val f (map_option (\<lambda>q. pp_type (page_of_s s q)) q) pct
    else val' = val)"
proof -
  obtain v s1 where m: "map_page p_addr page s = Some (v, s1)" using r by (auto simp: update_pte_def bind_eq_Some_iff)
  note rd = mapped_word(2) [OF inv a m]
  obtain s2 where u: "unlock_page page s1 = Some s2" using r m rd by (auto simp: update_pte_def bind_eq_Some_iff)
  have K2: "keeps s s2" "mmu_inv c s2" using map_keeps [OF m a] unlock_keeps [OF u] inv keeps_trans by blast+
  note T2 = keeps_thread [OF K2(1)]
  obtain s3 ok where t: "take_new c junk g p val s2 = Some (Some val', s3)" and d: "drop_old c junk g p (load_word (pmem s) p_addr) s3 = Some (ok, s')"
    using r m rd u me g T2 by (auto simp: update_pte_def bind_eq_Some_iff return_codes split: option.splits)
  have K3: "mmu_inv c s3 \<and> keeps s2 s3" by (rule take_new_keeps(1) [OF t K2(2)])
  have D: "mmu_inv c s' \<and> keeps s3 s'" using drop_old_keeps [OF d] K3 by blast
  have "keeps s s'" using keeps_trans [OF keeps_trans [OF K2(1)]] K3 D by blast
  moreover have "(\<lambda>q. pp_type (page_of_s s2 q)) = (\<lambda>q. pp_type (page_of_s s q))" using T2(4) by simp
  note take_new_keeps(2) [OF t K2(2) refl, unfolded this]
  ultimately show ?thesis using D by (cases "IS_PRESENT val") (simp_all only: if_True if_False simp_thms, blast)
qed

text \<open>C9. What a guest can put into its page tables: when the hypercall accepts a word for a page of the
  type page table, that word of memory and no other is changed, and a present entry keeps the page
  the guest asked for, which lies in one of its own areas or in its control table, and is writable
  only if the area is not read-only and the page is neither a page table nor the control table.\<close>

theorem update_page32_sys_confined:
  assumes inv: "mmu_inv c s" and me: "my_partition this s = Some p"
    and g: "guest_of (mkern s) (current_kthread (cpus (mkern s) this)) = Some g"
    and find: "find_page c p_addr p s = Some (Some (page, f0), s0)" and ty: "pp_type (page_of_s s page) = PPAG_PTDL2"
    and run: "update_page32_sys c junk this p_addr val s = Some (PRTOS_OK, s')"
  shows "\<exists>new. pmem s' = store_word p_addr new (pmem s) \<and>
    (if IS_PRESENT val
     then new AND PAGE_MASK = val AND PAGE_MASK \<and> may_map c p g s (val AND PAGE_MASK) (new AND PG_ARCH_RW \<noteq> 0)
     else new = val)"
proof -
  have a: "p_addr AND PAGE_MASK = page_addr c page"
    using find_page_addr [OF _ find] inv by (auto simp: mmu_inv_def mmu_ok_def)
  have K0: "keeps s s0" "mmu_inv c s0" using find_page_keeps [OF find] inv by simp_all
  note T0 = keeps_thread [OF K0(1)]
  obtain r new s1 v s2 s3 where up: "update_pte c junk this page p_addr val s0 = Some (r, new, s1)" "0 \<le> r"
    and m: "map_page p_addr page s1 = Some (v, s2)" and w: "write_by_pass_mmu_word c v new s2 = Some s3"
    and u: "unlock_page page s3 = Some s'"
    using run me find ty T0(4) by (auto simp: update_page32_sys_def bind_eq_Some_iff Let_def return_codes PPAG_PTDL1_def PPAG_PTDL2_def split: if_splits)
  have U: "mmu_inv c s1" "keeps s0 s1" "if IS_PRESENT val
    then \<exists>q f pct s1 s2. entry_target c junk g p (val AND PAGE_MASK) s1 = Some (Some (q, f, pct), s2) \<and>
      new = pte_value val f (map_option (\<lambda>q. pp_type (page_of_s s0 q)) q) pct
    else new = val"
    using update_pte_result [OF K0(2) a _ _ up, of p g] me g T0 by auto
  have "pmem s1 = pmem s" using U(2) K0(1) by (simp add: keeps_def)
  then have mem: "pmem s' = store_word p_addr new (pmem s)"
    using mapped_word(1) [OF U(1) a m] w unlock_page_kept(1) [OF u] by auto
  have "new AND PAGE_MASK = val AND PAGE_MASK \<and> may_map c p g s (val AND PAGE_MASK) (new AND PG_ARCH_RW \<noteq> 0)" if pr: "IS_PRESENT val"
  proof -
    obtain q f pct s4 s5 where et: "entry_target c junk g p (val AND PAGE_MASK) s4 = Some (Some (q, f, pct), s5)"
      and new: "new = pte_value val f (map_option (\<lambda>q. pp_type (page_of_s s0 q)) q) pct" using U(3) pr by auto
    have "new AND PG_ARCH_RW \<noteq> 0 \<longleftrightarrow> bit new 1" by (simp add: arch_flags word_and_bit32_eq_0)
    then have "new AND PG_ARCH_RW \<noteq> 0 \<longrightarrow> f AND PRTOS_MEM_AREA_READONLY = 0 \<and>
        (case q of Some q \<Rightarrow> pp_type (page_of_s s q) = PPAG_STD | None \<Rightarrow> \<not> pct)"
      unfolding new using pte_value_flags(2) T0(4) by (auto split: option.splits)
    from entry_target_may_map [OF et _ this] show ?thesis unfolding new by (simp add: pte_value_page and.assoc)
  qed
  with mem U(3) show ?thesis by (intro exI [of _ new]) auto
qed

lemma demo_inv: "mmu_inv demo_pg_conf demo_mmu"
  using demo_mmu_ok by (auto simp: mmu_inv_def)

lemma demo_thread_mmu: "my_partition 0 demo_mmu = Some 0" "current_kthread (cpus (mkern demo_mmu) 0) = KGuest 0 0"
  "guest_of (mkern demo_mmu) (KGuest 0 0) = Some (demo_guest 0 0)"
proof -
  show "my_partition 0 demo_mmu = Some 0" by code_simp
qed (simp_all add: demo_mmu_def demo_state_def guest_of_def demo_thread_def)

lemma demo_find: "find_page demo_pg_conf 0x6001014 0 demo_mmu = Some (Some (Page 0 1, 0), demo_mmu)"
proof -
  have "area_search (area_bounds demo_pg_conf 0) 0x6001000 0x6001000 0 0 = Some 0"
    "assert_in (area_bounds demo_pg_conf 0 0) 0x6001000 0x6001fff = Some ()"
    "num_of_physical_memory_areas (partition_cfg demo_pg_conf 0) = 1" "area_flags (part_area demo_pg_conf 0 0) = 0"
    "memory_region_offset (part_area demo_pg_conf 0 0) = 0" "page_in_region demo_pg_conf 0 0x6001000 = Page 0 1"
    "region_flags (memory_region_table demo_pg_conf 0) = 1"
    by code_simp+
  then show ?thesis
    by (simp add: find_page_def pmm_find_page_def PAGE_MASK_def PAGE_SIZE_def PRTOSC_REG_FLAG_PGTAB_def Let_def)
qed

lemma demo_update: "case update_page32_sys demo_pg_conf 0 0 0x6001014 0x6005007 demo_mmu of Some (r, _) \<Rightarrow> r = 0 | None \<Rightarrow> False"
  by code_simp

theorem update_page32_sys_confined_witness:
  "\<exists>s' new. update_page32_sys demo_pg_conf 0 0 0x6001014 0x6005007 demo_mmu = Some (0, s') \<and>
    pmem s' = store_word 0x6001014 new (pmem demo_mmu) \<and> new AND PAGE_MASK = 0x6005000 \<and>
    may_map demo_pg_conf 0 (demo_guest 0 0) demo_mmu 0x6005000 (new AND PG_ARCH_RW \<noteq> 0)"
proof -
  obtain s' where run: "update_page32_sys demo_pg_conf 0 0 0x6001014 0x6005007 demo_mmu = Some (PRTOS_OK, s')"
    using demo_update by (auto simp: PRTOS_OK_def split: option.splits)
  have "pp_type (page_of_s demo_mmu (Page 0 1)) = PPAG_PTDL2" by (simp add: page_of_s_def demo_mmu_def)
  from update_page32_sys_confined [OF demo_inv demo_thread_mmu(1) _ demo_find this run] demo_thread_mmu
  show ?thesis using run by (simp add: PRTOS_OK_def IS_PRESENT_def PG_ARCH_PRESENT_def PAGE_MASK_def)
qed

section \<open>Accesses the hypercalls let through\<close>

lemma unlock_mapped:
  assumes inv: "mmu_inv c s" and p: "pp_mapped (page_of_s s page)"
  shows "\<exists>s'. unlock_page page s = Some s' \<and> keeps s s' \<and> mmu_inv c s'"
proof -
  obtain lru where "vcache_ok (page_addr c) (mm s) lru" using inv by (auto simp: mmu_inv_def mmu_ok_def)
  from unlock_page_works [OF this] p obtain m where "vcache_unlock_page page (mm s) = Some m" by (auto simp: page_of_s_def)
  then have u: "unlock_page page s = Some (s\<lparr>mm := m\<rparr>)" by (simp add: unlock_page_def)
  with unlock_keeps [OF u] inv show ?thesis by blast
qed

lemma mapped_after:
  assumes "mmu_inv c s" "a AND PAGE_MASK = page_addr c page" "map_page a page s = Some (v, s1)"
  shows "pp_mapped (page_of_s s1 page)" "mmu_inv c s1"
  using assms map_page_ok [OF _ assms(2,3)] by (auto simp: mmu_inv_def)

lemma mapped_store:
  assumes inv: "mmu_inv c s" and a: "a AND PAGE_MASK = page_addr c page" and m: "map_page a page s = Some (v, s1)"
  shows "\<exists>s2. (write_by_pass_mmu_word c v x s1 \<bind> unlock_page page) = Some s2 \<and> pmem s2 = store_word a x (pmem s)"
proof -
  let ?s = "s1\<lparr>pmem := store_word a x (pmem s)\<rparr>"
  have "mmu_inv c ?s" "pp_mapped (page_of_s ?s page)" using mapped_after [OF inv a m] by (simp_all add: mmu_inv_def page_of_s_def)
  from unlock_mapped [OF this] mapped_word(1) [OF inv a m] show ?thesis by (auto simp: keeps_def)
qed

text \<open>A page that is not a page table is written without a look at the rights of the partition: the
  hypercall stores the word a guest asks for in a page of an area that is read-only for it.\<close>

theorem update_page32_sys_writes_readonly:
  assumes inv: "mmu_inv c s" and me: "my_partition this s = Some p" and p: "p_addr AND 3 = 0"
    and find: "find_page c p_addr p s = Some (Some (page, f), s0)" and ro: "f AND PRTOS_MEM_AREA_READONLY \<noteq> 0"
    and ty: "pp_type (page_of_s s page) = PPAG_STD" and map: "map_page p_addr page s0 = Some (v, s1)"
  shows "\<exists>s'. update_page32_sys c junk this p_addr val s = Some (PRTOS_OK, s') \<and> pmem s' = store_word p_addr val (pmem s)"
proof -
  have a: "p_addr AND PAGE_MASK = page_addr c page"
    using find_page_addr [OF _ find] inv by (auto simp: mmu_inv_def mmu_ok_def)
  have K: "keeps s s0" "mmu_inv c s0" using find_page_keeps [OF find] inv by simp_all
  note T = keeps_thread [OF K(1)]
  obtain s2 where "(write_by_pass_mmu_word c v val s1 \<bind> unlock_page page) = Some s2" "pmem s2 = store_word p_addr val (pmem s0)"
    using mapped_store [OF K(2) a map] by blast
  then show ?thesis using p me find ty map T
    by (auto simp: update_page32_sys_def bind_eq_Some_iff Let_def PPAG_STD_def PPAG_PTDL1_def PPAG_PTDL2_def)
qed

definition demo_ro_conf :: prtos_conf where
  "demo_ro_conf = demo_pg_conf\<lparr>phys_mem_area_table := (\<lambda>_. \<lparr>area_start_addr = 0x6000000, area_mapped_at = 0x6000000,
     area_size = 0x100000, area_flags = PRTOS_MEM_AREA_READONLY, memory_region_offset = 0\<rparr>)\<rparr>"

lemma demo_ro_find: "find_page demo_ro_conf 0x6005010 0 demo_mmu = Some (Some (Page 0 5, 4), demo_mmu)"
proof -
  have "area_search (area_bounds demo_ro_conf 0) 0x6005000 0x6005000 0 0 = Some 0"
    "assert_in (area_bounds demo_ro_conf 0 0) 0x6005000 0x6005fff = Some ()"
    "num_of_physical_memory_areas (partition_cfg demo_ro_conf 0) = 1" "area_flags (part_area demo_ro_conf 0 0) = 4"
    "memory_region_offset (part_area demo_ro_conf 0 0) = 0" "page_in_region demo_ro_conf 0 0x6005000 = Page 0 5"
    "region_flags (memory_region_table demo_ro_conf 0) = 1"
    by code_simp+
  then show ?thesis
    by (simp add: find_page_def pmm_find_page_def PAGE_MASK_def PAGE_SIZE_def PRTOSC_REG_FLAG_PGTAB_def Let_def)
qed

lemma demo_ro_inv: "mmu_inv demo_ro_conf demo_mmu"
proof -
  have "page_addr demo_ro_conf = page_addr demo_pg_conf" "regions_aligned demo_ro_conf = regions_aligned demo_pg_conf"
    by (simp_all add: fun_eq_iff page_addr_def demo_ro_conf_def regions_aligned_def)
  then show ?thesis using demo_inv by (simp add: mmu_inv_def mmu_ok_def)
qed

lemma demo_ro_map: "map_option fst (map_page 0x6005010 (Page 0 5) demo_mmu) = Some 0xFD001010"
  by code_simp

theorem update_page32_sys_writes_readonly_witness:
  "\<exists>s'. update_page32_sys demo_ro_conf 0 0 0x6005010 0xDEADBEEF demo_mmu = Some (PRTOS_OK, s') \<and>
    pmem s' = store_word 0x6005010 0xDEADBEEF (pmem demo_mmu)"
proof -
  obtain v s1 where m: "map_page 0x6005010 (Page 0 5) demo_mmu = Some (v, s1)" using demo_ro_map by auto
  have "pp_type (page_of_s demo_mmu (Page 0 5)) = PPAG_STD" by (simp add: page_of_s_def demo_mmu_def)
  from update_page32_sys_writes_readonly [OF demo_ro_inv demo_thread_mmu(1) _ demo_ro_find _ this m]
  show ?thesis by (simp add: PRTOS_MEM_AREA_READONLY_def)
qed

lemma mapped_entry:
  assumes inv: "mmu_inv c s" and a: "a AND PAGE_MASK = a" "a = page_addr c page" and m: "map_page a page s = Some (v, s1)" and i: "i \<le> 1023"
  shows "read_by_pass_mmu_word c (v + 4 * i) s1 = Some (load_word (pmem s) (a + 4 * i), s1)"
proof -
  obtain lru where ok: "mmu_ok c s lru" using inv by (auto simp: mmu_inv_def)
  have "a AND 0xfff = 0" using page_aligned [of a] a(1) by simp
  then have "a AND (PAGE_SIZE - 1) = 0" by (simp add: PAGE_SIZE_def)
  have "a AND PAGE_MASK = page_addr c page" using a by simp
  have v: "v AND 0xfff = 0" "window (mm s1) v = Some a" "CONFIG_PRTOS_OFFSET < v"
  proof -
    from map_page_ok [OF ok \<open>a AND PAGE_MASK = page_addr c page\<close> m] obtain v0 where
      "v = v0 + (a AND (PAGE_SIZE - 1))" "v0 AND 0xfff = 0" "window (mm s1) v0 = Some (page_addr c page)" "CONFIG_PRTOS_OFFSET < v0" by blast
    then show "v AND 0xfff = 0" "window (mm s1) v = Some a" "CONFIG_PRTOS_OFFSET < v"
      by (simp_all add: \<open>a AND (PAGE_SIZE - 1) = 0\<close> a(2) [symmetric])
  qed
  have o4: "(4 * i) AND 0xfff = 4 * i" using page_offset(2) [of 0 "4 * i", OF _ entry_offset(1) [OF i]] by (simp add: PAGE_SIZE_def)
  have "v AND ((4 * i) AND 0xfff) = (v AND 0xfff) AND (4 * i)" by (simp only: ac_simps)
  then have "v AND (4 * i) = 0" unfolding o4 v(1) by simp
  then have "v + 4 * i = v OR 4 * i" by (rule plus_or_disjoint)
  then have "v \<le> v + 4 * i" by (metis le_word_or2 or.commute)
  with v(3) have "v + 4 * i > CONFIG_PRTOS_OFFSET" by (rule order.strict_trans2)
  then show ?thesis using vread_frame [OF v(2,1) i] map_page_kept(1) [OF m] by (simp add: read_by_pass_mmu_word_def)
qed

lemma scan_skip: "(\<And>i. i \<in> set es \<Longrightarrow> body i s = Some (True, s)) \<Longrightarrow> scan body (es @ es') s = scan body es' s"
  by (induction es) auto

lemma upt_split: "e < n \<Longrightarrow> [0..<n] = [0..<e] @ e # [Suc e..<n]"
  by (induction n) (auto simp: less_Suc_eq)

lemma area_of_None:
  assumes "area_of c p a = None" "a AND PAGE_MASK = a"
  shows "\<exists>s'. find_page c a p s = Some (None, s') \<and> keeps s s' \<and> mm s' = mm s"
    "\<exists>k'. phys_mm_find_addr c a p k = Some (None, k') \<and> cpus k' = cpus k \<and> kthreads k' = kthreads k"
  using assms by (auto simp: find_page_def pmm_find_page_def phys_mm_find_addr_def area_of_def keeps_def page_of_s_def)

text \<open>The scan of a new page table stops at the first entry outside the partition.\<close>

lemma set_pte_stops:
  assumes inv: "mmu_inv c s" and a: "a AND PAGE_MASK = a" "a = page_addr c page" and m: "map_page a page s = Some (v, s1)"
    and me: "my_partition this s = Some p" and e: "e < 1024" "IS_PRESENT (load_word (pmem s) (a + 4 * of_nat e))"
    and before: "\<And>i. i < e \<Longrightarrow> \<not> IS_PRESENT (load_word (pmem s) (a + 4 * of_nat i))"
    and foreign: "area_of c p (load_word (pmem s) (a + 4 * of_nat e) AND PAGE_MASK) = None"
  shows "\<exists>s'. set_pte c this a page s = Some s' \<and> pmem s' = pmem s \<and> phys_page_table (mm s') = phys_page_table (mm s1)"
proof -
  let ?x = "load_word (pmem s) (a + 4 * of_nat e)"
  have i: "of_nat i \<le> (1023 :: u32)" if "i < 1024" for i using that by (simp add: word_le_nat_alt unat_of_nat32)
  note rd = mapped_entry [OF inv a m i]
  have skip: "set_pte_entry c this v i s1 = Some (True, s1)" if "i < e" for i
    using rd [of i] before [OF that] that e by (simp add: set_pte_entry_def)
  have pm: "(?x AND PAGE_MASK) AND PAGE_MASK = ?x AND PAGE_MASK" by (simp add: and.assoc)
  have me1: "my_partition this s1 = Some p" using me keeps_thread(1) map_keeps [OF m] a by metis
  obtain s2 where s2: "find_page c (?x AND PAGE_MASK) p s1 = Some (None, s2)" "keeps s1 s2" "mm s2 = mm s1"
    using area_of_None(1) [OF foreign pm] by blast
  obtain k where k: "phys_mm_find_addr c (?x AND PAGE_MASK) p (mkern s2) = Some (None, k)"
    using area_of_None(2) [OF foreign pm] by blast
  have stop: "set_pte_entry c this v e s1 = Some (False, s2\<lparr>mkern := k\<rparr>)"
    using rd [OF e(1)] e me1 s2 k by (simp add: set_pte_entry_def)
  have "scan (set_pte_entry c this v) ([0..<e] @ e # [Suc e..<1024]) s1 = scan (set_pte_entry c this v) (e # [Suc e..<1024]) s1"
    by (rule scan_skip) (use skip in simp)
  also have "\<dots> = Some (False, s2\<lparr>mkern := k\<rparr>)" using stop by simp
  finally have "scan (set_pte_entry c this v) [0..<1024] s1 = Some (False, s2\<lparr>mkern := k\<rparr>)"
    unfolding upt_split [OF e(1)] .
  then show ?thesis using m s2 map_page_kept(1) [OF m] by (simp add: set_pte_def PTDL2ENTRIES_def keeps_def)
qed

text \<open>C38. A page becomes a page table with entries that were never checked: the scan of its entries ends
  at the first one that maps a page outside the areas of the partition, and the page is given the
  type all the same.  The memory is as the guest wrote it, the foreign entry still present, and the
  page may now be linked into a page directory.\<close>

theorem set_page_type_sys_accepts_foreign:
  assumes inv: "mmu_inv c s" and a: "a AND PAGE_MASK = a" and me: "my_partition this s = Some p"
    and find: "find_page c a p s = Some (Some (page, f), s0)" and map: "map_page a page s0 = Some (v, s1)"
    and ty: "pp_type (page_of_s s page) = PPAG_STD" and cnt: "pp_counter (page_of_s s page) = 0"
    and e: "e < 1024" "IS_PRESENT (load_word (pmem s) (a + 4 * of_nat e))"
    and before: "\<And>i. i < e \<Longrightarrow> \<not> IS_PRESENT (load_word (pmem s) (a + 4 * of_nat i))"
    and foreign: "area_of c p (load_word (pmem s) (a + 4 * of_nat e) AND PAGE_MASK) = None"
  shows "\<exists>s'. set_page_type_sys c page_tables this a 2 s = Some (PRTOS_OK, s') \<and> pmem s' = pmem s \<and>
    IS_VALID_PTD_ENTRY (pp_type (page_of_s s' page))"
proof -
  have pa: "a = page_addr c page"
    using find_page_addr [OF _ find] inv a by (auto simp: mmu_inv_def mmu_ok_def)
  have K: "keeps s s0" "mmu_inv c s0" using find_page_keeps [OF find] inv by simp_all
  note T = keeps_thread [OF K(1)]
  have pages: "page_of_s s0 page = page_of_s s page" using find_page_same [OF find] by (simp add: page_of_s_def)
  have "my_partition this s0 = Some p" using me T(1) by simp
  from set_pte_stops [OF K(2) a pa map this e(1), unfolded T(5), OF e(2) before foreign]
  obtain s2 where s2: "set_pte c this a page s0 = Some s2" "pmem s2 = pmem s" by blast
  have nr: "\<not> NR_PPAG \<le> 2" "(2 :: u32) \<noteq> ucast PPAG_STD" "(2 :: u32) \<noteq> ucast PPAG_PTDL1" "(2 :: u32) = ucast PPAG_PTDL2"
    "PPAG_STD \<noteq> PPAG_PTDL1" "PPAG_STD \<noteq> PPAG_PTDL2" "(ucast (2 :: u32) :: 3 word) = PPAG_PTDL2"
    by (simp_all add: NR_PPAG_def PPAG_STD_def PPAG_PTDL1_def PPAG_PTDL2_def)
  have "set_page_type_sys c page_tables this a 2 s = Some (PRTOS_OK, set_type page PPAG_PTDL2 s2)"
    using me find s2(1) ty cnt pages nr by (simp add: set_page_type_sys_def Let_def)
  then show ?thesis using s2(2) by (simp add: IS_VALID_PTD_ENTRY_def page_of_s_def set_type_def)
qed

text \<open>A page whose first entry maps the first page of the hypervisor.\<close>

definition demo_table :: mmu where
  "demo_table = demo_mmu\<lparr>pmem := store_word 0x6005000 0xFC000003 (\<lambda>_. 0)\<rparr>"

lemma demo_table_find: "find_page demo_ro_conf 0x6005000 0 demo_table = Some (Some (Page 0 5, 4), demo_table)"
proof -
  have "area_search (area_bounds demo_ro_conf 0) 0x6005000 0x6005000 0 0 = Some 0"
    "assert_in (area_bounds demo_ro_conf 0 0) 0x6005000 0x6005fff = Some ()"
    "num_of_physical_memory_areas (partition_cfg demo_ro_conf 0) = 1" "area_flags (part_area demo_ro_conf 0 0) = 4"
    "memory_region_offset (part_area demo_ro_conf 0 0) = 0" "page_in_region demo_ro_conf 0 0x6005000 = Page 0 5"
    "region_flags (memory_region_table demo_ro_conf 0) = 1"
    by code_simp+
  then show ?thesis
    by (simp add: find_page_def pmm_find_page_def PAGE_MASK_def PAGE_SIZE_def PRTOSC_REG_FLAG_PGTAB_def Let_def)
qed

theorem set_page_type_sys_accepts_foreign_witness:
  "\<exists>s'. set_page_type_sys demo_ro_conf (\<lambda>_. 0) 0 0x6005000 2 demo_table = Some (PRTOS_OK, s') \<and>
    load_word (pmem s') 0x6005000 = 0xFC000003 \<and> IS_VALID_PTD_ENTRY (pp_type (page_of_s s' (Page 0 5)))"
proof -
  have inv: "mmu_inv demo_ro_conf demo_table"
    using demo_ro_inv by (simp add: mmu_inv_def mmu_ok_def demo_table_def)
  have me: "my_partition 0 demo_table = Some 0" by code_simp
  have "map_option fst (map_page 0x6005000 (Page 0 5) demo_table) = Some 0xFD001000" by code_simp
  then obtain v s1 where m: "map_page 0x6005000 (Page 0 5) demo_table = Some (v, s1)" by auto
  have w: "load_word (pmem demo_table) (0x6005000 + 4 * of_nat 0) = 0xFC000003" by (simp add: demo_table_def)
  have f: "area_of demo_ro_conf 0 0xFC000000 = None" by code_simp
  have p: "pp_type (page_of_s demo_table (Page 0 5)) = PPAG_STD" "pp_counter (page_of_s demo_table (Page 0 5)) = 0"
    by (simp_all add: page_of_s_def demo_table_def demo_mmu_def)
  from set_page_type_sys_accepts_foreign [OF inv _ me demo_table_find m p, of 0 "\<lambda>_. 0"]
  show ?thesis using w f by (auto simp: PAGE_MASK_def IS_PRESENT_def PG_ARCH_PRESENT_def)
qed

end
