(* ===== verification/Spec2Isabelle.thy ===== *)
theory Spec2Isabelle
  imports Sched KStdlib CommPorts LogStream Checksum PhysMem Irqs MmuCalls
begin

text \<open>The PRTOS hypervisor.\<close>

end
